(* ===== verification/Prelude.thy ===== *)
theory Prelude
  imports Main "HOL-Library.Word"
begin

text \<open>
  Shared material of the development: the names of the machine types of the C++ sources, the
  arithmetic of 32-bit words read as integers, and list lemmas about sorted containers
  (the model of \<open>std::set\<close> and of vectors kept in order) that several components use.
\<close>

type_synonym u8 = "8 word"
type_synonym u16 = "16 word"
type_synonym u32 = "32 word"
type_synonym u64 = "64 word"

named_theorems word_int "32-bit words read as integers"

subsection \<open>32-bit arithmetic read as integers\<close>

lemma uint32_bounds: "0 \<le> uint (x :: u32)" "uint (x :: u32) < 4294967296"
  using uint_lt2p [of x] by simp_all

lemma sint32_bounds: "-2147483648 \<le> sint (x :: u32)" "sint (x :: u32) < 2147483648"
  using sint_ge [of x] sint_lt [of x] by simp_all

lemma sint32_eqD: "sint a = sint b \<Longrightarrow> a = (b :: u32)"
  by (rule signed_word_eqI)

lemma sint32_of_int:
  "-2147483648 \<le> k \<Longrightarrow> k < 2147483648 \<Longrightarrow> sint (word_of_int k :: u32) = k"
  by (simp add: signed_of_int signed_take_bit_int_eq_self)

lemma sint64_of_int:
  "-9223372036854775808 \<le> k \<Longrightarrow> k < 9223372036854775808 \<Longrightarrow> sint (word_of_int k :: u64) = k"
  by (simp add: signed_of_int signed_take_bit_int_eq_self)

lemma uint32_add [word_int]:
  "uint (a + b) = (if uint a + uint b < 4294967296 then uint a + uint b
                   else uint a + uint b - 4294967296)" for a b :: u32
  by (simp add: uint_plus_if_size word_size)

lemma uint32_sub [word_int]:
  "uint (a - b) = (if uint b \<le> uint a then uint a - uint b
                   else uint a - uint b + 4294967296)" for a b :: u32
  by (simp add: uint_sub_if_size word_size)

lemma u32_unat_add:
  "unat ((x::u32) + y) = (if 4294967296 \<le> unat x + unat y then unat x + unat y - 4294967296
                          else unat x + unat y)"
  by (simp add: unat_plus_if_size word_size)

lemma u32_unat_bound: "unat (x::u32) < 4294967296"
  using uint32_bounds [of x] unfolding unat_eq_nat_uint by linarith

lemma u32_carry: "(x::u32) + y < x \<longleftrightarrow> 4294967296 \<le> unat x + unat y"
proof (cases "4294967296 \<le> unat x + unat y")
  case True
  then have "unat (x + y) < unat x" unfolding u32_unat_add using u32_unat_bound [of y] by simp
  then show ?thesis using True by (simp add: word_less_nat_alt)
next
  case False
  then have "unat x \<le> unat (x + y)" unfolding u32_unat_add by simp
  then show ?thesis using False by (simp add: word_less_nat_alt)
qed

subsection \<open>Binary search\<close>

text \<open>
  \<open>std::lower_bound\<close> as the standard library implements it: \<open>p\<close> says that an element is before the
  wanted position. On a vector that \<open>p\<close> partitions it finds the boundary; the definition also says
  what happens on one that it does not.
\<close>

function lower_bound_from :: "('a \<Rightarrow> bool) \<Rightarrow> 'a list \<Rightarrow> nat \<Rightarrow> nat \<Rightarrow> nat" where
  "lower_bound_from p xs first len =
     (if len = 0 then first
      else let half = len div 2; middle = first + half
           in if p (xs ! middle) then lower_bound_from p xs (middle + 1) (len - half - 1)
              else lower_bound_from p xs first half)"
  by pat_completeness auto
termination by (relation "measure (\<lambda>(p, xs, first, len). len)") auto

declare lower_bound_from.simps [simp del]

definition lower_bound :: "('a \<Rightarrow> bool) \<Rightarrow> 'a list \<Rightarrow> nat" where
  "lower_bound p xs = lower_bound_from p xs 0 (length xs)"

lemma lower_bound_from_partitioned:
  assumes "\<And>i. i < k \<Longrightarrow> p (xs ! i)" "\<And>i. k \<le> i \<Longrightarrow> i < length xs \<Longrightarrow> \<not> p (xs ! i)"
    "first \<le> k" "k \<le> first + len" "first + len \<le> length xs"
  shows "lower_bound_from p xs first len = k"
  using assms
proof (induction p xs first len rule: lower_bound_from.induct)
  case (1 p xs first len)
  show ?case
  proof (cases "len = 0")
    case True
    then show ?thesis using 1(5,6) by (simp add: lower_bound_from.simps)
  next
    case False
    let ?m = "first + len div 2"
    have m: "?m < length xs" using False 1(7) by simp
    show ?thesis
    proof (cases "p (xs ! ?m)")
      case True
      then have "?m < k" using 1(4) m by (metis not_less)
      then show ?thesis
        using 1(1) [OF False refl refl] 1(3-7) True False
        by (subst lower_bound_from.simps) (simp add: Let_def)
    next
      case F: False
      then have "k \<le> ?m" using 1(3) by (metis not_less)
      then show ?thesis
        using 1(2) [OF False refl refl] 1(3-7) F False
        by (subst lower_bound_from.simps) (simp add: Let_def)
    qed
  qed
qed

lemma lower_bound_partitioned:
  assumes "\<And>i. i < k \<Longrightarrow> p (xs ! i)" "\<And>i. k \<le> i \<Longrightarrow> i < length xs \<Longrightarrow> \<not> p (xs ! i)" "k \<le> length xs"
  shows "lower_bound p xs = k"
  unfolding lower_bound_def using assms by (intro lower_bound_from_partitioned) auto

lemma lower_bound_takeWhile:
  assumes "sorted_wrt (\<lambda>x y. p y \<longrightarrow> p x) xs"
  shows "lower_bound p xs = length (takeWhile p xs)"
proof (rule lower_bound_partitioned)
  show "p (xs ! i)" if "i < length (takeWhile p xs)" for i
    using that nth_mem [of i "takeWhile p xs"] set_takeWhileD [of "takeWhile p xs ! i" p xs]
    by (simp add: takeWhile_nth)
next
  fix i assume i: "length (takeWhile p xs) \<le> i" "i < length xs"
  have n: "\<not> p (xs ! length (takeWhile p xs))" using i nth_length_takeWhile [of p xs] by simp
  show "\<not> p (xs ! i)"
  proof (cases "i = length (takeWhile p xs)")
    case False
    then show ?thesis using sorted_wrt_nth_less [OF assms, of "length (takeWhile p xs)" i] i n by auto
  qed (use n in simp)
qed (simp add: length_takeWhile_le)

end
