(* ===== verification/SequenceNumber.thy ===== *)
theory SequenceNumber
  imports Prelude
begin

text \<open>
  \<open>include/fastdds/rtps/common/SequenceNumber.hpp\<close>: the struct \<open>SequenceNumber_t\<close>, a signed
  32-bit \<open>high\<close> and an unsigned 32-bit \<open>low\<close> part, and its operators, word for word.
  \<open>sn_val\<close> reads the struct as the integer it stands for; the lemmas show that order,
  increment, addition and subtraction of the struct are those of the integers as long as the
  result fits (what the \<open>assert\<close>s of the source demand), and that the conversions to and from
  \<open>uint64_t\<close> are inverse. This is what lets the protocol components above use plain integers.
\<close>

subsection \<open>The struct and its operators\<close>

datatype SequenceNumber_t = SequenceNumber_t (high: u32) (low: u32)

definition sn_init :: SequenceNumber_t where
  "sn_init = SequenceNumber_t 0 0"

definition sn_of64 :: "u64 \<Rightarrow> SequenceNumber_t" where
  "sn_of64 u = SequenceNumber_t (ucast (drop_bit 32 u)) (ucast u)"

definition to64long :: "SequenceNumber_t \<Rightarrow> u64" where
  "to64long s = push_bit 32 (scast (high s)) + ucast (low s)"

definition sn_pre_inc :: "SequenceNumber_t \<Rightarrow> SequenceNumber_t" where
  "sn_pre_inc s =
     (let l = low s + 1
      in if l = 0 then SequenceNumber_t (high s + 1) l else SequenceNumber_t (high s) l)"

text \<open>The postfix operator returns the old value and leaves the incremented one behind.\<close>

definition sn_post_inc :: "SequenceNumber_t \<Rightarrow> SequenceNumber_t \<times> SequenceNumber_t" where
  "sn_post_inc s = (s, sn_pre_inc s)"

definition sn_add_assign :: "SequenceNumber_t \<Rightarrow> u32 \<Rightarrow> SequenceNumber_t" where
  "sn_add_assign s inc =
     (let aux_low = low s; l = low s + inc
      in if l < aux_low then SequenceNumber_t (high s + 1) l else SequenceNumber_t (high s) l)"

definition sn_unknown :: SequenceNumber_t where
  "sn_unknown = SequenceNumber_t (- 1) 0"

definition sn_eq :: "SequenceNumber_t \<Rightarrow> SequenceNumber_t \<Rightarrow> bool" where
  "sn_eq a b \<longleftrightarrow> low a = low b \<and> high a = high b"

definition sn_neq :: "SequenceNumber_t \<Rightarrow> SequenceNumber_t \<Rightarrow> bool" where
  "sn_neq a b \<longleftrightarrow> low a \<noteq> low b \<or> high a \<noteq> high b"

definition sn_gt :: "SequenceNumber_t \<Rightarrow> SequenceNumber_t \<Rightarrow> bool" where
  "sn_gt a b = (if high a = high b then low a > low b else sint (high a) > sint (high b))"

definition sn_lt :: "SequenceNumber_t \<Rightarrow> SequenceNumber_t \<Rightarrow> bool" where
  "sn_lt a b = (if high a = high b then low a < low b else sint (high a) < sint (high b))"

definition sn_ge :: "SequenceNumber_t \<Rightarrow> SequenceNumber_t \<Rightarrow> bool" where
  "sn_ge a b = (if high a = high b then low a \<ge> low b else sint (high a) > sint (high b))"

definition sn_le :: "SequenceNumber_t \<Rightarrow> SequenceNumber_t \<Rightarrow> bool" where
  "sn_le a b = (if high a = high b then low a \<le> low b else sint (high a) < sint (high b))"

definition sn_sub_u32 :: "SequenceNumber_t \<Rightarrow> u32 \<Rightarrow> SequenceNumber_t" where
  "sn_sub_u32 s inc =
     (let res_low = low s - inc
      in if inc > low s then SequenceNumber_t (high s - 1) res_low
         else SequenceNumber_t (high s) res_low)"

definition sn_add_u32 :: "SequenceNumber_t \<Rightarrow> u32 \<Rightarrow> SequenceNumber_t" where
  "sn_add_u32 s inc =
     (let res_low = low s + inc
      in if res_low < low s then SequenceNumber_t (high s + 1) res_low
         else SequenceNumber_t (high s) res_low)"

definition sn_sub :: "SequenceNumber_t \<Rightarrow> SequenceNumber_t \<Rightarrow> SequenceNumber_t" where
  "sn_sub minuend subtrahend =
     (let res_high = high minuend - high subtrahend; res_low = low minuend - low subtrahend
      in if low minuend < low subtrahend then SequenceNumber_t (res_high - 1) res_low
         else SequenceNumber_t res_high res_low)"

definition sort_seqNum :: "SequenceNumber_t \<Rightarrow> SequenceNumber_t \<Rightarrow> bool" where
  "sort_seqNum s1 s2 = sn_lt s1 s2"

definition SequenceNumberHash :: "SequenceNumber_t \<Rightarrow> u64" where
  "SequenceNumberHash s = to64long s"

definition SequenceNumberDiff :: "SequenceNumber_t \<Rightarrow> SequenceNumber_t \<Rightarrow> u32" where
  "SequenceNumberDiff a b = low (sn_sub a b)"

subsection \<open>The integer a sequence number stands for\<close>

definition sn_val :: "SequenceNumber_t \<Rightarrow> int" where
  "sn_val s = sint (high s) * 4294967296 + uint (low s)"

lemma sn_val_low: "uint (low s) = sn_val s mod 4294967296"
  using uint32_bounds [of "low s"] by (simp add: sn_val_def)

lemma sn_val_high: "sint (high s) = sn_val s div 4294967296"
  using uint32_bounds [of "low s"] by (simp add: sn_val_def)

lemma sn_val_bounds: "- 9223372036854775808 \<le> sn_val s" "sn_val s < 9223372036854775808"
  using uint32_bounds [of "low s"] sint32_bounds [of "high s"] unfolding sn_val_def
  by linarith+

lemma sn_val_inj: "sn_val a = sn_val b \<Longrightarrow> a = b"
proof -
  assume eq: "sn_val a = sn_val b"
  then have "low a = low b"
    using sn_val_low [of a] sn_val_low [of b] by (simp add: word_uint_eqI)
  moreover have "high a = high b"
    using eq sn_val_high [of a] sn_val_high [of b] by (simp add: sint32_eqD)
  ultimately show ?thesis by (simp add: SequenceNumber_t.expand)
qed

lemma sn_lt_val: "sn_lt a b \<longleftrightarrow> sn_val a < sn_val b"
proof (cases "high a = high b")
  case True
  then show ?thesis by (simp add: sn_lt_def sn_val_def word_less_def)
next
  case False
  then have "sint (high a) \<noteq> sint (high b)" using sint32_eqD by blast
  then have "sn_val a < sn_val b" if "sint (high a) < sint (high b)"
    using uint32_bounds [of "low a"] uint32_bounds [of "low b"] that
    unfolding sn_val_def by linarith
  moreover have "sn_val b < sn_val a" if "\<not> sint (high a) < sint (high b)"
    using uint32_bounds [of "low a"] uint32_bounds [of "low b"] that \<open>sint (high a) \<noteq> sint (high b)\<close>
    unfolding sn_val_def by linarith
  ultimately have "(sint (high a) < sint (high b)) = (sn_val a < sn_val b)" by force
  with False show ?thesis by (simp add: sn_lt_def)
qed

lemma sn_eq_val: "sn_eq a b \<longleftrightarrow> sn_val a = sn_val b"
  using sn_val_inj [of a b] by (auto simp: sn_eq_def sn_val_def)

lemma sn_eq_iff: "sn_eq a b \<longleftrightarrow> a = b"
  using sn_val_inj [of a b] by (auto simp: sn_eq_val)

lemma sn_gt_lt: "sn_gt a b = sn_lt b a"
  by (auto simp: sn_gt_def sn_lt_def)

lemma sn_ge_lt: "sn_ge a b = (\<not> sn_lt a b)"
  using sint32_eqD [of "high a" "high b"] by (cases "high a = high b") (auto simp: sn_ge_def sn_lt_def not_less order_le_less)

lemma sn_le_lt: "sn_le a b = (\<not> sn_lt b a)"
  using sint32_eqD [of "high a" "high b"] by (cases "high a = high b") (auto simp: sn_le_def sn_lt_def not_less order_le_less)

lemmas sn_order_val = sn_gt_lt sn_ge_lt sn_le_lt sn_lt_val

text \<open>The operators \<open><\<close> and \<open><=\<close> of the struct make it a linear order of the library.\<close>

instantiation SequenceNumber_t :: linorder
begin

definition less_eq_SequenceNumber_t :: "SequenceNumber_t \<Rightarrow> SequenceNumber_t \<Rightarrow> bool" where
  "less_eq_SequenceNumber_t a b = sn_le a b"

definition less_SequenceNumber_t :: "SequenceNumber_t \<Rightarrow> SequenceNumber_t \<Rightarrow> bool" where
  "less_SequenceNumber_t a b = sn_lt a b"

instance
  by intro_classes
    (auto simp: less_eq_SequenceNumber_t_def less_SequenceNumber_t_def sn_order_val
      intro: sn_val_inj)

end

lemma sn_less_val: "a < b \<longleftrightarrow> sn_val a < sn_val b"
  by (simp add: less_SequenceNumber_t_def sn_lt_val)

lemma sn_less_eq_val: "a \<le> b \<longleftrightarrow> sn_val a \<le> sn_val b"
  by (auto simp: less_eq_SequenceNumber_t_def sn_order_val)

subsection \<open>Arithmetic\<close>

lemma sint32_shift:
  assumes "-2147483648 \<le> sint h + k" "sint h + k < 2147483648"
  shows "sint (h + word_of_int k :: u32) = sint h + k"
proof -
  have "h + word_of_int k = word_of_int (sint h + k)" by simp
  then show ?thesis using sint32_of_int [OF assms] by simp
qed

lemma sn_add_u32_val:
  assumes "sn_val s + uint inc < 9223372036854775808"
  shows "sn_val (sn_add_u32 s inc) = sn_val s + uint inc"
proof (cases "uint (low s) + uint inc < 4294967296")
  case True
  then have "\<not> low s + inc < low s" by (simp add: word_less_def word_int uint32_bounds)
  with True show ?thesis by (simp add: sn_add_u32_def sn_val_def word_int)
next
  case False
  then have "low s + inc < low s"
    using uint32_bounds [of inc] by (simp add: word_less_def word_int)
  moreover have "sint (high s + 1) = sint (high s) + 1"
    using assms False sint32_bounds [of "high s"] sint32_shift [of "high s" 1]
    by (simp add: sn_val_def)
  ultimately show ?thesis using False by (simp add: sn_add_u32_def sn_val_def word_int)
qed

lemma sn_add_assign_eq: "sn_add_assign s inc = sn_add_u32 s inc"
  by (simp add: sn_add_assign_def sn_add_u32_def Let_def)

lemma sn_pre_inc_eq: "sn_pre_inc s = sn_add_u32 s 1"
proof -
  have "low s + 1 = 0 \<longleftrightarrow> low s + 1 < low s"
    using uint32_bounds [of "low s"] unfolding word_less_def word_uint_eq_iff
    by (simp add: word_int) (insert uint_ge_0 [of "low s"], arith)
  then show ?thesis by (simp add: sn_pre_inc_def sn_add_u32_def Let_def)
qed

lemma sn_sub_u32_val:
  assumes "- 9223372036854775808 \<le> sn_val s - uint inc"
  shows "sn_val (sn_sub_u32 s inc) = sn_val s - uint inc"
proof (cases "uint inc \<le> uint (low s)")
  case True
  then show ?thesis by (simp add: sn_sub_u32_def sn_val_def word_int word_less_def)
next
  case False
  have "sint (high s - 1) = sint (high s) - 1"
    using assms False sint32_bounds [of "high s"] sint32_shift [of "high s" "-1"]
    by (simp add: sn_val_def)
  with False show ?thesis by (simp add: sn_sub_u32_def sn_val_def word_int word_less_def)
qed

lemma sn_sub_val:
  assumes "sn_val b \<le> sn_val a" "sn_val a - sn_val b < 9223372036854775808"
  shows "sn_val (sn_sub a b) = sn_val a - sn_val b"
proof -
  note bounds = uint32_bounds [of "low a"] uint32_bounds [of "low b"]
    sint32_bounds [of "high a"] sint32_bounds [of "high b"]
  have of_int: "high a - high b + word_of_int k = word_of_int (sint (high a) - sint (high b) + k)"
    for k by simp
  show ?thesis
  proof (cases "uint (low b) \<le> uint (low a)")
    case True
    have "- 2147483648 \<le> sint (high a) - sint (high b)"
      "sint (high a) - sint (high b) < 2147483648"
      using assms bounds True unfolding sn_val_def by linarith+
    then have "sint (high a - high b) = sint (high a) - sint (high b)"
      using sint32_of_int [of "sint (high a) - sint (high b)"] by simp
    with True show ?thesis by (simp add: sn_sub_def sn_val_def word_int word_less_def)
  next
    case False
    have "- 2147483648 \<le> sint (high a) - sint (high b) - 1"
      "sint (high a) - sint (high b) - 1 < 2147483648"
      using assms bounds False unfolding sn_val_def by linarith+
    then have "sint (high a - high b - 1) = sint (high a) - sint (high b) - 1"
      using sint32_of_int [of "sint (high a) - sint (high b) - 1"] of_int [of "-1"] by simp
    with False show ?thesis by (simp add: sn_sub_def sn_val_def word_int word_less_def)
  qed
qed

lemma SequenceNumberDiff_val:
  assumes "sn_val b \<le> sn_val a" "sn_val a - sn_val b < 4294967296"
  shows "uint (SequenceNumberDiff a b) = sn_val a - sn_val b"
  using assms sn_sub_val [of b a] by (simp add: SequenceNumberDiff_def sn_val_low)

subsection \<open>Conversion to and from 64 bits\<close>

lemma to64long_val: "to64long s = word_of_int (sn_val s)"
  by (simp add: to64long_def sn_val_def push_bit_eq_mult)

lemma to64long_of64: "to64long (sn_of64 u) = u"
proof -
  have "push_bit 32 (scast (ucast (drop_bit 32 u) :: u32)) = push_bit 32 (drop_bit 32 u)"
    by (rule bit_word_eqI) (auto simp add: bit_simps)
  moreover have "ucast (ucast u :: u32) = take_bit 32 u"
    by (rule bit_word_eqI) (auto simp add: bit_simps)
  ultimately show ?thesis by (simp add: to64long_def sn_of64_def bits_ident)
qed

lemma sn_val_to64long: "sint (to64long s) = sn_val s"
  using sint64_of_int sn_val_bounds by (simp add: to64long_val)

lemma sn_of64_to64long: "sn_of64 (to64long s) = s"
  using sn_val_to64long [of "sn_of64 (to64long s)"] sn_val_to64long [of s]
  by (auto simp: to64long_of64 intro: sn_val_inj)

lemma sn_add_u32_0: "sn_add_u32 s 0 = s"
  by (cases s) (simp add: sn_add_u32_def)

lemma sn_add_u32_add:
  assumes "unat m + unat n < 4294967296"
  shows "sn_add_u32 (sn_add_u32 s m) n = sn_add_u32 s (m + n)"
proof -
  have mn: "unat (m + n) = unat m + unat n" using assms by (simp add: u32_unat_add)
  have l: "low s + m + n = low s + (m + n)" by (simp add: add.assoc)
  have b: "unat (low s) < 4294967296" by (rule u32_unat_bound)
  show ?thesis
  proof (cases "4294967296 \<le> unat (low s) + unat m")
    case True
    then have "unat (low s + m) + unat n < 4294967296" using assms b by (simp add: u32_unat_add)
    then show ?thesis using True mn l by (simp add: sn_add_u32_def Let_def u32_carry)
  next
    case False
    then have "unat (low s + m) = unat (low s) + unat m" by (simp add: u32_unat_add)
    then show ?thesis using False mn l by (simp add: sn_add_u32_def Let_def u32_carry)
  qed
qed

lemma SequenceNumberDiff_unat:
  "\<lbrakk>sn_val b \<le> sn_val a; sn_val a - sn_val b < 4294967296\<rbrakk> \<Longrightarrow>
     unat (SequenceNumberDiff a b) = nat (sn_val a - sn_val b)"
  unfolding unat_eq_nat_uint by (simp only: SequenceNumberDiff_val)

subsection \<open>Properties\<close>



text \<open>
  The conversions to and from \<open>uint64_t\<close> are inverse to each other, and the 64-bit value read as a
  signed integer is the integer the struct stands for.
\<close>

theorem SequenceNumber_64_round_trip:
  "sn_of64 (to64long s) = s \<and> to64long (sn_of64 u) = u \<and> sint (to64long s) = sn_val s"
  by (simp add: sn_of64_to64long to64long_of64 sn_val_to64long)

end
