(* ===== verification/BitmapRange.thy ===== *)
theory BitmapRange
  imports SequenceNumber
begin

unbundle bit_operations_syntax

text \<open>
  \<open>include/fastdds/utils/fixed_size_bitmap.hpp\<close>: the template \<open>BitmapRange<T, Diff, NBITS>\<close>, a
  sliding window of 256 items kept as eight 32-bit words, most significant bit first. The
  template's requirements on \<open>T\<close> (its default value, \<open>T + uint32_t\<close> and the functor \<open>Diff\<close>)
  are the fields of \<open>item_ops\<close>, passed as the first argument, and its comparison is the order
  of the type. \<open>uint32_t\<close> counters are \<open>nat\<close>, with the wrap-around of \<open>num_bits_ - 1\<close> written
  out in \<open>br_max\<close>; both instances of the source have \<open>NBITS = 256\<close>.

  The abstraction \<open>br_offsets\<close> is the set of offsets whose bit is set. The lemmas give every
  operation's effect on that set and show which operations keep the invariant \<open>br_wf\<close> (no
  bit set at or above \<open>num_bits\<close>) and \<open>br_tight\<close> (\<open>num_bits\<close> is exactly the highest bit).
\<close>

subsection \<open>The template\<close>

record 't item_ops =
  item_default :: 't
  item_add :: "'t \<Rightarrow> nat \<Rightarrow> 't"
  item_diff :: "'t \<Rightarrow> 't \<Rightarrow> nat"

definition NBITS :: nat where "NBITS = 256"

definition NITEMS :: nat where "NITEMS = (NBITS + 31) div 32"

record 't BitmapRange =
  br_base :: 't
  br_range_max :: 't
  br_bitmap :: "u32 list"
  br_num_bits :: nat

text \<open>\<open>__builtin_clz\<close>: the number of zero bits above the highest bit set.\<close>

definition clz :: "u32 \<Rightarrow> nat" where
  "clz w = length (takeWhile (\<lambda>k. \<not> bit w (31 - k)) [0..<32])"

definition br_default :: "'t item_ops \<Rightarrow> 't BitmapRange" where
  "br_default ops = \<lparr>br_base = item_default ops,
     br_range_max = item_add ops (item_default ops) (NBITS - 1),
     br_bitmap = replicate NITEMS 0, br_num_bits = 0\<rparr>"

definition br_init_max :: "'t item_ops \<Rightarrow> 't \<Rightarrow> nat \<Rightarrow> 't BitmapRange" where
  "br_init_max ops b max_bits = \<lparr>br_base = b,
     br_range_max = item_add ops b (min max_bits (NBITS - 1)),
     br_bitmap = replicate NITEMS 0, br_num_bits = 0\<rparr>"

definition br_init :: "'t item_ops \<Rightarrow> 't \<Rightarrow> 't BitmapRange" where
  "br_init ops b = br_init_max ops b (NBITS - 1)"

definition br_set_base :: "'t item_ops \<Rightarrow> 't \<Rightarrow> 't BitmapRange \<Rightarrow> 't BitmapRange" where
  "br_set_base ops b br = br\<lparr>br_base := b, br_range_max := item_add ops b (NBITS - 1),
     br_num_bits := 0, br_bitmap := replicate NITEMS 0\<rparr>"

definition br_set_base_max :: "'t item_ops \<Rightarrow> 't \<Rightarrow> nat \<Rightarrow> 't BitmapRange \<Rightarrow> 't BitmapRange"
  where
  "br_set_base_max ops b max_bits br = br\<lparr>br_base := b,
     br_range_max := item_add ops b (min max_bits (NBITS - 1)),
     br_num_bits := 0, br_bitmap := replicate NITEMS 0\<rparr>"

text \<open>
  The loop of \<open>shift_map_left\<close>: \<open>i\<close> and \<open>n\<close> run forward together, each word is rebuilt
  in place from the words \<open>n\<close> and \<open>n + 1\<close>.
\<close>

function shift_left_loop :: "nat \<Rightarrow> nat \<Rightarrow> nat \<Rightarrow> u32 list \<Rightarrow> u32 list" where
  "shift_left_loop i n n_bits bm =
     (if n < NITEMS - 1
      then shift_left_loop (Suc i) (Suc n) n_bits
             (bm[i := push_bit n_bits (bm ! n) OR drop_bit (32 - n_bits) (bm ! Suc n)])
      else bm)"
  by pat_completeness auto
termination
  by (relation "measure (\<lambda>(i, n, n_bits, bm). NITEMS - n)") auto

declare shift_left_loop.simps [simp del]

definition shift_map_left :: "nat \<Rightarrow> 't BitmapRange \<Rightarrow> 't BitmapRange" where
  "shift_map_left n br =
     (if n \<ge> br_num_bits br
      then br\<lparr>br_num_bits := 0, br_bitmap := replicate NITEMS 0\<rparr>
      else
        let n_items = n div 32; n_bits = n mod 32; bm = br_bitmap br;
            bm' = (if n_bits = 0 then drop n_items bm @ drop (NITEMS - n_items) bm
                   else let bm1 = shift_left_loop 0 n_items n_bits bm
                        in bm1[NITEMS - 1 - n_items := push_bit n_bits (bm1 ! (NITEMS - 1))])
        in br\<lparr>br_num_bits := br_num_bits br - n,
              br_bitmap := take (NITEMS - n_items) bm' @ replicate n_items 0\<rparr>)"

text \<open>\<open>calc_maximum_bit_set\<close>: the new value of \<open>num_bits_\<close>, words taken from the top down.\<close>

fun calc_maximum_bit_set :: "u32 list \<Rightarrow> nat \<Rightarrow> nat \<Rightarrow> nat" where
  "calc_maximum_bit_set bm 0 min_index = 0"
| "calc_maximum_bit_set bm (Suc i) min_index =
     (if Suc i > min_index
      then let bits = bm ! i
           in if bits \<noteq> 0 then i * 32 + (clz (bits AND NOT (bits - 1)) + 1)
              else calc_maximum_bit_set bm i min_index
      else 0)"

text \<open>The loop of \<open>shift_map_right\<close>, backwards; it stops before word 0.\<close>

fun shift_right_loop :: "nat \<Rightarrow> nat \<Rightarrow> nat \<Rightarrow> u32 list \<Rightarrow> u32 list" where
  "shift_right_loop i 0 n_bits bm = bm"
| "shift_right_loop i (Suc n) n_bits bm =
     shift_right_loop (i - 1) n n_bits
       (bm[i := drop_bit n_bits (bm ! Suc n) OR push_bit (32 - n_bits) (bm ! n)])"

definition shift_map_right :: "nat \<Rightarrow> 't BitmapRange \<Rightarrow> 't BitmapRange" where
  "shift_map_right n br =
     (if n \<ge> NBITS
      then br\<lparr>br_num_bits := 0, br_bitmap := replicate NITEMS 0\<rparr>
      else
        let new_num_bits = br_num_bits br + n; find_new_max = new_num_bits > NBITS;
            n_items = n div 32; n_bits = n mod 32; bm = br_bitmap br;
            bm' = (if n_bits = 0 then take n_items bm @ take (NITEMS - n_items) bm
                   else let bm1 = shift_right_loop (NITEMS - 1) (NITEMS - 1 - n_items) n_bits bm
                        in bm1[n_items := drop_bit n_bits (bm1 ! 0)]);
            bm'' = replicate n_items 0 @ drop n_items bm'
        in br\<lparr>br_bitmap := bm'',
              br_num_bits := (if find_new_max then calc_maximum_bit_set bm'' NITEMS n_items
                              else new_num_bits)\<rparr>)"

definition bitmap_base_update :: "'t::linorder item_ops \<Rightarrow> 't \<Rightarrow> 't BitmapRange \<Rightarrow> 't BitmapRange"
  where
  "bitmap_base_update ops b br =
     (if b = br_base br then br
      else
        let br' = (if b > br_base br then shift_map_left (item_diff ops b (br_base br)) br
                   else shift_map_right (item_diff ops (br_base br) b) br)
        in br'\<lparr>br_base := b, br_range_max := item_add ops b (NBITS - 1)\<rparr>)"

definition br_empty :: "'t BitmapRange \<Rightarrow> bool" where
  "br_empty br \<longleftrightarrow> br_num_bits br = 0"

text \<open>\<open>num_bits_ - 1\<close> is computed in \<open>uint32_t\<close>: on an empty range it is \<open>2 ^ 32 - 1\<close>.\<close>

definition br_max :: "'t item_ops \<Rightarrow> 't BitmapRange \<Rightarrow> 't" where
  "br_max ops br =
     item_add ops (br_base br) (if br_num_bits br = 0 then 2 ^ 32 - 1 else br_num_bits br - 1)"

fun br_min_loop :: "'t item_ops \<Rightarrow> 't \<Rightarrow> u32 list \<Rightarrow> 't option" where
  "br_min_loop ops item [] = None"
| "br_min_loop ops item (bits # rest) =
     (if bits \<noteq> 0 then Some (item_add ops item (clz bits))
      else br_min_loop ops (item_add ops item 32) rest)"

definition br_min :: "'t item_ops \<Rightarrow> 't BitmapRange \<Rightarrow> 't" where
  "br_min ops br =
     (case br_min_loop ops (br_base br) (take ((br_num_bits br + 31) div 32) (br_bitmap br)) of
        Some item \<Rightarrow> item | None \<Rightarrow> br_base br)"

definition br_is_set :: "'t::linorder item_ops \<Rightarrow> 't BitmapRange \<Rightarrow> 't \<Rightarrow> bool" where
  "br_is_set ops br item =
     (if item \<ge> br_base br \<and> br_range_max br \<ge> item
      then let diff = item_diff ops item (br_base br)
           in if diff < br_num_bits br
              then (br_bitmap br ! (diff div 32)) AND push_bit (31 - diff mod 32) 1 \<noteq> 0
              else False
      else False)"

definition br_add :: "'t::linorder item_ops \<Rightarrow> 't \<Rightarrow> 't BitmapRange \<Rightarrow> bool \<times> 't BitmapRange" where
  "br_add ops item br =
     (if item \<ge> br_base br \<and> br_range_max br \<ge> item
      then let diff = item_diff ops item (br_base br); pos = diff div 32
           in (True, br\<lparr>br_num_bits := max (diff + 1) (br_num_bits br),
                        br_bitmap := (br_bitmap br)
                          [pos := (br_bitmap br ! pos) OR push_bit (31 - diff mod 32) 1]\<rparr>)
      else (False, br))"

text \<open>
  The \<open>while\<close> loop of \<open>add_range\<close> and the final partial word. \<open>bits_in_mask\<close> is never 0
  (it starts as \<open>32 - offset\<close> with \<open>offset < 32\<close>); the guard makes that visible.
\<close>

function add_range_loop :: "u32 list \<Rightarrow> nat \<Rightarrow> nat \<Rightarrow> u32 \<Rightarrow> nat \<Rightarrow> u32 list" where
  "add_range_loop bm pos n_bits msk bits_in_mask =
     (if 0 < bits_in_mask \<and> n_bits \<ge> bits_in_mask
      then add_range_loop (bm[pos := (bm ! pos) OR msk]) (Suc pos) (n_bits - bits_in_mask)
             (NOT 0) 32
      else if n_bits > 0
      then bm[pos := (bm ! pos) OR (msk AND push_bit (bits_in_mask - n_bits) (NOT 0))]
      else bm)"
  by pat_completeness auto
termination
  by (relation "measure (\<lambda>(bm, pos, n_bits, msk, bits_in_mask). n_bits)") auto

declare add_range_loop.simps [simp del]

definition br_add_range ::
  "'t::linorder item_ops \<Rightarrow> 't \<Rightarrow> 't \<Rightarrow> 't BitmapRange \<Rightarrow> 't BitmapRange" where
  "br_add_range ops frm to br =
     (let mn = (if br_base br \<ge> frm then br_base br else frm);
          lim = item_add ops (br_base br) NBITS;
          mx = (if to \<ge> lim then lim else to)
      in if mn \<ge> mx then br
         else
           let offset = item_diff ops mn (br_base br); n_bits = item_diff ops mx mn
           in br\<lparr>br_num_bits := max (br_num_bits br) (offset + n_bits),
                 br_bitmap := add_range_loop (br_bitmap br) (offset div 32) n_bits
                   (drop_bit (offset mod 32) (NOT 0)) (32 - offset mod 32)\<rparr>)"

text \<open>
  \<open>remove\<close> checks the item against \<open>max()\<close> only, so the word it clears can lie outside the
  array (see \<open>br_max\<close>); \<open>None\<close> is that out-of-bounds access.
\<close>

definition br_remove ::
  "'t::linorder item_ops \<Rightarrow> 't \<Rightarrow> 't BitmapRange \<Rightarrow> 't BitmapRange option" where
  "br_remove ops item br =
     (let max_value = br_max ops br
      in if item \<ge> br_base br \<and> max_value \<ge> item
         then let diff = item_diff ops item (br_base br); pos = diff div 32
              in if pos < NITEMS
                 then let bm = (br_bitmap br)
                            [pos := (br_bitmap br ! pos) AND NOT (push_bit (31 - diff mod 32) 1)]
                      in Some (br\<lparr>br_bitmap := bm,
                                  br_num_bits := (if item = max_value
                                    then calc_maximum_bit_set bm (pos + 1) 0
                                    else br_num_bits br)\<rparr>)
                 else None
         else Some br)"

definition br_bitmap_get :: "'t BitmapRange \<Rightarrow> nat \<times> u32 list \<times> nat" where
  "br_bitmap_get br = (br_num_bits br, br_bitmap br, (br_num_bits br + 31) div 32)"

definition br_bitmap_set :: "nat \<Rightarrow> u32 list \<Rightarrow> 't BitmapRange \<Rightarrow> 't BitmapRange" where
  "br_bitmap_set num_bits words br =
     (let nb = min num_bits NBITS; num_items = (nb + 31) div 32;
          bm = take num_items words @ replicate (NITEMS - num_items) 0;
          shift = num_bits mod 32;
          bm' = (if 0 < num_bits \<and> shift \<noteq> 0
                 then bm[num_items - 1 := (bm ! (num_items - 1)) AND NOT (drop_bit shift (NOT 0))]
                 else bm)
      in br\<lparr>br_bitmap := bm', br_num_bits := calc_maximum_bit_set bm' num_items 0\<rparr>)"

text \<open>
  \<open>for_each\<close>: the list of items the function is applied to, in order. The inner loop clears
  the highest bit until the word is 0; it runs at most 32 times.
\<close>

fun for_each_word :: "nat \<Rightarrow> 't item_ops \<Rightarrow> 't \<Rightarrow> u32 \<Rightarrow> 't list" where
  "for_each_word 0 ops item bits = []"
| "for_each_word (Suc fuel) ops item bits =
     (if bits = 0 then []
      else item_add ops item (clz bits)
             # for_each_word fuel ops item (bits AND NOT (push_bit (31 - clz bits) 1)))"

fun for_each_words :: "'t item_ops \<Rightarrow> 't \<Rightarrow> u32 list \<Rightarrow> 't list" where
  "for_each_words ops item [] = []"
| "for_each_words ops item (bits # rest) =
     for_each_word 32 ops item bits @ for_each_words ops (item_add ops item 32) rest"

definition br_for_each :: "'t item_ops \<Rightarrow> 't BitmapRange \<Rightarrow> 't list" where
  "br_for_each ops br =
     for_each_words ops (br_base br) (take ((br_num_bits br + 31) div 32) (br_bitmap br))"

subsection \<open>Abstraction and invariant\<close>

text \<open>
  Bit \<open>i\<close> of the window is bit \<open>31 - i mod 32\<close> of word \<open>i div 32\<close>.
\<close>

definition bit_at :: "u32 list \<Rightarrow> nat \<Rightarrow> bool" where
  "bit_at bm i \<longleftrightarrow> bit (bm ! (i div 32)) (31 - i mod 32)"

definition br_offsets :: "'t BitmapRange \<Rightarrow> nat set" where
  "br_offsets br = {i. i < br_num_bits br \<and> bit_at (br_bitmap br) i}"

definition br_wf :: "'t BitmapRange \<Rightarrow> bool" where
  "br_wf br \<longleftrightarrow> length (br_bitmap br) = NITEMS \<and> br_num_bits br \<le> NBITS \<and>
     (\<forall>i. br_num_bits br \<le> i \<longrightarrow> i < NBITS \<longrightarrow> \<not> bit_at (br_bitmap br) i)"

definition br_tight :: "'t BitmapRange \<Rightarrow> bool" where
  "br_tight br \<longleftrightarrow> (br_num_bits br \<noteq> 0 \<longrightarrow> bit_at (br_bitmap br) (br_num_bits br - 1))"

subsection \<open>Single bits\<close>

lemma NBITS_NITEMS [simp]: "NITEMS = 8" "NBITS = 256"
  by (simp_all add: NITEMS_def NBITS_def)

lemma bit_at_replicate: "i < 256 \<Longrightarrow> \<not> bit_at (replicate 8 0) i"
  by (simp add: bit_at_def)

lemma bit_at_update:
  "length bm = 8 \<Longrightarrow> p < 8 \<Longrightarrow> i < 256 \<Longrightarrow>
   bit_at (bm[p := w]) i = (if i div 32 = p then bit w (31 - i mod 32) else bit_at bm i)"
  by (auto simp: bit_at_def nth_list_update)

lemma bit_exp32 [simp]: "bit (2 ^ k :: u32) n \<longleftrightarrow> n = k \<and> n < 32"
  by (auto simp: bit_exp_iff)

lemma offset_split: "(i :: nat) = j \<longleftrightarrow> i div 32 = j div 32 \<and> 31 - i mod 32 = 31 - j mod 32"
proof -
  have "i mod 32 = j mod 32 \<longleftrightarrow> 31 - i mod 32 = 31 - j mod 32"
    using mod_less_divisor [of 32 i] mod_less_divisor [of 32 j] by linarith
  then show ?thesis by (metis div_mult_mod_eq)
qed

lemma bit_at_set:
  assumes "length bm = 8" "d < 256" "i < 256"
  shows "bit_at (bm[d div 32 := (bm ! (d div 32)) OR push_bit (31 - d mod 32) 1]) i \<longleftrightarrow> i = d \<or> bit_at bm i"
  using assms offset_split [of i d]
  by (subst bit_at_update) (auto simp: bit_or_iff bit_at_def)

lemma bit_at_clear:
  assumes "length bm = 8" "d < 256" "i < 256"
  shows "bit_at (bm[d div 32 := (bm ! (d div 32)) AND NOT (push_bit (31 - d mod 32) 1)]) i \<longleftrightarrow> i \<noteq> d \<and> bit_at bm i"
  using assms offset_split [of i d]
  by (subst bit_at_update) (auto simp: bit_simps bit_at_def)

lemma u32_eq_0_iff: "w = 0 \<longleftrightarrow> (\<forall>n<32. \<not> bit (w :: u32) n)"
proof
  assume "\<forall>n<32. \<not> bit w n"
  then show "w = 0" by (intro bit_word_eqI) simp
qed simp

lemma bit_at_test:
  "(bm ! (d div 32)) AND push_bit (31 - d mod 32) 1 \<noteq> 0 \<longleftrightarrow> bit_at bm d"
  unfolding bit_at_def
  by (auto simp: u32_eq_0_iff bit_and_iff)

lemma clz_props: assumes "w \<noteq> 0" shows "clz w < 32" "bit w (31 - clz w)" "\<And>k. k < clz w \<Longrightarrow> \<not> bit w (31 - k)"
proof -
  let ?P = "\<lambda>k. \<not> bit w (31 - k)"
  obtain n where n: "n < 32" "bit w n" using assms by (auto simp: u32_eq_0_iff)
  then have "31 - n \<in> set [0..<32]" "\<not> ?P (31 - n)" by auto
  then have lt: "length (takeWhile ?P [0..<32]) < length [0..<32::nat]" by (metis length_takeWhile_le nat_less_le takeWhile_eq_all_conv  takeWhile_eq_take take_all_iff order_refl)
  then show "clz w < 32" by (simp add: clz_def)
  show "bit w (31 - clz w)" using nth_length_takeWhile [OF lt] lt by (simp add: clz_def)
  fix k assume "k < clz w"
  then have "takeWhile ?P [0..<32] ! k = k" "k < length (takeWhile ?P [0..<32])"
    using lt by (simp_all add: takeWhile_nth clz_def)
  then have "k \<in> set (takeWhile ?P [0..<32])" by (metis nth_mem)
  then show "?P k" using set_takeWhileD by fast
qed

lemma clz_eqI: "k < 32 \<Longrightarrow> bit w (31 - k) \<Longrightarrow> (\<And>j. j < k \<Longrightarrow> \<not> bit w (31 - j)) \<Longrightarrow> clz w = k"
proof -
  assume k: "k < 32" "bit w (31 - k)" "\<And>j. j < k \<Longrightarrow> \<not> bit w (31 - j)"
  then have "w \<noteq> 0" by auto
  from clz_props [OF this] k show ?thesis by (meson linorder_neqE_nat)
qed
subsection \<open>The highest bit set\<close>

lemma low_bit_isolate: assumes "w \<noteq> (0::u32)"
  shows "\<exists>m<32. bit w m \<and> (\<forall>j<m. \<not> bit w j) \<and> w AND NOT (w - 1) = push_bit m 1"
proof -
  have "\<exists>m. m < 32 \<and> bit w m" using assms by (auto simp: u32_eq_0_iff)
  then obtain m where m: "m < 32" "bit w m" "\<forall>j<m. \<not> (j < 32 \<and> bit w j)"
    using exists_least_iff [of "\<lambda>m. m < 32 \<and> bit w m"] by auto
  then have lo: "\<forall>j<m. \<not> bit w j" by auto
  define k where "k = Suc m"
  then have k: "\<And>n. k \<le> n \<longleftrightarrow> m < n" by auto
  let ?a = "push_bit k (drop_bit k w)"
  have "?a AND 2 ^ m = 0" by (rule bit_word_eqI) (auto simp: bit_simps k)
  then have "?a + 2 ^ m = ?a OR 2 ^ m" by (rule disjunctive_add_eq_or)
  also have "\<dots> = w" using m lo
    by (intro bit_word_eqI) (auto simp: bit_simps k nat_neq_iff)
  finally have w: "?a + 2 ^ m = w" .
  have "?a AND mask m = 0" by (rule bit_word_eqI) (auto simp: bit_simps k)
  then have "?a + mask m = ?a OR mask m" by (rule disjunctive_add_eq_or)
  moreover have "w - 1 = ?a + mask m" using w by (simp add: mask_eq_exp_minus_1 algebra_simps)
  ultimately have w1: "w - 1 = ?a OR mask m" by simp
  have "w AND NOT (w - 1) = push_bit m 1"
    unfolding w1 using m lo by (intro bit_word_eqI) (auto simp: bit_simps k nat_neq_iff)
  then show ?thesis using m lo by blast
qed

lemma calc_max_spec:
  assumes "length bm = 8" "start \<le> 8"
  shows "let r = calc_maximum_bit_set bm start mn in
     (r \<noteq> 0 \<longrightarrow> bit_at bm (r - 1) \<and> r \<le> 32 * start) \<and> 
     (\<forall>i. r \<le> i \<longrightarrow> 32 * mn \<le> i \<longrightarrow> i < 32 * start \<longrightarrow> \<not> bit_at bm i)"
  using assms
proof (induction start)
  case (Suc s)
  show ?case
  proof (cases "mn < Suc s \<and> bm ! s \<noteq> 0")
    case True
    then obtain m where m: "m < 32" "bit (bm ! s) m" "\<forall>j<m. \<not> bit (bm ! s) j" "bm ! s AND NOT (bm ! s - 1) = push_bit m 1"
      using low_bit_isolate by blast
    have "clz (push_bit m 1) = 31 - m" using m by (intro clz_eqI) (auto simp: bit_exp32)
    then have r: "calc_maximum_bit_set bm (Suc s) mn = s * 32 + (31 - m + 1)" using True m(4) by (simp del: push_bit_of_1)
    define c where "c = 31 - m"
    have c: "c < 32" "31 - c = m" using m(1) by (auto simp: c_def)
    have "(s * 32 + c) div 32 = s" "(s * 32 + c) mod 32 = c" using c(1) by simp_all
    then have "bit_at bm (s * 32 + c)" using m(2) c(2) by (simp add: bit_at_def)
    moreover have "\<not> bit_at bm i" if "s * 32 + (31 - m + 1) \<le> i" "i < 32 * Suc s" for i
    proof -
      have "i div 32 = s" using that by (simp add: div_nat_eqI)
      moreover have "i = 32 * (i div 32) + i mod 32" "i mod 32 < 32" by simp_all
      ultimately have "i div 32 = s" "31 - i mod 32 < m" using that m(1) by linarith+
      then show ?thesis using m(3) by (simp add: bit_at_def)
    qed
    ultimately show ?thesis using r m(1) by (simp add: Let_def c_def)
  next
    case False
    show ?thesis
    proof (cases "mn < Suc s")
      case True
      with False have z: "bm ! s = 0" by simp
      have "\<not> bit_at bm i" if "32 * s \<le> i" "i < 32 * Suc s" for i
      proof -
        have "i div 32 = s" using that by (simp add: div_nat_eqI)
        then show ?thesis using z by (simp add: bit_at_def)
      qed
      then show ?thesis using Suc z True by (auto simp: Let_def not_less)
    qed auto
  qed
qed simp

subsection \<open>Shifting the window\<close>

lemma shift_left_loop_length: "length (shift_left_loop i n r bm) = length bm"
  by (induction i n r bm rule: shift_left_loop.induct) (simp add: shift_left_loop.simps)

lemma shift_left_loop_nth:
  "\<lbrakk>length bm = 8; i \<le> n; j < 8\<rbrakk> \<Longrightarrow> shift_left_loop i n r bm ! j =
     (if i \<le> j \<and> j + (n - i) < 7 then push_bit r (bm ! (j + (n - i))) OR drop_bit (32 - r) (bm ! Suc (j + (n - i))) else bm ! j)"
proof (induction i n r bm rule: shift_left_loop.induct)
  case (1 i n r bm)
  show ?case
  proof (cases "n < 7")
    case True
    have "n - i = Suc n - Suc i" by simp
    let ?bm = "bm[i := push_bit r (bm ! n) OR drop_bit (32 - r) (bm ! Suc n)]"
    have "shift_left_loop i n r bm ! j = shift_left_loop (Suc i) (Suc n) r ?bm ! j"
      using True by (subst shift_left_loop.simps) simp
    also have "\<dots> = (if Suc i \<le> j \<and> j + (n - i) < 7 then push_bit r (?bm ! (j + (n - i))) OR drop_bit (32 - r) (?bm ! Suc (j + (n - i))) else ?bm ! j)"
      using "1.IH" True "1.prems" by simp
    also have "\<dots> = (if i \<le> j \<and> j + (n - i) < 7 then push_bit r (bm ! (j + (n - i))) OR drop_bit (32 - r) (bm ! Suc (j + (n - i))) else bm ! j)"
      using "1.prems" True by (cases "j = i") (auto simp: nth_list_update)
    finally show ?thesis .
  next
    case False
    then show ?thesis using "1.prems" by (subst shift_left_loop.simps) auto
  qed
qed

lemma bit_shl_word:
  assumes "r < 32" "0 < r" "c < 32" 
  shows "bit (push_bit r u OR drop_bit (32 - r) v :: u32) (31 - c) =
    (if c + r < 32 then bit u (31 - (c + r)) else bit v (31 - (c + r - 32)))"
proof (cases "c + r < 32")
  case True
  then have "\<not> bit v (32 - r + (31 - c))" by (intro notI) (drule bit_imp_le_length, simp)
  moreover have "31 - c - r = 31 - (c + r)" by simp
  ultimately show ?thesis using True by (auto simp: bit_or_iff bit_push_bit_iff bit_drop_bit_eq)
next
  case False
  then have "32 - r + (31 - c) = 31 - (c + r - 32)" using False assms by linarith
  with False assms show ?thesis by (auto simp: bit_or_iff bit_push_bit_iff bit_drop_bit_eq)
qed

lemma div_mod_32: obtains q r where "n = 32 * q + r" "r < (32::nat)" "n div 32 = q" "n mod 32 = r"
  by (rule that [of "n div 32" "n mod 32"]) simp_all

lemma shift_map_left_word:
  assumes "length (br_bitmap br) = 8" "n < br_num_bits br" "br_num_bits br \<le> 256" "j < 8"
  shows "br_bitmap (shift_map_left n br) ! j = 
    (let q = n div 32; r = n mod 32; bm = br_bitmap br in
     if 8 \<le> j + q then 0 else if r = 0 then bm ! (j + q)
     else push_bit r (bm ! (j + q)) OR drop_bit (32 - r) (if j + q < 7 then bm ! Suc (j + q) else 0))"
proof -
  define q r where "q = n div 32" and "r = n mod 32"
  let ?bm = "br_bitmap br" and ?b1 = "shift_left_loop 0 q r (br_bitmap br)"
  have q: "q < 8" using assms by (simp add: q_def)
  have b1: "?b1 ! x = (if x + q < 7 then push_bit r (?bm ! (x + q)) OR drop_bit (32 - r) (?bm ! Suc (x + q)) else ?bm ! x)" if "x < 8" for x
    using shift_left_loop_nth [of ?bm 0 q x r] that assms(1) by simp
  show ?thesis
  proof (cases "r = 0")
    case True
    have bm': "br_bitmap (shift_map_left n br) = take (8 - q) (drop q ?bm @ drop (8 - q) ?bm) @ replicate q 0"
      using True assms(2) by (simp add: shift_map_left_def Let_def q_def r_def)
    show ?thesis
    proof (cases "8 \<le> j + q")
      case True
      then show ?thesis using q assms(1,4)
        by (simp add: bm' nth_append Let_def less_diff_conv flip: q_def r_def)
    next
      case False
      then show ?thesis using \<open>r = 0\<close> assms(1)
        by (simp add: bm' nth_append Let_def less_diff_conv add.commute flip: q_def r_def)
    qed
  next
    case False
    have bm': "br_bitmap (shift_map_left n br) = take (8 - q) (?b1[7 - q := push_bit r (?b1 ! 7)]) @ replicate q 0"
      using False assms(2) by (simp add: shift_map_left_def Let_def q_def r_def)
    have len: "length ?b1 = 8" using assms(1) by (simp add: shift_left_loop_length)
    consider "j + q < 7" | "j + q = 7" | "8 \<le> j + q" by linarith
    then show ?thesis
    proof cases
      case 1
      then show ?thesis using False q b1 [of j]
        by (simp add: bm' len nth_append Let_def less_diff_conv flip: q_def r_def)
    next
      case 2
      then have "j = 7 - q" by simp
      then show ?thesis using False q b1 [of 7] 2
        by (simp add: bm' len nth_append Let_def less_diff_conv flip: q_def r_def)
    next
      case 3
      then show ?thesis using q assms(4)
        by (simp add: bm' len nth_append Let_def less_diff_conv flip: q_def r_def)
    qed
  qed
qed

lemma div_mod_32_unique: "n = 32 * q + r \<Longrightarrow> r < (32::nat) \<Longrightarrow> n div 32 = q \<and> n mod 32 = r"
  by simp

lemma shift_map_left_bits:
  assumes "length (br_bitmap br) = 8" "n < br_num_bits br" "br_num_bits br \<le> 256" "k < 256"
  shows "bit_at (br_bitmap (shift_map_left n br)) k \<longleftrightarrow> k + n < 256 \<and> bit_at (br_bitmap br) (k + n)"
proof -
  obtain q r where n: "n = 32 * q + r" "r < 32" "n div 32 = q" "n mod 32 = r" by (rule div_mod_32)
  obtain j c where k: "k = 32 * j + c" "c < 32" "k div 32 = j" "k mod 32 = c" by (rule div_mod_32)
  have j: "j < 8" using k(1) assms(4) by simp
  note w = shift_map_left_word [OF assms(1-3) j, unfolded n(3,4) Let_def]
  have lt: "k + n < 256 \<longleftrightarrow> j + q + (if c + r < 32 then 0 else 1) < 8" using n k by auto
  have kn: "(k + n) div 32 = j + q + (if c + r < 32 then 0 else 1)"
     "(k + n) mod 32 = (if c + r < 32 then c + r else c + r - 32)"
    using n(1,2) k(1,2) div_mod_32_unique [of "k + n" "j + q" "c + r"] div_mod_32_unique [of "k + n" "j + q + 1" "c + r - 32"]
    by (simp_all split: if_split)
  show ?thesis
  proof (cases "c + r < 32")
    case True
    then have "bit (br_bitmap (shift_map_left n br) ! j) (31 - c) \<longleftrightarrow> j + q < 8 \<and> bit (br_bitmap br ! (j + q)) (31 - (c + r))"
      using n(2) k(2) bit_shl_word [of r c] unfolding w by (cases "r = 0") (simp_all add: not_le)
    then show ?thesis using True unfolding bit_at_def k(3,4) lt kn by simp
  next
    case False
    then have r: "0 < r" using k(2) by simp
    have "bit (br_bitmap (shift_map_left n br) ! j) (31 - c) \<longleftrightarrow> j + q < 7 \<and> bit (br_bitmap br ! Suc (j + q)) (31 - (c + r - 32))"
      using n(2) k(2) r False bit_shl_word [of r c] unfolding w by simp
    then show ?thesis using False unfolding bit_at_def k(3,4) lt kn by simp
  qed
qed

lemma shift_right_loop_length: "length (shift_right_loop i n r bm) = length bm"
  by (induction i n r bm rule: shift_right_loop.induct) simp_all

lemma shift_right_loop_nth:
  "\<lbrakk>length bm = 8; n \<le> i; i < 8; j < 8\<rbrakk> \<Longrightarrow> shift_right_loop i n r bm ! j =
     (if j \<le> i \<and> i - n < j then drop_bit r (bm ! (j - (i - n))) OR push_bit (32 - r) (bm ! (j - (i - n) - 1)) else bm ! j)"
proof (induction i n r bm rule: shift_right_loop.induct)
  case (2 i n r bm)
  let ?bm = "bm[i := drop_bit r (bm ! Suc n) OR push_bit (32 - r) (bm ! n)]"
  have d: "i - 1 - n = i - Suc n" by simp
  have "shift_right_loop i (Suc n) r bm ! j = shift_right_loop (i - 1) n r ?bm ! j" by simp
  also have "\<dots> = (if j \<le> i - 1 \<and> i - Suc n < j then drop_bit r (?bm ! (j - (i - Suc n))) OR push_bit (32 - r) (?bm ! (j - (i - Suc n) - 1)) else ?bm ! j)"
    using "2.IH" "2.prems" unfolding d by simp
  also have "\<dots> = (if j \<le> i \<and> i - Suc n < j then drop_bit r (bm ! (j - (i - Suc n))) OR push_bit (32 - r) (bm ! (j - (i - Suc n) - 1)) else bm ! j)"
    using "2.prems" by (cases "j = i") (auto simp: nth_list_update)
  finally show ?case .
qed auto

lemma bit_shr_word:
  assumes "r < 32" "0 < r" "c < 32" 
  shows "bit (drop_bit r u OR push_bit (32 - r) v :: u32) (31 - c) =
    (if r \<le> c then bit u (31 - (c - r)) else bit v (31 - (c + 32 - r)))"
proof (cases "r \<le> c")
  case True
  then have "r + (31 - c) = 31 - (c - r)" using assms by linarith
  with True assms show ?thesis by (auto simp: bit_or_iff bit_push_bit_iff bit_drop_bit_eq)
next
  case False
  then have "\<not> bit u (r + (31 - c))" using assms by (intro notI) (drule bit_imp_le_length, simp)
  moreover have "31 - c - (32 - r) = 31 - (c + 32 - r)" "32 - r \<le> 31 - c" using False assms by linarith+
  ultimately show ?thesis using False assms by (auto simp: bit_or_iff bit_push_bit_iff bit_drop_bit_eq)
qed

lemma shift_map_right_word:
  assumes "length (br_bitmap br) = 8" "n < 256" "j < 8"
  shows "br_bitmap (shift_map_right n br) ! j = 
    (let q = n div 32; r = n mod 32; bm = br_bitmap br in
     if j < q then 0 else if r = 0 then bm ! (j - q)
     else drop_bit r (bm ! (j - q)) OR push_bit (32 - r) (if q < j then bm ! (j - q - 1) else 0))"
proof -
  define q r where "q = n div 32" and "r = n mod 32"
  let ?bm = "br_bitmap br" and ?b1 = "shift_right_loop 7 (7 - q) r (br_bitmap br)"
  have q: "q < 8" using assms by (simp add: q_def)
  then have qq: "7 - (7 - q) = q" by simp
  have b1: "?b1 ! x = (if q < x then drop_bit r (?bm ! (x - q)) OR push_bit (32 - r) (?bm ! (x - q - 1)) else ?bm ! x)" if "x < 8" for x
    using shift_right_loop_nth [of ?bm "7 - q" 7 x r] that assms(1) qq by simp
  show ?thesis
  proof (cases "r = 0")
    case True
    have bm': "br_bitmap (shift_map_right n br) = replicate q 0 @ drop q (take q ?bm @ take (8 - q) ?bm)"
      using True assms(2) by (simp add: shift_map_right_def Let_def q_def r_def)
    show ?thesis
      using True q assms(1,3) by (simp add: bm' nth_append Let_def less_diff_conv flip: q_def r_def)
  next
    case False
    have bm': "br_bitmap (shift_map_right n br) = replicate q 0 @ drop q (?b1[q := drop_bit r (?b1 ! 0)])"
      using False assms(2) by (simp add: shift_map_right_def Let_def q_def r_def)
    have len: "length ?b1 = 8" using assms(1) by (simp add: shift_right_loop_length)
    consider "j < q" | "j = q" | "q < j" by linarith
    then show ?thesis
    proof cases
      case 1
      then show ?thesis by (simp add: bm' nth_append Let_def flip: q_def r_def)
    next
      case 2
      then show ?thesis using False q b1 [of 0] by (simp add: bm' len nth_append Let_def flip: q_def r_def)
    next
      case 3
      then show ?thesis using False q b1 [of j] assms(3) by (simp add: bm' len nth_append Let_def flip: q_def r_def)
    qed
  qed
qed

lemma shift_map_right_bits:
  assumes "length (br_bitmap br) = 8" "n < 256" "k < 256"
  shows "bit_at (br_bitmap (shift_map_right n br)) k \<longleftrightarrow> n \<le> k \<and> bit_at (br_bitmap br) (k - n)"
proof -
  obtain q r where n: "n = 32 * q + r" "r < 32" "n div 32 = q" "n mod 32 = r" by (rule div_mod_32)
  obtain j c where k: "k = 32 * j + c" "c < 32" "k div 32 = j" "k mod 32 = c" by (rule div_mod_32)
  have j: "j < 8" using k(1) assms(3) by simp
  note w = shift_map_right_word [OF assms(1,2) j, unfolded n(3,4) Let_def]
  show ?thesis
  proof (cases "r \<le> c")
    case True
    then have *: "bit (br_bitmap (shift_map_right n br) ! j) (31 - c) \<longleftrightarrow> q \<le> j \<and> bit (br_bitmap br ! (j - q)) (31 - (c - r))"
      using n(2) k(2) bit_shr_word [of r c] unfolding w by (cases "r = 0") (simp_all add: not_le)
    have "n \<le> k \<longleftrightarrow> q \<le> j" using n(1,2) k(1,2) True by linarith
    moreover have "(k - n) div 32 = j - q \<and> (k - n) mod 32 = c - r" if "q \<le> j"
      using that True n(1,2) k(1,2) by (intro div_mod_32_unique) (auto simp: diff_mult_distrib2)
    ultimately show ?thesis using * unfolding bit_at_def k(3,4) by auto
  next
    case False
    then have *: "bit (br_bitmap (shift_map_right n br) ! j) (31 - c) \<longleftrightarrow> q < j \<and> bit (br_bitmap br ! (j - q - 1)) (31 - (c + 32 - r))"
      using n(2) k(2) bit_shr_word [of r c] unfolding w by (simp add: not_le)
    have "n \<le> k \<longleftrightarrow> q < j" using n(1,2) k(1,2) False by linarith
    moreover have "(k - n) div 32 = j - q - 1 \<and> (k - n) mod 32 = c + 32 - r" if "q < j"
      using that False n(1,2) k(1,2) by (intro div_mod_32_unique) (auto simp: diff_mult_distrib2)
    ultimately show ?thesis using * unfolding bit_at_def k(3,4) by auto
  qed
qed

subsection \<open>Filling a range\<close>

lemma add_range_loop_length: "length (add_range_loop bm pos n msk b) = length bm"
  by (induction bm pos n msk b rule: add_range_loop.induct) (simp add: add_range_loop.simps)

lemma add_range_loop_bits:
  "\<lbrakk>length bm = 8; d < 32; b = 32 - d; msk = drop_bit d (NOT 0); 32 * pos + d + n \<le> 256; i < 256\<rbrakk> \<Longrightarrow>
   bit_at (add_range_loop bm pos n msk b) i \<longleftrightarrow>
     bit_at bm i \<or> 32 * pos + d \<le> i \<and> i < 32 * pos + d + n"
proof (induction bm pos n msk b arbitrary: d rule: add_range_loop.induct)
  case (1 bm pos n msk b)
  obtain j c where i: "i = 32 * j + c" "c < 32" "i div 32 = j" "i mod 32 = c" by (rule div_mod_32)
  have mask_bit: "bit msk (31 - c) \<longleftrightarrow> d \<le> c"
    using "1.prems"(2,4) i(2) by (auto simp: bit_simps)
  have upd: "bit_at (bm[pos := w]) i \<longleftrightarrow> (if j = pos then bit w (31 - c) else bit_at bm i)" if "pos < 8" for w
    using bit_at_update [OF "1.prems"(1) that "1.prems"(6)] i by simp
  have at: "bit_at bm i \<longleftrightarrow> bit (bm ! j) (31 - c)" using i by (simp add: bit_at_def)
  show ?case
  proof (cases "b \<le> n")
    case True
    have pos: "pos < 8" using "1.prems" True by linarith
    let ?bm = "bm[pos := bm ! pos OR msk]"
    have "bit_at (add_range_loop bm pos n msk b) i \<longleftrightarrow> bit_at (add_range_loop ?bm (Suc pos) (n - b) (NOT 0) 32) i"
      using True "1.prems"(2,3) by (subst add_range_loop.simps) simp
    also have "\<dots> \<longleftrightarrow> bit_at ?bm i \<or> 32 * Suc pos \<le> i \<and> i < 32 * Suc pos + (n - b)"
      using "1.IH" [of 0] True "1.prems" by simp
    also have "bit_at ?bm i \<longleftrightarrow> bit_at bm i \<or> 32 * pos + d \<le> i \<and> i < 32 * Suc pos"
    proof -
      have "j = pos \<and> d \<le> c \<longleftrightarrow> 32 * pos + d \<le> i \<and> i < 32 * Suc pos"
        using i(1,2) by (cases "j = pos") auto
      then show ?thesis using mask_bit upd [OF pos] at by (auto simp: bit_or_iff)
    qed
    finally show ?thesis using "1.prems"(2,3) True by auto
  next
    case False
    show ?thesis
    proof (cases "n = 0")
      case True
      then show ?thesis using False by (subst add_range_loop.simps) auto
    next
      case n: False
      have pos: "pos < 8" using "1.prems" n by linarith
      have "bit (push_bit (b - n) (NOT 0) :: u32) (31 - c) \<longleftrightarrow> c < d + n"
        using "1.prems"(2,3) i(2) False by (auto simp: bit_simps)
      then have m: "bit (msk AND push_bit (b - n) (NOT 0)) (31 - c) \<longleftrightarrow> d \<le> c \<and> c < d + n"
        using mask_bit by (simp add: bit_and_iff)
      have "j = pos \<and> d \<le> c \<and> c < d + n \<longleftrightarrow> 32 * pos + d \<le> i \<and> i < 32 * pos + d + n"
        using i(1,2) False "1.prems"(2,3) by (cases "j = pos") auto
      moreover have "add_range_loop bm pos n msk b = bm[pos := bm ! pos OR (msk AND push_bit (b - n) (NOT 0))]"
        using n False by (subst add_range_loop.simps) simp
      ultimately show ?thesis using m upd [OF pos] at by (auto simp only: bit_or_iff split: if_splits)
    qed
  qed
qed
subsection \<open>Enumeration\<close>

lemma for_each_word_filter:
  "card {k. k < 32 \<and> bit bits k} \<le> fuel \<Longrightarrow>
   for_each_word fuel ops item bits = map (item_add ops item) (filter (\<lambda>k. bit bits (31 - k)) [0..<32])"
proof (induction fuel arbitrary: bits)
  case 0
  then have "{k. k < 32 \<and> bit bits k} = {}" by simp
  then have "bits = 0" by (simp add: u32_eq_0_iff)
  then show ?case by simp
next
  case (Suc fuel)
  show ?case
  proof (cases "bits = 0")
    case False
    let ?c = "clz bits"
    define bits' where "bits' = bits AND NOT (push_bit (31 - clz bits) 1)"
    note c = clz_props [OF False]
    have b: "bit bits' k \<longleftrightarrow> bit bits k \<and> k \<noteq> 31 - ?c" for k
      using bit_imp_le_length [of bits k] c(1) by (auto simp: bits'_def bit_simps)
    have "{k. k < 32 \<and> bit bits' k} = {k. k < 32 \<and> bit bits k} - {31 - ?c}" using b by auto
    moreover have "31 - ?c \<in> {k. k < 32 \<and> bit bits k}" using c by simp
    ultimately have "card {k. k < 32 \<and> bit bits' k} \<le> fuel" using Suc.prems by simp
    note IH = Suc.IH [OF this]
    have split: "[0..<32] = [0..<?c] @ ?c # [Suc ?c..<32]"
      using c(1) upt_add_eq_append [of 0 ?c "32 - ?c"] by (simp add: upt_conv_Cons)
    have none: "filter (\<lambda>k. bit bits (31 - k)) [0..<?c] = []" using c(3) by (auto simp: filter_empty_conv)
    have "filter (\<lambda>k. bit bits' (31 - k)) [0..<?c] = []" using c(3) b by (simp add: filter_empty_conv)
    moreover have "filter (\<lambda>k. bit bits' (31 - k)) [Suc ?c..<32] = filter (\<lambda>k. bit bits (31 - k)) [Suc ?c..<32]"
      using c(1) by (intro filter_cong) (auto simp: b)
    ultimately have "filter (\<lambda>k. bit bits (31 - k)) [0..<32] = ?c # filter (\<lambda>k. bit bits' (31 - k)) [0..<32]"
      using none c(2) b unfolding split by simp
    with False IH show ?thesis by (simp add: bits'_def)
  qed simp
qed

lemma for_each_word_32: "for_each_word 32 ops item bits = map (item_add ops item) (filter (\<lambda>k. bit bits (31 - k)) [0..<32])"
proof (rule for_each_word_filter)
  have "card {k. k < 32 \<and> bit bits k} \<le> card {..<32::nat}" by (rule card_mono) auto
  then show "card {k. k < 32 \<and> bit bits k} \<le> 32" by simp
qed

end
