(* ===== verification/BitmapLaws.thy ===== *)
theory BitmapLaws
  imports BitmapRange
begin

unbundle bit_operations_syntax

text \<open>
  The laws of \<open>BitmapRange\<close> (\<open>include/fastdds/utils/fixed_size_bitmap.hpp\<close>). \<open>br_items\<close> is the set
  of items a window holds. The locale \<open>bitmap_items\<close> states what the template asks of its
  parameters \<open>T\<close> and \<open>Diff\<close> (\<open>fits\<close>: the 256 items from a base do not overflow; \<open>near\<close>: the
  distance is representable in \<open>Diff\<close>'s \<open>uint32_t\<close>) and proves the effect of every operation on
  \<open>br_items\<close> once; it is interpreted on the three instances of the library:
  \<open>SequenceNumber_t\<close> with \<open>SequenceNumberDiff\<close> (\<open>st\<close>), the integers it stands for (\<open>sn\<close>, used
  by the protocol components) and \<open>FragmentNumber_t\<close> with the default functor (\<open>fn\<close>).
\<close>

definition br_offset_list :: "'t BitmapRange \<Rightarrow> nat list" where
  "br_offset_list br = filter (bit_at (br_bitmap br)) [0..<br_num_bits br]"

definition br_items :: "'t item_ops \<Rightarrow> 't BitmapRange \<Rightarrow> 't set" where
  "br_items ops br = item_add ops (br_base br) ` br_offsets br"

definition br_full :: "'t item_ops \<Rightarrow> 't BitmapRange \<Rightarrow> bool" where
  "br_full ops br \<longleftrightarrow> br_range_max br = item_add ops (br_base br) (NBITS - 1)"

definition sn_items :: "SequenceNumber_t item_ops" where
  "sn_items = \<lparr>item_default = sn_init, item_add = (\<lambda>b n. sn_add_u32 b (of_nat n)),
     item_diff = (\<lambda>a b. unat (SequenceNumberDiff a b))\<rparr>"

definition int_items :: "int item_ops" where
  "int_items = \<lparr>item_default = 0, item_add = (\<lambda>b n. b + int n), item_diff = (\<lambda>a b. nat ((a - b) mod 4294967296))\<rparr>"

definition u32_items :: "u32 item_ops" where
  "u32_items = \<lparr>item_default = 0, item_add = (\<lambda>b n. b + of_nat n), item_diff = (\<lambda>a b. unat (a - b))\<rparr>"

lemma set_br_offset_list: "set (br_offset_list br) = br_offsets br"
  by (auto simp: br_offset_list_def br_offsets_def)

lemma sorted_br_offset_list: "sorted_wrt (<) (br_offset_list br)"
  unfolding br_offset_list_def by (intro sorted_wrt_filter) simp

lemma br_min_loop_for_each:
  "br_min_loop ops item ws = (case for_each_words ops item ws of [] \<Rightarrow> None | x # _ \<Rightarrow> Some x)"
proof (induction ws arbitrary: item)
  case (Cons w ws)
  have "for_each_word 32 ops item w = item_add ops item (clz w) # for_each_word 31 ops item (w AND NOT (push_bit (31 - clz w) 1))" if "w \<noteq> 0"
    using that by (simp add: eval_nat_numeral)
  moreover have "for_each_word 32 ops item 0 = []" by (simp add: eval_nat_numeral)
  ultimately show ?case using Cons.IH by (cases "w = 0") auto
qed simp

lemma bit_at_Cons: "bit_at (w # ws) (32 + i) = bit_at ws i" "i < 32 \<Longrightarrow> bit_at (w # ws) i = bit w (31 - i)"
proof -
  have "(32 + i) div 32 = Suc (i div 32)" by simp
  then show "bit_at (w # ws) (32 + i) = bit_at ws i" by (simp only: bit_at_def nth_Cons_Suc mod_add_self1)
qed (simp add: bit_at_def)

lemma upt_32_shift: "[0..<32 + n] = [0..<32] @ map ((+) 32) [0..<n]"
  by (rule nth_equalityI) (auto simp: nth_append simp del: upt_Suc)

locale bitmap_items =
  fixes ops :: "'t::linorder item_ops" and fits :: "'t \<Rightarrow> bool" and near :: "'t \<Rightarrow> 't \<Rightarrow> bool"
  assumes add_0: "item_add ops b 0 = b"
    and add_add: "m + n < 4294967296 \<Longrightarrow> item_add ops (item_add ops b m) n = item_add ops b (m + n)"
    and add_mono: "fits b \<Longrightarrow> m \<le> 256 \<Longrightarrow> n \<le> 256 \<Longrightarrow> item_add ops b m \<le> item_add ops b n \<longleftrightarrow> m \<le> n"
    and diff_add: "fits b \<Longrightarrow> m \<le> n \<Longrightarrow> n \<le> 256 \<Longrightarrow>
          item_diff ops (item_add ops b n) (item_add ops b m) = n - m"
    and in_window: "fits b \<Longrightarrow> b \<le> x \<Longrightarrow> x \<le> item_add ops b 256 \<Longrightarrow> \<exists>n\<le>256. x = item_add ops b n"
    and diff_far: "fits b \<Longrightarrow> near b x \<Longrightarrow> item_add ops b 256 \<le> x \<Longrightarrow> 256 \<le> item_diff ops x b"
begin

lemma add_inj: "fits b \<Longrightarrow> m \<le> 256 \<Longrightarrow> n \<le> 256 \<Longrightarrow> item_add ops b m = item_add ops b n \<longleftrightarrow> m = n"
  using add_mono [of b m n] add_mono [of b n m] by (metis order_antisym order_refl)

lemma add_less: "fits b \<Longrightarrow> m \<le> 256 \<Longrightarrow> n \<le> 256 \<Longrightarrow> item_add ops b m < item_add ops b n \<longleftrightarrow> m < n"
  using add_mono [of b n m] by (simp add: not_le [symmetric])

lemma base_le: "fits b \<Longrightarrow> n \<le> 256 \<Longrightarrow> b \<le> item_add ops b n"
  using add_mono [of b 0 n] by (simp add: add_0)

lemma diff_base: "fits b \<Longrightarrow> n \<le> 256 \<Longrightarrow> item_diff ops (item_add ops b n) b = n"
  using diff_add [of b 0 n] by (simp add: add_0)

lemma for_each_words_map: "32 * length ws < 4294967296 \<Longrightarrow> 
  for_each_words ops item ws = map (item_add ops item) (filter (bit_at ws) [0..<32 * length ws])"
proof (induction ws arbitrary: item)
  case (Cons w ws)
  have "filter (bit_at (w # ws)) [0..<32 * length (w # ws)] =
    filter (\<lambda>i. bit w (31 - i)) [0..<32] @ map ((+) 32) (filter (bit_at ws) [0..<32 * length ws])"
    unfolding upt_32_shift mult_Suc_right list.size(4) add_Suc_right add_0_right filter_append
    by (auto simp: bit_at_Cons filter_map o_def intro: filter_cong)
  moreover have "map (item_add ops (item_add ops item 32)) (filter (bit_at ws) [0..<32 * length ws]) =
     map (item_add ops item) (map ((+) 32) (filter (bit_at ws) [0..<32 * length ws]))"
    using Cons.prems by (auto intro!: add_add)
  ultimately show ?case using Cons by (simp add: for_each_word_32)
qed simp

lemma for_each_offsets: assumes "br_wf br" shows "br_for_each ops br = map (item_add ops (br_base br)) (br_offset_list br)"
proof -
  let ?n = "br_num_bits br" and ?bm = "br_bitmap br"
  define m where "m = (?n + 31) div 32"
  have n: "?n \<le> 256" "length ?bm = 8" using assms by (auto simp: br_wf_def)
  have m: "m \<le> 8" "?n \<le> 32 * m" using n by (auto simp: m_def)
  have split: "[0..<32 * m] = [0..<?n] @ [?n..<32 * m]" using m(2) upt_add_eq_append [of 0 ?n "32 * m - ?n"] by simp
  have "filter (bit_at (take m ?bm)) [0..<32 * m] = filter (bit_at ?bm) [0..<32 * m]"
    using m n by (intro filter_cong) (auto simp: bit_at_def)
  also have "\<dots> = br_offset_list br"
    using assms m n unfolding split by (auto simp: br_offset_list_def br_wf_def filter_empty_conv)
  finally show ?thesis
    using m n for_each_words_map [of "take m ?bm" "br_base br"] by (simp add: br_for_each_def flip: m_def)
qed

end

lemma br_wf_bit: "br_wf br \<Longrightarrow> i < 256 \<Longrightarrow> bit_at (br_bitmap br) i \<longleftrightarrow> i \<in> br_offsets br"
  by (auto simp: br_wf_def br_offsets_def not_le)

lemma br_offsets_256: "br_wf br \<Longrightarrow> i \<in> br_offsets br \<Longrightarrow> i < 256"
  by (auto simp: br_wf_def br_offsets_def)

lemma br_tight_alt: "br_wf br \<Longrightarrow> br_tight br \<longleftrightarrow> br_num_bits br = (if br_offsets br = {} then 0 else Suc (Max (br_offsets br)))"
proof -
  assume wf: "br_wf br"
  have fin: "finite (br_offsets br)" by (simp add: br_offsets_def)
  show ?thesis
  proof (cases "br_offsets br = {}")
    case True
    then show ?thesis by (auto simp: br_tight_def br_offsets_def)
  next
    case False
    have le: "Suc (Max (br_offsets br)) \<le> br_num_bits br" using Max_in [OF fin False] by (auto simp: br_offsets_def)
    have "br_tight br \<longleftrightarrow> br_num_bits br - 1 \<in> br_offsets br" using le by (auto simp: br_tight_def br_offsets_def)
    also have "\<dots> \<longleftrightarrow> br_num_bits br = Suc (Max (br_offsets br))" using le Max_in [OF fin False] Max_ge [OF fin, of "br_num_bits br - 1"] by auto
    finally show ?thesis using False by simp
  qed
qed

lemma br_offsetsI:
  assumes "length (br_bitmap br) = 8" "br_num_bits br \<le> 256"
    "\<And>i. i < 256 \<Longrightarrow> bit_at (br_bitmap br) i \<longleftrightarrow> i \<in> S" "\<And>i. i \<in> S \<Longrightarrow> i < br_num_bits br"
  shows "br_wf br" "br_offsets br = S"
proof -
  show "br_wf br" unfolding br_wf_def using assms by (metis NBITS_NITEMS not_le)
  show "br_offsets br = S" unfolding br_offsets_def using assms by (auto dest: order.strict_trans2)
qed

lemma br_set_bit:
  assumes "br_wf br" "d < 256"
  defines "br' \<equiv> br\<lparr>br_num_bits := max (d + 1) (br_num_bits br),
     br_bitmap := (br_bitmap br)[d div 32 := (br_bitmap br ! (d div 32)) OR push_bit (31 - d mod 32) 1]\<rparr>"
  shows "br_wf br'" "br_offsets br' = insert d (br_offsets br)" "br_tight br \<Longrightarrow> br_tight br'"
proof -
  have len: "length (br_bitmap br) = 8" "br_num_bits br \<le> 256" using assms by (auto simp: br_wf_def)
  have "bit_at (br_bitmap br') i \<longleftrightarrow> i \<in> insert d (br_offsets br)" if "i < 256" for i
    using bit_at_set [OF len(1) assms(2) that] br_wf_bit [OF assms(1) that] unfolding br'_def by simp
  moreover have "i < br_num_bits br'" if "i \<in> insert d (br_offsets br)" for i
    using that by (auto simp: br'_def br_offsets_def)
  ultimately show wf: "br_wf br'" and o: "br_offsets br' = insert d (br_offsets br)"
    using br_offsetsI [of br' "insert d (br_offsets br)"] len assms(2) by (simp_all add: br'_def)
  assume t: "br_tight br"
  have "br_num_bits br' - 1 \<in> br_offsets br'"
    unfolding o using t by (auto simp: br'_def br_tight_def br_offsets_def max_def)
  then show "br_tight br'" by (auto simp: br_tight_def br_offsets_def)
qed

lemma br_set_range:
  assumes "br_wf br" "0 < n" "d + n \<le> 256"
  defines "br' \<equiv> br\<lparr>br_num_bits := max (br_num_bits br) (d + n),
     br_bitmap := add_range_loop (br_bitmap br) (d div 32) n (drop_bit (d mod 32) (NOT 0)) (32 - d mod 32)\<rparr>"
  shows "br_wf br'" "br_offsets br' = br_offsets br \<union> {d..<d + n}" "br_tight br \<Longrightarrow> br_tight br'"
proof -
  have len: "length (br_bitmap br) = 8" "br_num_bits br \<le> 256" using assms by (auto simp: br_wf_def)
  have d: "32 * (d div 32) + d mod 32 = d" by simp
  have "bit_at (br_bitmap br') i \<longleftrightarrow> i \<in> br_offsets br \<union> {d..<d + n}" if "i < 256" for i
    using add_range_loop_bits [OF len(1), of "d mod 32" "32 - d mod 32" _ "d div 32" n i] that assms(3) br_wf_bit [OF assms(1) that] 
    unfolding d by (simp add: br'_def)
  moreover have "i < br_num_bits br'" if "i \<in> br_offsets br \<union> {d..<d + n}" for i
    using that by (auto simp: br'_def br_offsets_def)
  ultimately show wf: "br_wf br'" and o: "br_offsets br' = br_offsets br \<union> {d..<d + n}"
    using br_offsetsI [of br' "br_offsets br \<union> {d..<d + n}"] len assms(3) by (simp_all add: br'_def add_range_loop_length)
  assume t: "br_tight br"
  have "br_num_bits br' - 1 \<in> br_offsets br'"
    unfolding o using t assms(2) by (auto simp: br'_def br_tight_def br_offsets_def max_def)
  then show "br_tight br'" by (auto simp: br_tight_def br_offsets_def)
qed

lemma calc_max_all:
  assumes "length bm = 8" "\<And>i. i < 256 \<Longrightarrow> bit_at bm i \<Longrightarrow> i < 32 * s \<and> 32 * mn \<le> i" "s \<le> 8"
  defines "r \<equiv> calc_maximum_bit_set bm s mn"
  shows "r \<le> 256" "r \<noteq> 0 \<Longrightarrow> bit_at bm (r - 1)" "\<And>i. i < 256 \<Longrightarrow> bit_at bm i \<Longrightarrow> i < r"
  using calc_max_spec [OF assms(1,3), of mn] assms(2,3) unfolding r_def Let_def by (fastforce simp: not_le)+

lemma br_shift_left:
  assumes "br_wf br" 
  shows "br_wf (shift_map_left n br)" "br_offsets (shift_map_left n br) = {i. i + n \<in> br_offsets br}"
    "br_tight br \<Longrightarrow> br_tight (shift_map_left n br)"
proof -
  let ?br = "shift_map_left n br"
  have len: "length (br_bitmap br) = 8" "br_num_bits br \<le> 256" using assms by (auto simp: br_wf_def)
  have "br_wf ?br \<and> br_offsets ?br = {i. i + n \<in> br_offsets br} \<and> (br_tight br \<longrightarrow> br_tight ?br)"
  proof (cases "n < br_num_bits br")
    case True
    have nb: "br_num_bits ?br = br_num_bits br - n" using True by (simp add: shift_map_left_def Let_def)
    have "length (br_bitmap ?br) = 8" using True len by (simp add: shift_map_left_def Let_def shift_left_loop_length)
    moreover have b: "bit_at (br_bitmap ?br) i \<longleftrightarrow> i \<in> {i. i + n \<in> br_offsets br}" if "i < 256" for i
      using shift_map_left_bits [OF len(1) True len(2) that] br_wf_bit [OF assms, of "i + n"] br_offsets_256 [OF assms, of "i + n"] by auto
    moreover have "i < br_num_bits ?br" if "i \<in> {i. i + n \<in> br_offsets br}" for i
      using that by (auto simp: nb br_offsets_def)
    ultimately have "br_wf ?br" "br_offsets ?br = {i. i + n \<in> br_offsets br}"
      using br_offsetsI [of ?br "{i. i + n \<in> br_offsets br}"] len by (simp_all add: nb)
    moreover have "br_tight ?br" if "br_tight br"
      using that True b [of "br_num_bits br - n - 1"] len by (auto simp: br_tight_def nb br_offsets_def)
    ultimately show ?thesis by simp
  next
    case False
    then have "?br = br\<lparr>br_num_bits := 0, br_bitmap := replicate 8 0\<rparr>" by (simp add: shift_map_left_def)
    with False show ?thesis by (auto simp: br_wf_def br_offsets_def br_tight_def bit_at_replicate)
  qed
  then show "br_wf ?br" "br_offsets ?br = {i. i + n \<in> br_offsets br}" "br_tight br \<Longrightarrow> br_tight ?br" by auto
qed

lemma br_shift_right:
  assumes "br_wf br" 
  shows "br_wf (shift_map_right n br)" "br_offsets (shift_map_right n br) = {i. i < 256 \<and> n \<le> i \<and> i - n \<in> br_offsets br}"
    "br_tight br \<Longrightarrow> br_num_bits br \<noteq> 0 \<Longrightarrow> br_tight (shift_map_right n br)"
proof -
  let ?br = "shift_map_right n br" and ?S = "{i. i < 256 \<and> n \<le> i \<and> i - n \<in> br_offsets br}"
  have len: "length (br_bitmap br) = 8" "br_num_bits br \<le> 256" using assms by (auto simp: br_wf_def)
  have "br_wf ?br \<and> br_offsets ?br = ?S \<and> (br_tight br \<longrightarrow> br_num_bits br \<noteq> 0 \<longrightarrow> br_tight ?br)"
  proof (cases "n < 256")
    case True
    let ?bm = "br_bitmap ?br"
    have nb: "br_num_bits ?br = (if br_num_bits br + n > 256 then calc_maximum_bit_set ?bm 8 (n div 32) else br_num_bits br + n)"
      using True by (simp add: shift_map_right_def Let_def)
    have l: "length ?bm = 8" using True len by (simp add: shift_map_right_def Let_def shift_right_loop_length)
    have b: "bit_at ?bm i \<longleftrightarrow> i \<in> ?S" if "i < 256" for i
      using shift_map_right_bits [OF len(1) True that] br_wf_bit [OF assms, of "i - n"] that by auto
    have ge: "i < 32 * 8 \<and> 32 * (n div 32) \<le> i" if "i < 256" "bit_at ?bm i" for i
      using b that by (auto intro: order.trans [of _ n])
    note mx = calc_max_all [OF l ge, simplified]
    have "br_num_bits ?br \<le> 256" using mx(1) nb by (simp split: if_splits)
    moreover have "i < br_num_bits ?br" if "i \<in> ?S" for i
      using that mx(3) [of i] b [of i] nb by (auto simp: br_offsets_def)
    ultimately have "br_wf ?br" "br_offsets ?br = ?S"
      using br_offsetsI [of ?br ?S] l b by auto
    moreover have "br_tight ?br" if "br_tight br" "br_num_bits br \<noteq> 0"
      using that mx(2) b [of "br_num_bits br + n - 1"] nb by (auto simp: br_tight_def br_offsets_def split: if_splits)
    ultimately show ?thesis by simp
  next
    case False
    then have "?br = br\<lparr>br_num_bits := 0, br_bitmap := replicate 8 0\<rparr>" by (simp add: shift_map_right_def)
    with False show ?thesis by (auto simp: br_wf_def br_offsets_def br_tight_def bit_at_replicate)
  qed
  then show "br_wf ?br" "br_offsets ?br = ?S" "br_tight br \<Longrightarrow> br_num_bits br \<noteq> 0 \<Longrightarrow> br_tight ?br" by auto
qed

lemma br_clear_bit:
  assumes "br_wf br" "br_tight br" "d < br_num_bits br"
  defines "bm \<equiv> (br_bitmap br)[d div 32 := (br_bitmap br ! (d div 32)) AND NOT (push_bit (31 - d mod 32) 1)]"
  defines "br' \<equiv> br\<lparr>br_bitmap := bm, 
     br_num_bits := (if d = br_num_bits br - 1 then calc_maximum_bit_set bm (d div 32 + 1) 0 else br_num_bits br)\<rparr>"
  shows "br_wf br'" "br_offsets br' = br_offsets br - {d}" "br_tight br'"
proof -
  have len: "length (br_bitmap br) = 8" "br_num_bits br \<le> 256" using assms by (auto simp: br_wf_def)
  have d: "d < 256" using assms(3) len by simp
  have b: "bit_at bm i \<longleftrightarrow> i \<in> br_offsets br - {d}" if "i < 256" for i
    using bit_at_clear [OF len(1) d that] br_wf_bit [OF assms(1) that] unfolding bm_def by auto
  have l: "length bm = 8" using len by (simp add: bm_def)
  have lt: "i < 32 * (d div 32 + 1)" if "d = br_num_bits br - 1" "i \<in> br_offsets br" for i
  proof -
    have "i \<le> d" using that by (auto simp: br_offsets_def)
    moreover have "d < 32 * (d div 32 + 1)" using dividend_less_div_times [of 32 d] by (simp add: mult.commute)
    ultimately show ?thesis by simp
  qed
  define e where "e = d div 32 + 1"
  have e: "e \<le> 8" using d by (simp add: e_def)
  have "i < 32 * e \<and> 32 * 0 \<le> i" if "d = br_num_bits br - 1" "i < 256" "bit_at bm i" for i
    using b that lt by (auto simp: e_def)
  then have mx: "calc_maximum_bit_set bm e 0 \<le> 256"
     "calc_maximum_bit_set bm e 0 \<noteq> 0 \<Longrightarrow> bit_at bm (calc_maximum_bit_set bm e 0 - 1)"
     "\<And>i. i < 256 \<Longrightarrow> bit_at bm i \<Longrightarrow> i < calc_maximum_bit_set bm e 0" if "d = br_num_bits br - 1"
    using calc_max_all [OF l _ e, of 0] that by blast+
  have br'_e: "br' = br\<lparr>br_bitmap := bm,
     br_num_bits := (if d = br_num_bits br - 1 then calc_maximum_bit_set bm e 0 else br_num_bits br)\<rparr>"
    by (simp only: br'_def e_def)
  have n256: "br_num_bits br' \<le> 256" using mx(1) len by (simp add: br'_e)
  have "i < br_num_bits br'" if "i \<in> br_offsets br - {d}" for i
    using that mx(3) [of i] b [of i] br_offsets_256 [OF assms(1), of i] by (auto simp: br'_e br_offsets_def)
  then show "br_wf br'" "br_offsets br' = br_offsets br - {d}"
    using br_offsetsI [of br' "br_offsets br - {d}"] n256 l b by (auto simp: br'_e)
  have "bit_at bm (br_num_bits br - 1)" if "d \<noteq> br_num_bits br - 1"
    using that assms(2,3) b [of "br_num_bits br - 1"] len by (auto simp: br_tight_def br_offsets_def)
  then show "br_tight br'" using mx(2) by (auto simp: br_tight_def br'_e)
qed

lemma br_bitmap_set_spec:
  assumes "n \<le> 256" "(n + 31) div 32 \<le> length ws"
  shows "br_wf (br_bitmap_set n ws br)" "br_offsets (br_bitmap_set n ws br) = {i. i < n \<and> bit_at ws i}"
    "br_tight (br_bitmap_set n ws br)"
proof -
  define m where "m = (n + 31) div 32"
  have m: "m \<le> 8" "n \<le> 32 * m" "m \<le> length ws" using assms by (auto simp: m_def)
  define bm0 where "bm0 = take m ws @ replicate (8 - m) 0"
  define bm where "bm = (if 0 < n \<and> n mod 32 \<noteq> 0 then bm0[m - 1 := (bm0 ! (m - 1)) AND NOT (drop_bit (n mod 32) (NOT 0))] else bm0)"
  have br: "br_bitmap_set n ws br = br\<lparr>br_bitmap := bm, br_num_bits := calc_maximum_bit_set bm m 0\<rparr>"
    using assms by (simp add: br_bitmap_set_def Let_def m_def bm_def bm0_def min_def)
  have l0: "length bm0 = 8" using m by (simp add: bm0_def)
  have b0: "bit_at bm0 i \<longleftrightarrow> i < 32 * m \<and> bit_at ws i" if "i < 256" for i
  proof -
    have "i div 32 < m \<longleftrightarrow> i < 32 * m" by (auto simp: less_mult_imp_div_less mult.commute div_less_iff_less_mult)
    then show ?thesis using that m by (auto simp: bit_at_def bm0_def nth_append)
  qed
  have b: "bit_at bm i \<longleftrightarrow> i < n \<and> bit_at ws i" if i: "i < 256" for i
  proof (cases "n mod 32 = 0")
    case True
    then have "32 * m = n" unfolding m_def by auto
    then show ?thesis using b0 [OF i] True by (simp add: bm_def)
  next
    case False
    then have n: "0 < n" by (cases n) auto
    obtain j c where ij: "i = 32 * j + c" "c < 32" "i div 32 = j" "i mod 32 = c" by (rule div_mod_32)
    obtain q r where nq: "n = 32 * q + r" "r < 32" "n div 32 = q" "n mod 32 = r" by (rule div_mod_32)
    have mq: "m = Suc q" unfolding m_def using nq False by simp
    have "bit_at bm i \<longleftrightarrow> (if j = q then bit (bm0 ! q AND NOT (drop_bit r (NOT 0))) (31 - c) else bit_at bm0 i)"
      using False n bit_at_update [OF l0 _ i, of q] m(1) ij nq(4) by (simp add: bm_def mq)
    also have "\<dots> \<longleftrightarrow> bit_at bm0 i \<and> (j = q \<longrightarrow> c < r)"
      using ij(2) nq(2) by (auto simp: bit_at_def ij(3,4) bit_simps)
    also have "\<dots> \<longleftrightarrow> i < n \<and> bit_at ws i"
    proof -
      have "i < 32 * m \<and> (j = q \<longrightarrow> c < r) \<longleftrightarrow> i < n"
        using ij(1,2) nq(1,2) mq by (cases j q rule: linorder_cases) auto
      then show ?thesis using b0 [OF i] by blast
    qed
    finally show ?thesis .
  qed
  have l: "length bm = 8" using l0 by (simp add: bm_def)
  have ge: "i < 32 * m \<and> 32 * 0 \<le> i" if "i < 256" "bit_at bm i" for i using b that m(2) by auto
  note mx = calc_max_all [OF l ge m(1)]
  have "i < br_num_bits (br_bitmap_set n ws br)" if "i \<in> {i. i < n \<and> bit_at ws i}" for i
    using that mx(3) [of i] b [of i] assms(1) by (auto simp: br)
  then show "br_wf (br_bitmap_set n ws br)" "br_offsets (br_bitmap_set n ws br) = {i. i < n \<and> bit_at ws i}"
    using br_offsetsI [of "br_bitmap_set n ws br" "{i. i < n \<and> bit_at ws i}"] mx(1) l b by (auto simp: br)
  show "br_tight (br_bitmap_set n ws br)" using mx(2) by (simp add: br br_tight_def)
qed

context bitmap_items
begin

lemma items_offset: "fits (br_base br) \<Longrightarrow> br_wf br \<Longrightarrow> n \<le> 256 \<Longrightarrow> item_add ops (br_base br) n \<in> br_items ops br \<longleftrightarrow> n \<in> br_offsets br"
  using br_offsets_256 add_inj by (fastforce simp: br_items_def)

lemma window_cases:
  assumes "fits b"
  obtains (below) "x < b" | (inside) n where "n < 256" "x = item_add ops b n" | (above) "item_add ops b 256 \<le> x"
proof -
  consider "x < b" | "item_add ops b 256 \<le> x" | "b \<le> x" "x < item_add ops b 256" by fastforce
  then show thesis
  proof cases
    case 3
    then obtain n where n: "n \<le> 256" "x = item_add ops b n"
      using in_window [OF assms 3(1) less_imp_le [OF 3(2)]] by blast
    then have "n < 256" using 3 add_less [OF assms, of n 256] by simp
    then show thesis using n(2) by (rule that(2))
  qed (use that in blast)+
qed

lemma items_bounds: "fits (br_base br) \<Longrightarrow> br_wf br \<Longrightarrow> x \<in> br_items ops br \<Longrightarrow> br_base br \<le> x \<and> x \<le> item_add ops (br_base br) 255"
  using br_offsets_256 add_mono base_le by (fastforce simp: br_items_def)

lemma in_range: "fits b \<Longrightarrow> b \<le> x \<and> x \<le> item_add ops b 255 \<longleftrightarrow> (\<exists>n<256. x = item_add ops b n)"
proof
  assume b: "fits b" and x: "b \<le> x \<and> x \<le> item_add ops b 255"
  then have "x < item_add ops b 256" using add_less [OF b, of 255 256] by auto
  with b x show "\<exists>n<256. x = item_add ops b n"
    by (cases rule: window_cases [OF b, of x]) auto
next
  assume "fits b" "\<exists>n<256. x = item_add ops b n"
  then show "b \<le> x \<and> x \<le> item_add ops b 255" using add_mono [of b _ 255] base_le [of b] by auto
qed

lemma br_add_items:
  assumes "fits (br_base br)" "br_wf br" "br_full ops br"
  shows "fst (br_add ops x br) \<longleftrightarrow> br_base br \<le> x \<and> x \<le> item_add ops (br_base br) 255"
    and "br_wf (snd (br_add ops x br))"
    and "br_items ops (snd (br_add ops x br)) = (if fst (br_add ops x br) then insert x (br_items ops br) else br_items ops br)"
    and "br_tight br \<Longrightarrow> br_tight (snd (br_add ops x br))"
    and "br_base (snd (br_add ops x br)) = br_base br" "br_full ops (snd (br_add ops x br))"
proof -
  let ?in = "br_base br \<le> x \<and> x \<le> item_add ops (br_base br) 255"
  show f: "fst (br_add ops x br) \<longleftrightarrow> ?in"
    using assms(3) by (simp add: br_add_def Let_def br_full_def)
  show b: "br_base (snd (br_add ops x br)) = br_base br" "br_full ops (snd (br_add ops x br))"
    using assms(3) by (simp_all add: br_add_def Let_def br_full_def)
  have "br_wf (snd (br_add ops x br)) \<and> br_items ops (snd (br_add ops x br)) = (if ?in then insert x (br_items ops br) else br_items ops br)
    \<and> (br_tight br \<longrightarrow> br_tight (snd (br_add ops x br)))"
  proof (cases ?in)
    case True
    then obtain n where n: "n < 256" "x = item_add ops (br_base br) n" using in_range [OF assms(1)] by auto
    then have "item_diff ops x (br_base br) = n" using diff_base [OF assms(1)] by simp
    then have "snd (br_add ops x br) = br\<lparr>br_num_bits := max (n + 1) (br_num_bits br),
     br_bitmap := (br_bitmap br)[n div 32 := (br_bitmap br ! (n div 32)) OR push_bit (31 - n mod 32) 1]\<rparr>"
      using True assms(3) by (simp add: br_add_def Let_def br_full_def)
    with True br_set_bit [OF assms(2) n(1)] n(2) show ?thesis by (simp add: br_items_def)
  next
    case False
    then have "snd (br_add ops x br) = br" using assms(3) by (auto simp: br_add_def br_full_def)
    with False assms(2) show ?thesis by auto
  qed
  then show "br_wf (snd (br_add ops x br))"
    "br_items ops (snd (br_add ops x br)) = (if fst (br_add ops x br) then insert x (br_items ops br) else br_items ops br)"
    "br_tight br \<Longrightarrow> br_tight (snd (br_add ops x br))" unfolding f by auto
qed

lemma br_is_set_items:
  assumes "fits (br_base br)" "br_wf br" "br_full ops br"
  shows "br_is_set ops br x \<longleftrightarrow> x \<in> br_items ops br"
proof (cases "br_base br \<le> x \<and> x \<le> item_add ops (br_base br) 255")
  case True
  then obtain n where n: "n < 256" "x = item_add ops (br_base br) n" using in_range [OF assms(1)] by auto
  then have "item_diff ops x (br_base br) = n" using diff_base [OF assms(1)] by simp
  then have "br_is_set ops br x \<longleftrightarrow> n \<in> br_offsets br"
    using True assms(3) bit_at_test [of "br_bitmap br" n]
    by (auto simp: br_is_set_def Let_def br_full_def br_offsets_def simp del: push_bit_of_1)
  then show ?thesis using items_offset [OF assms(1,2), of n] n by simp
next
  case False
  then have "\<not> br_is_set ops br x" using assms(3) by (auto simp: br_is_set_def br_full_def)
  with False show ?thesis using items_bounds [OF assms(1,2)] by blast
qed

lemma br_add_range_items:
  assumes "fits (br_base br)" "br_wf br"
  shows "br_wf (br_add_range ops frm to br)"
    and "br_items ops (br_add_range ops frm to br) =
      br_items ops br \<union> {x. frm \<le> x \<and> x < to \<and> br_base br \<le> x \<and> x < item_add ops (br_base br) 256}"
    and "br_tight br \<Longrightarrow> br_tight (br_add_range ops frm to br)"
    and "br_base (br_add_range ops frm to br) = br_base br"
    and "br_range_max (br_add_range ops frm to br) = br_range_max br"
proof -
  let ?b = "br_base br" and ?lim = "item_add ops (br_base br) 256" and ?br = "br_add_range ops frm to br"
  define mn where "mn = (if ?b \<ge> frm then ?b else frm)"
  define mx where "mx = (if to \<ge> ?lim then ?lim else to)"
  have S: "{x. frm \<le> x \<and> x < to \<and> ?b \<le> x \<and> x < ?lim} = {x. mn \<le> x \<and> x < mx}"
    by (auto simp: mn_def mx_def)
  show "br_base ?br = ?b" "br_range_max ?br = br_range_max br"
    by (simp_all add: br_add_range_def Let_def)
  have "br_wf ?br \<and> br_items ops ?br = br_items ops br \<union> {x. mn \<le> x \<and> x < mx} \<and> (br_tight br \<longrightarrow> br_tight ?br)"
  proof (cases "mn \<ge> mx")
    case True
    then have "?br = br" by (simp add: br_add_range_def Let_def mn_def mx_def)
    with True assms(2) show ?thesis by auto
  next
    case False
    have "?b \<le> mn" "mx \<le> ?lim" by (auto simp: mn_def mx_def)
    with False obtain m n where m: "m \<le> 256" "mn = item_add ops ?b m" and n: "n \<le> 256" "mx = item_add ops ?b n"
      using in_window [OF assms(1), of mn] in_window [OF assms(1), of mx] by (meson le_cases order.trans)
    have mn': "m < n" using False add_mono [OF assms(1), of n m] m n by simp
    have d: "item_diff ops mn ?b = m" "item_diff ops mx mn = n - m"
      using m n mn' diff_base [OF assms(1)] diff_add [OF assms(1), of m n] by auto
    have br: "?br = br\<lparr>br_num_bits := max (br_num_bits br) (m + (n - m)),
     br_bitmap := add_range_loop (br_bitmap br) (m div 32) (n - m) (drop_bit (m mod 32) (NOT 0)) (32 - m mod 32)\<rparr>"
      using False unfolding br_add_range_def Let_def NBITS_NITEMS mn_def [symmetric] mx_def [symmetric]
      by (simp add: d)
    have "{x. mn \<le> x \<and> x < mx} = item_add ops ?b ` {m..<m + (n - m)}"
    proof (intro set_eqI iffI)
      fix x assume "x \<in> {x. mn \<le> x \<and> x < mx}"
      then have x: "mn \<le> x" "x < mx" by auto
      then obtain k where k: "k \<le> 256" "x = item_add ops ?b k"
        using in_window [OF assms(1), of x] \<open>?b \<le> mn\<close> \<open>mx \<le> ?lim\<close> by fastforce
      then have "m \<le> k" "k < n" using x m n add_mono [OF assms(1)] add_less [OF assms(1)] by auto
      then show "x \<in> item_add ops ?b ` {m..<m + (n - m)}" using k by auto
    next
      fix x assume "x \<in> item_add ops ?b ` {m..<m + (n - m)}"
      then show "x \<in> {x. mn \<le> x \<and> x < mx}" using m n add_mono [OF assms(1)] add_less [OF assms(1)] by auto
    qed
    then show ?thesis
      using br_set_range [OF assms(2), of "n - m" m] mn' n(1) by (simp add: br br_items_def image_Un)
  qed
  then show "br_wf ?br" "br_items ops ?br = br_items ops br \<union> {x. frm \<le> x \<and> x < to \<and> ?b \<le> x \<and> x < ?lim}"
    "br_tight br \<Longrightarrow> br_tight ?br" unfolding S by auto
qed

lemma br_remove_items:
  assumes "fits (br_base br)" "br_wf br" "br_tight br" "\<not> br_empty br"
  shows "\<exists>br'. br_remove ops x br = Some br' \<and> br_wf br' \<and> br_tight br' \<and> br_base br' = br_base br \<and>
     br_range_max br' = br_range_max br \<and> br_items ops br' = br_items ops br - {x}"
proof -
  let ?b = "br_base br" and ?n = "br_num_bits br"
  have n: "?n \<noteq> 0" "?n \<le> 256" using assms(2,4) by (auto simp: br_empty_def br_wf_def)
  then have n1: "?n - 1 \<le> 256" by simp
  have mx: "br_max ops br = item_add ops ?b (?n - 1)" using n by (simp add: br_max_def)
  show ?thesis
  proof (cases "?b \<le> x \<and> x \<le> br_max ops br")
    case True
    then obtain d where d: "d < 256" "x = item_add ops ?b d"
      using in_range [OF assms(1), of x] add_mono [OF assms(1), of "?n - 1" 255] n mx by fastforce
    then have dn: "d < ?n" "d = ?n - 1 \<longleftrightarrow> x = br_max ops br" using True mx add_mono [OF assms(1), of d "?n - 1"] add_inj [OF assms(1), of d "?n - 1"] n n1 by auto
    have diff: "item_diff ops x ?b = d" using d diff_base [OF assms(1)] by simp
    let ?bm = "(br_bitmap br)[d div 32 := (br_bitmap br ! (d div 32)) AND NOT (push_bit (31 - d mod 32) 1)]"
    have "br_remove ops x br = Some (br\<lparr>br_bitmap := ?bm, 
       br_num_bits := (if d = ?n - 1 then calc_maximum_bit_set ?bm (d div 32 + 1) 0 else ?n)\<rparr>)"
      using True d(1) unfolding br_remove_def Let_def diff dn(2) by simp
    moreover have "br_items ops br - {x} = item_add ops ?b ` (br_offsets br - {d})"
      using d add_inj [OF assms(1)] br_offsets_256 [OF assms(2)] by (fastforce simp: br_items_def)
    ultimately show ?thesis using br_clear_bit [OF assms(2,3) dn(1)] by (simp add: br_items_def)
  next
    case False
    then have "br_remove ops x br = Some br" by (auto simp: br_remove_def Let_def)
    moreover have "x \<notin> br_items ops br"
    proof
      assume "x \<in> br_items ops br"
      then obtain d where "d \<in> br_offsets br" "x = item_add ops ?b d" by (auto simp: br_items_def)
      moreover from this have "d \<le> ?n - 1" "d \<le> 256" using n by (auto simp: br_offsets_def)
      ultimately show False using False mx n base_le [OF assms(1)] add_mono [OF assms(1)] by simp
    qed
    ultimately show ?thesis using assms by auto
  qed
qed

lemma bitmap_base_update_items:
  assumes "fits (br_base br)" "fits b" "br_wf br" "near (br_base br) b" "near b (br_base br)"
  shows "br_wf (bitmap_base_update ops b br)"
    and "br_items ops (bitmap_base_update ops b br) = {x \<in> br_items ops br. b \<le> x \<and> x \<le> item_add ops b 255}"
    and "br_tight br \<Longrightarrow> br_base br \<le> b \<or> \<not> br_empty br \<Longrightarrow> br_tight (bitmap_base_update ops b br)"
    and "br_base (bitmap_base_update ops b br) = b"
    and "br_full ops br \<Longrightarrow> br_full ops (bitmap_base_update ops b br)"
proof -
  let ?b = "br_base br" and ?br = "bitmap_base_update ops b br"
  show base: "br_base ?br = b" and "br_full ops br \<Longrightarrow> br_full ops ?br"
    by (simp_all add: bitmap_base_update_def Let_def br_full_def)
  note bd = items_bounds [OF assms(1,3)]
  have "br_wf ?br \<and> br_items ops ?br = {x \<in> br_items ops br. b \<le> x \<and> x \<le> item_add ops b 255} \<and>
    (br_tight br \<longrightarrow> br_base br \<le> b \<or> \<not> br_empty br \<longrightarrow> br_tight ?br)"
  proof (cases b ?b rule: linorder_cases)
    case equal
    then show ?thesis using bd assms(3) by (auto simp: bitmap_base_update_def)
  next
    case greater
    define n where "n = item_diff ops b ?b"
    have br: "?br = (shift_map_left n br)\<lparr>br_base := b, br_range_max := item_add ops b 255\<rparr>"
      using greater by (simp add: bitmap_base_update_def n_def Let_def)
    note sh = br_shift_left [OF assms(3), of n]
    have wf: "br_wf ?br" "br_tight br \<Longrightarrow> br_tight ?br" and off: "br_offsets ?br = {i. i + n \<in> br_offsets br}"
      using sh by (simp_all add: br br_wf_def br_tight_def br_offsets_def)
    have "br_items ops ?br = {x \<in> br_items ops br. b \<le> x \<and> x \<le> item_add ops b 255}"
    proof (cases "item_add ops ?b 256 \<le> b")
      case True
      then have "256 \<le> n" using diff_far [OF assms(1,4)] by (simp add: n_def)
      then have "br_offsets ?br = {}" using off br_offsets_256 [OF assms(3)] by fastforce
      moreover have "x < b" if "x \<in> br_items ops br" for x
        using bd [OF that] True add_less [OF assms(1), of 255 256] by auto
      ultimately show ?thesis by (force simp: br_items_def)
    next
      case False
      then obtain m where m: "m \<le> 256" "b = item_add ops ?b m"
        using greater in_window [OF assms(1), of b] by (meson le_cases less_imp_le)
      then have nm: "n = m" using diff_base [OF assms(1)] by (simp add: n_def)
      have shift: "item_add ops b i = item_add ops ?b (i + m)" if "i + m < 256" for i
        using that add_add [of m i ?b] m by (simp add: add.commute)
      show ?thesis
      proof (intro set_eqI iffI)
        fix x assume "x \<in> br_items ops ?br"
        then obtain i where i: "i + m \<in> br_offsets br" "x = item_add ops b i"
          using off nm base by (auto simp: br_items_def)
        then have lt: "i + m < 256" using br_offsets_256 [OF assms(3)] by blast
        then have "b \<le> x" "x \<le> item_add ops b 255"
          using base_le [OF assms(2), of i] add_mono [OF assms(2), of i 255] i by auto
        with i shift [OF lt] show "x \<in> {x \<in> br_items ops br. b \<le> x \<and> x \<le> item_add ops b 255}"
          by (auto simp: br_items_def)
      next
        fix x assume "x \<in> {x \<in> br_items ops br. b \<le> x \<and> x \<le> item_add ops b 255}"
        then obtain j where j: "j \<in> br_offsets br" "x = item_add ops ?b j" "b \<le> x" by (auto simp: br_items_def)
        then have lt: "j < 256" using br_offsets_256 [OF assms(3)] by blast
        have mj: "m \<le> j" using j m add_mono [OF assms(1), of m j] lt by simp
        then have "j - m \<in> br_offsets ?br" "x = item_add ops b (j - m)"
          using off nm j shift [of "j - m"] lt by auto
        then show "x \<in> br_items ops ?br" using base by (auto simp: br_items_def)
      qed
    qed
    then show ?thesis using wf by simp
  next
    case less
    define n where "n = item_diff ops ?b b"
    have br: "?br = (shift_map_right n br)\<lparr>br_base := b, br_range_max := item_add ops b 255\<rparr>"
      using less by (auto simp add: bitmap_base_update_def n_def Let_def)
    note sh = br_shift_right [OF assms(3), of n]
    have wf: "br_wf ?br" "br_tight br \<Longrightarrow> \<not> br_empty br \<Longrightarrow> br_tight ?br"
      and off: "br_offsets ?br = {i. i < 256 \<and> n \<le> i \<and> i - n \<in> br_offsets br}"
      using sh by (simp_all add: br br_wf_def br_tight_def br_offsets_def br_empty_def)
    have "br_items ops ?br = {x \<in> br_items ops br. b \<le> x \<and> x \<le> item_add ops b 255}"
    proof (cases "item_add ops b 256 \<le> ?b")
      case True
      then have "256 \<le> n" using diff_far [OF assms(2,5)] by (simp add: n_def)
      then have "br_offsets ?br = {}" using off by auto
      moreover have "item_add ops b 255 < x" if "x \<in> br_items ops br" for x
        using bd [OF that] True add_less [OF assms(2), of 255 256] by auto
      ultimately show ?thesis by (force simp: br_items_def)
    next
      case False
      then obtain m where m: "m \<le> 256" "?b = item_add ops b m"
        using less in_window [OF assms(2), of ?b] by (meson le_cases less_imp_le)
      then have nm: "n = m" using diff_base [OF assms(2)] by (simp add: n_def)
      have shift: "item_add ops ?b i = item_add ops b (i + m)" if "i < 256" for i
        using that add_add [of m i b] m by (simp add: add.commute)
      show ?thesis
      proof (intro set_eqI iffI)
        fix x assume "x \<in> br_items ops ?br"
        then obtain i where i: "i < 256" "m \<le> i" "i - m \<in> br_offsets br" "x = item_add ops b i"
          using off nm base by (auto simp: br_items_def)
        then have "b \<le> x" "x \<le> item_add ops b 255"
          using base_le [OF assms(2), of i] add_mono [OF assms(2), of i 255] by auto
        moreover have "x = item_add ops ?b (i - m)" using i shift [of "i - m"] by simp
        ultimately show "x \<in> {x \<in> br_items ops br. b \<le> x \<and> x \<le> item_add ops b 255}"
          using i by (auto simp: br_items_def)
      next
        fix x assume "x \<in> {x \<in> br_items ops br. b \<le> x \<and> x \<le> item_add ops b 255}"
        then obtain j where j: "j \<in> br_offsets br" "x = item_add ops ?b j" "b \<le> x" "x \<le> item_add ops b 255" by (auto simp: br_items_def)
        then have lt: "j < 256" using br_offsets_256 [OF assms(3)] by blast
        then have x: "x = item_add ops b (j + m)" using j shift by simp
        have "j + m < 256"
        proof (rule ccontr)
          assume "\<not> j + m < 256"
          then have "item_add ops b 256 = item_add ops ?b (256 - m)" "256 - m \<le> j"
            using shift [of "256 - m"] m lt by auto
          then have "item_add ops b 256 \<le> x" using add_mono [OF assms(1), of "256 - m" j] j lt by simp
          then show False using j(4) add_less [OF assms(2), of 255 256] by auto
        qed
        then have "j + m \<in> br_offsets ?br" unfolding off nm using j(1) by simp
        then show "x \<in> br_items ops ?br" using x base by (simp add: br_items_def)
      qed
    qed
    then show ?thesis using wf less by auto
  qed
  then show "br_wf ?br" "br_items ops ?br = {x \<in> br_items ops br. b \<le> x \<and> x \<le> item_add ops b 255}"
    "br_tight br \<Longrightarrow> br_base br \<le> b \<or> \<not> br_empty br \<Longrightarrow> br_tight ?br" by auto
qed

lemma br_for_each_items:
  assumes "fits (br_base br)" "br_wf br"
  shows "set (br_for_each ops br) = br_items ops br" "sorted_wrt (<) (br_for_each ops br)"
proof -
  note fe = for_each_offsets [OF assms(2)]
  show "set (br_for_each ops br) = br_items ops br"
    by (simp add: fe br_items_def set_br_offset_list)
  have "sorted_wrt (\<lambda>m n. item_add ops (br_base br) m < item_add ops (br_base br) n) (br_offset_list br)"
    using sorted_br_offset_list [of br]
    by (rule sorted_wrt_mono_rel [rotated])
      (use br_offsets_256 [OF assms(2)] add_less [OF assms(1)] in \<open>simp add: set_br_offset_list less_imp_le\<close>)
  then show "sorted_wrt (<) (br_for_each ops br)" by (simp add: fe sorted_wrt_map)
qed

lemma br_min_items:
  assumes "fits (br_base br)" "br_wf br"
  shows "br_min ops br = (if br_items ops br = {} then br_base br else Min (br_items ops br))"
proof -
  have mn: "br_min ops br = (case br_for_each ops br of [] \<Rightarrow> br_base br | x # _ \<Rightarrow> x)"
    by (simp add: br_min_def br_for_each_def br_min_loop_for_each split: list.split)
  note fe = br_for_each_items [OF assms]
  show ?thesis
  proof (cases "br_for_each ops br")
    case Nil
    then show ?thesis using fe mn by simp
  next
    case (Cons x xs)
    then have "Min (br_items ops br) = x" using fe by (intro Min_eqI) (auto simp flip: fe(1))
    then show ?thesis using Cons fe mn by auto
  qed
qed

lemma br_max_items:
  assumes "fits (br_base br)" "br_wf br" "br_tight br" "\<not> br_empty br"
  shows "br_max ops br = Max (br_items ops br)" "br_max ops br \<in> br_items ops br"
proof -
  have n: "br_num_bits br \<noteq> 0" "br_num_bits br \<le> 256" using assms(2,4) by (auto simp: br_empty_def br_wf_def)
  then have n1: "br_num_bits br - 1 \<le> 256" by simp
  have m: "br_max ops br = item_add ops (br_base br) (br_num_bits br - 1)" using n by (simp add: br_max_def)
  have "br_num_bits br - 1 \<in> br_offsets br" using assms(3) n by (simp add: br_tight_def br_offsets_def)
  then show i: "br_max ops br \<in> br_items ops br" by (simp add: m br_items_def)
  have "finite (br_items ops br)" by (simp add: br_items_def br_offsets_def)
  moreover have "x \<le> br_max ops br" if "x \<in> br_items ops br" for x
    using that n add_mono [OF assms(1) _ n1] by (auto simp: m br_items_def br_offsets_def)
  ultimately show "br_max ops br = Max (br_items ops br)" using i by (intro Max_eqI [symmetric]) auto
qed

lemma br_init_ok: "br_wf (br_init_max ops b k)" "br_items ops (br_init_max ops b k) = {}" "br_tight (br_init_max ops b k)"
  "br_base (br_init_max ops b k) = b" "255 \<le> k \<Longrightarrow> br_full ops (br_init_max ops b k)"
  by (simp_all add: br_init_max_def br_wf_def br_items_def br_offsets_def br_tight_def br_full_def bit_at_replicate)

lemma empty_items: "br_wf br \<Longrightarrow> br_tight br \<Longrightarrow> br_empty br \<longleftrightarrow> br_items ops br = {}"
  by (auto simp: br_empty_def br_items_def br_tight_alt split: if_splits)

end

interpretation sn: bitmap_items int_items "\<lambda>_. True" "\<lambda>b x. x - b < 4294967296"
proof unfold_locales
  fix b x :: int assume "b \<le> x" "x \<le> item_add int_items b 256"
  then show "\<exists>n\<le>256. x = item_add int_items b n" by (intro exI [of _ "nat (x - b)"]) (auto simp: int_items_def)
qed (auto simp: int_items_def mod_pos_pos_trivial)

lemma unat_window: "unat (b::u32) < 4294967040 \<Longrightarrow> n \<le> 256 \<Longrightarrow> unat (b + of_nat n) = unat b + n"
  by (simp add: unat_word_ariths take_bit_nat_eq_self unat_of_nat)

interpretation fn: bitmap_items u32_items "\<lambda>b. unat b < 4294967040" "\<lambda>_ _. True"
proof unfold_locales
  fix b x :: u32 assume b: "unat b < 4294967040" and x: "b \<le> x" "x \<le> item_add u32_items b 256"
  have "unat x - unat b \<le> 256" "x = b + of_nat (unat x - unat b)"
    using b x unat_window [of b 256] by (simp_all add: u32_items_def word_le_nat_alt)
  then show "\<exists>n\<le>256. x = item_add u32_items b n" by (auto simp: u32_items_def)
next
  fix b x :: u32 assume b: "unat b < 4294967040" and x: "item_add u32_items b 256 \<le> x"
  then show "256 \<le> item_diff u32_items x b" using unat_window [of b 256] 
    by (simp add: u32_items_def word_le_nat_alt unat_sub_if_size)
next
  fix b :: u32 and m n :: nat assume b: "unat b < 4294967040" and mn: "m \<le> n" "n \<le> 256"
  then show "item_diff u32_items (item_add u32_items b n) (item_add u32_items b m) = n - m"
    using unat_window [of b n] unat_window [of b m] by (simp add: u32_items_def unat_sub_if_size)
qed (auto simp: u32_items_def word_le_nat_alt unat_window)

lemma sn_window: "sn_val b < 9223372036854775552 \<Longrightarrow> n \<le> 256 \<Longrightarrow>
    sn_val (sn_add_u32 b (of_nat n)) = sn_val b + int n"
proof -
  assume "sn_val b < 9223372036854775552" "n \<le> 256"
  moreover have "uint (of_nat n :: u32) = int n" using \<open>n \<le> 256\<close> by (simp add: uint_nat unat_of_nat take_bit_nat_eq_self)
  ultimately show ?thesis using sn_add_u32_val [of b "of_nat n"] by simp
qed

interpretation st: bitmap_items sn_items "\<lambda>b. sn_val b < 9223372036854775552"
  "\<lambda>b x. sn_val x - sn_val b < 4294967296"
proof unfold_locales
  fix b :: SequenceNumber_t and m n :: nat assume "m + n < 4294967296"
  then show "item_add sn_items (item_add sn_items b m) n = item_add sn_items b (m + n)"
    using sn_add_u32_add [of "of_nat m" "of_nat n" b] by (simp add: sn_items_def unat_of_nat take_bit_nat_eq_self)
next
  fix b x assume b: "sn_val b < 9223372036854775552" and x: "b \<le> x" "x \<le> item_add sn_items b 256"
  have "nat (sn_val x - sn_val b) \<le> 256" "sn_val x = sn_val b + int (nat (sn_val x - sn_val b))"
    using b x sn_window [of b 256] by (simp_all add: sn_items_def sn_less_eq_val)
  then have "x = item_add sn_items b (nat (sn_val x - sn_val b))"
    using sn_window [OF b] by (intro sn_val_inj) (simp add: sn_items_def)
  then show "\<exists>n\<le>256. x = item_add sn_items b n"
    using \<open>nat (sn_val x - sn_val b) \<le> 256\<close> by blast
next
  fix b x assume b: "sn_val b < 9223372036854775552" and n: "sn_val x - sn_val b < 4294967296"
    and x: "item_add sn_items b 256 \<le> x"
  then have "sn_val b + 256 \<le> sn_val x" using sn_window [OF b, of 256] by (simp add: sn_items_def sn_less_eq_val)
  then show "256 \<le> item_diff sn_items x b"
    using SequenceNumberDiff_unat [of b x] n by (simp add: sn_items_def)
next
  fix b :: SequenceNumber_t and m n :: nat
  assume b: "sn_val b < 9223372036854775552" and mn: "m \<le> n" "n \<le> 256"
  then show "item_diff sn_items (item_add sn_items b n) (item_add sn_items b m) = n - m"
    using SequenceNumberDiff_unat [of "item_add sn_items b m" "item_add sn_items b n"]
      sn_window [OF b, of n] sn_window [OF b, of m]
    by (simp add: sn_items_def)
qed (simp_all add: sn_items_def sn_add_u32_0 sn_less_eq_val sn_window)

lemma bitmap_ext:
  assumes "br_wf a" "br_wf b" "br_tight a" "br_tight b" "br_offsets a = br_offsets b"
    "br_base a = br_base b" "br_range_max a = br_range_max b"
  shows "a = (b :: 't BitmapRange)"
proof -
  have len: "length (br_bitmap a) = 8" "length (br_bitmap b) = 8" using assms by (auto simp: br_wf_def)
  have bits: "bit_at (br_bitmap a) i = bit_at (br_bitmap b) i" if "i < 256" for i
    using that assms br_wf_bit by blast
  have "br_bitmap a = br_bitmap b"
  proof (rule nth_equalityI)
    fix k assume "k < length (br_bitmap a)"
    then have k: "k < 8" using len by simp
    show "br_bitmap a ! k = br_bitmap b ! k"
    proof (rule bit_word_eqI)
      fix n assume "n < LENGTH(32)"
      then have n: "n < 32" by simp
      have "(32 * k + (31 - n)) div 32 = k" "31 - (32 * k + (31 - n)) mod 32 = n"
        using n div_mod_32_unique [of "32 * k + (31 - n)" k "31 - n"] by simp_all
      then show "bit (br_bitmap a ! k) n = bit (br_bitmap b ! k) n"
        using bits [of "32 * k + (31 - n)"] k n by (simp add: bit_at_def)
    qed
  qed (use len in simp)
  moreover have "br_num_bits a = br_num_bits b" using assms by (simp add: br_tight_alt)
  ultimately show ?thesis using assms by simp
qed

context bitmap_items
begin

lemma bitmap_items_ext:
  assumes "fits (br_base a)" "br_wf a" "br_wf b" "br_tight a" "br_tight b"
    "br_items ops a = br_items ops b" "br_base a = br_base b" "br_range_max a = br_range_max b"
  shows "a = (b :: 't BitmapRange)"
proof -
  have "n \<in> br_offsets a \<longleftrightarrow> n \<in> br_offsets b" for n
    using items_offset [of a n] items_offset [of b n] assms br_offsets_256 [of a n] br_offsets_256 [of b n]
    by (metis less_imp_le)
  then show ?thesis using assms by (intro bitmap_ext) auto
qed

lemma fold_add_items:
  assumes "fits (br_base br)" "br_wf br" "br_full ops br" "br_tight br"
  shows "let br' = fold (\<lambda>x b. snd (br_add ops x b)) xs br
         in br_wf br' \<and> br_full ops br' \<and> br_tight br' \<and> br_base br' = br_base br \<and>
            br_range_max br' = br_range_max br \<and>
            br_items ops br' = br_items ops br \<union>
              {x \<in> set xs. br_base br \<le> x \<and> x \<le> item_add ops (br_base br) 255}"
  using assms
proof (induction xs arbitrary: br)
  case (Cons x xs)
  note a = br_add_items [OF Cons.prems(1-3), of x]
  have m: "br_range_max (snd (br_add ops x br)) = br_range_max br" 
    using a(5,6) Cons.prems(3) by (simp add: br_full_def)
  show ?case using Cons.IH [of "snd (br_add ops x br)"] a Cons.prems m
    by (auto simp: Let_def)
qed simp

end

lemma init_ok_255: "br_wf (br_init int_items b)" "br_tight (br_init int_items b)"
  "br_full int_items (br_init int_items b)" "br_items int_items (br_init int_items b) = {}"
  "br_base (br_init int_items b) = b"
  using sn.br_init_ok [where b = b and k = 255] by (simp_all add: br_init_def)

lemma int_items_add: "item_add int_items b n = b + int n"
  by (simp add: int_items_def)

lemma add_ok_255:
  assumes "b \<le> x" "x \<le> b + 255"
  defines "br \<equiv> snd (br_add int_items x (br_init int_items b))"
  shows "br_wf br" "br_tight br" "br_full int_items br" "br_items int_items br = {x}"
    "br_base br = b" "br_range_max br = b + 255" "\<not> br_empty br"
  using sn.br_add_items [OF TrueI init_ok_255(1,3) [of b], where x = x] init_ok_255 [of b] assms
    sn.empty_items [of br]
  by (auto simp: int_items_add br_full_def)

subsection \<open>Properties\<close>

text \<open>
  C16. \<open>add_range\<close> fills whole words at once; on a window with the full range of 256 items the
  resulting object is the one the documented loop leaves,
  \<open>for (T i = from; i < to; i++) add(i)\<close>, field by field.
\<close>

theorem add_range_is_add_loop:
  assumes "br_wf br" "br_tight br" "br_full int_items br"
  shows "br_add_range int_items frm to br = fold (\<lambda>x b. snd (br_add int_items x b)) [frm..to - 1] br"
proof -
  note f = sn.fold_add_items [OF TrueI assms(1,3,2), of "[frm..to - 1]", unfolded Let_def]
  note r = sn.br_add_range_items [OF TrueI assms(1), of frm to]
  show ?thesis
    using f r assms(2) by (intro sn.bitmap_items_ext) (auto simp: int_items_def)
qed

theorem add_range_is_add_loop_witness:
  "br_add_range int_items 3 6 (br_init int_items 1) =
     fold (\<lambda>x b. snd (br_add int_items x b)) [3..5] (br_init int_items 1)"
  using add_range_is_add_loop [of "br_init int_items 1" 3 6] init_ok_255 [of 1] by simp


text \<open>
  On the struct \<open>SequenceNumber_t\<close>: after \<open>add(x)\<close>, \<open>is_set(y)\<close> holds for the items set
  before and, exactly when \<open>x\<close> lies in \<open>base() .. base() + 255\<close>, for \<open>x\<close>.
\<close>

theorem bitmap_is_set_add:
  assumes "sn_val (br_base br) < 9223372036854775552" "br_wf br" "br_full sn_items br"
  shows "br_is_set sn_items (snd (br_add sn_items x br)) y \<longleftrightarrow>
    br_is_set sn_items br y \<or>
    y = x \<and> br_base br \<le> x \<and> x \<le> sn_add_u32 (br_base br) 255"
proof -
  note a = st.br_add_items [OF assms]
  have "item_add sn_items (br_base br) 255 = sn_add_u32 (br_base br) 255" by (simp add: sn_items_def)
  then show ?thesis using a assms by (auto simp: st.br_is_set_items)
qed

theorem bitmap_is_set_add_witness:
  "br_is_set sn_items (snd (br_add sn_items (SequenceNumber_t 0 9)
       (br_init sn_items (SequenceNumber_t 0 4)))) (SequenceNumber_t 0 9) = True"
  using bitmap_is_set_add [of "br_init sn_items (SequenceNumber_t 0 4)" "SequenceNumber_t 0 9"
      "SequenceNumber_t 0 9"] st.br_init_ok [where b = "SequenceNumber_t 0 4" and k = 255]
  by (simp add: br_init_def sn_val_def sn_less_eq_val sn_add_u32_def)

text \<open>
  On the struct \<open>SequenceNumber_t\<close>: \<open>for_each\<close> visits exactly the items for which \<open>is_set\<close>
  answers true, each once and in ascending order.
\<close>

theorem bitmap_for_each_visits:
  assumes "sn_val (br_base br) < 9223372036854775552" "br_wf br" "br_full sn_items br"
  shows "sorted_wrt (<) (br_for_each sn_items br) \<and>
    (\<forall>x. x \<in> set (br_for_each sn_items br) \<longleftrightarrow> br_is_set sn_items br x)"
  using st.br_for_each_items [OF assms(1,2)] st.br_is_set_items [OF assms] by blast

theorem bitmap_for_each_visits_witness:
  "sorted_wrt (<) (br_for_each sn_items
     (snd (br_add sn_items (SequenceNumber_t 0 9) (br_init sn_items (SequenceNumber_t 0 4)))))"
  using bitmap_for_each_visits [of "snd (br_add sn_items (SequenceNumber_t 0 9)
      (br_init sn_items (SequenceNumber_t 0 4)))"]
    st.br_init_ok [where b = "SequenceNumber_t 0 4" and k = 255]
    st.br_add_items [of "br_init sn_items (SequenceNumber_t 0 4)" "SequenceNumber_t 0 9"]
  by (simp add: br_init_def sn_val_def)

text \<open>
  C15. \<open>base_update(b)\<close> slides the window: what was set and still lies in
  \<open>b .. b + 255\<close> stays set, everything else is unset, in both directions and by any distance below
  \<open>2 ^ 32\<close>, and the invariant of the representation is kept.
\<close>

theorem bitmap_base_update_slides:
  assumes "br_wf br" "br_full int_items br" "\<bar>b - br_base br\<bar> < 4294967296"
  shows "br_wf (bitmap_base_update int_items b br) \<and>
    br_full int_items (bitmap_base_update int_items b br) \<and>
    br_is_set int_items (bitmap_base_update int_items b br) x =
      (br_is_set int_items br x \<and> b \<le> x \<and> x \<le> b + 255)"
proof -
  note a = sn.bitmap_base_update_items [OF TrueI TrueI assms(1), of b]
  have i: "item_add int_items b 255 = b + 255" by (simp add: int_items_def)
  have "- (4294967296) < b - br_base br" "b - br_base br < 4294967296" using assms(3) by linarith+
  then show ?thesis using a assms i by (auto simp: sn.br_is_set_items)
qed

theorem bitmap_base_update_slides_witness:
  "br_is_set int_items (bitmap_base_update int_items 40
     (snd (br_add int_items 50 (br_init int_items 7)))) 50 = True"
  using bitmap_base_update_slides [of "snd (br_add int_items 50 (br_init int_items 7))" 40 50]
    add_ok_255 [of 7 50]
  by (simp add: sn.br_is_set_items)


text \<open>
  C27. Serialisation round trip of a set: the words \<open>bitmap_get\<close> hands out, given to \<open>bitmap_set\<close>
  of any set with the same base, rebuild the original object.
\<close>

theorem bitmap_get_set_round_trip:
  assumes "br_wf br" "br_tight br"
    "br_bitmap_get br = (n, ws, k)"
    "br_base br = br_base dst" "br_range_max br = br_range_max dst"
  shows "br_bitmap_set n (take k ws) dst = br"
proof -
  have n: "n = br_num_bits br" "ws = br_bitmap br" "k = (br_num_bits br + 31) div 32"
    using assms(3) by (auto simp: br_bitmap_get_def)
  have wf: "length (br_bitmap br) = 8" "br_num_bits br \<le> 256" using assms(1) by (auto simp: br_wf_def)
  have "k \<le> 8" using n wf by simp
  then have l: "(n + 31) div 32 \<le> length (take k ws)" using n wf by simp
  note s = br_bitmap_set_spec [OF _ l, of dst]
  have "bit_at (take k ws) i = bit_at ws i" if "i < n" for i
  proof -
    have "i div 32 < k" using that n by linarith
    then show ?thesis by (simp add: bit_at_def)
  qed
  then have o: "br_offsets (br_bitmap_set n (take k ws) dst) = br_offsets br"
    using s n wf by (auto simp: br_offsets_def)
  show ?thesis
    using o s n wf assms by (intro bitmap_ext) (auto simp: br_bitmap_set_def Let_def)
qed

theorem bitmap_get_set_round_trip_witness:
  "br_bitmap_set 44 (take 2 (br_bitmap (snd (br_add int_items 50 (br_init int_items 7)))))
     (br_init int_items 7) = snd (br_add int_items 50 (br_init int_items 7))"
proof -
  have "br_bitmap_get (snd (br_add int_items 50 (br_init int_items 7))) =
      (44, br_bitmap (snd (br_add int_items 50 (br_init int_items 7))), 2)"
    by (simp add: br_bitmap_get_def br_add_def br_init_def br_init_max_def int_items_def)
  then show ?thesis
    using bitmap_get_set_round_trip [of "snd (br_add int_items 50 (br_init int_items 7))" 44 _ 2
        "br_init int_items 7"] add_ok_255 [of 7 50] init_ok_255 [of 7]
    by (simp add: br_full_def int_items_add)
qed


text \<open>
  On a non-empty set, \<open>remove(x)\<close> stays within the array and unsets exactly \<open>x\<close>.
\<close>

theorem bitmap_remove_unsets:
  assumes "br_wf br" "br_tight br" "\<not> br_empty br" "br_full int_items br"
  shows "\<exists>br'. br_remove int_items x br = Some br' \<and>
    br_is_set int_items br' y = (br_is_set int_items br y \<and> y \<noteq> x)"
proof -
  obtain br' where b: "br_remove int_items x br = Some br'" "br_wf br'"
    "br_base br' = br_base br" "br_range_max br' = br_range_max br"
    "br_items int_items br' = br_items int_items br - {x}"
    using sn.br_remove_items [OF TrueI assms(1-3), of x] by blast
  then have "br_full int_items br'" using assms(4) by (simp add: br_full_def)
  then show ?thesis using b assms by (auto simp: sn.br_is_set_items)
qed

theorem bitmap_remove_unsets_witness:
  "\<exists>br'. br_remove int_items 50 (snd (br_add int_items 50 (br_init int_items 7))) = Some br' \<and>
     br_is_set int_items br' 50 = False"
  using bitmap_remove_unsets [of "snd (br_add int_items 50 (br_init int_items 7))" 50 50]
    add_ok_255 [of 7 50]
  by simp


text \<open>
  On an empty set, \<open>max()\<close> is \<open>base + (2 ^ 32 - 1)\<close>, so \<open>remove(x)\<close> with
  \<open>base + 256 <= x <= base + 2 ^ 32 - 1\<close> passes the bounds check and clears a bit of a word past the
  end of the array (the model's \<open>None\<close>).
\<close>

theorem bitmap_remove_empty_out_of_bounds:
  assumes "b + 256 \<le> x" "x \<le> b + 4294967295"
  shows "br_remove int_items x (br_init int_items b) = None"
proof -
  have "nat ((x - b) mod 4294967296) = nat (x - b)" using assms by (simp add: mod_pos_pos_trivial)
  moreover have "8 \<le> nat (x - b) div 32" using assms by (simp add: div_le_mono [of 256 _ 32, simplified])
  ultimately show ?thesis using assms
    by (simp add: br_remove_def br_init_def br_init_max_def br_max_def int_items_def Let_def)
qed

theorem bitmap_remove_empty_out_of_bounds_witness:
  "br_remove int_items 300 (br_init int_items 1) = None"
  using bitmap_remove_empty_out_of_bounds [of 1 300] by simp

text \<open>
  C39. Moving the base of an empty set down by less than 256 leaves \<open>num_bits_\<close> positive: no item is
  set, and yet \<open>empty()\<close> answers false.
\<close>

theorem bitmap_base_update_down_not_empty:
  assumes "b < b'" "b' < b + 256"
  shows "\<not> br_empty (bitmap_base_update int_items b (br_init int_items b')) \<and>
    (\<forall>x. \<not> br_is_set int_items (bitmap_base_update int_items b (br_init int_items b')) x)"
proof -
  note i = sn.br_init_ok [where b = b' and k = 255]
  have "br_init int_items b' = br_init_max int_items b' 255" by (simp add: br_init_def)
  then have e: "br_empty (br_init int_items b')" "br_wf (br_init int_items b')" "br_full int_items (br_init int_items b')"
     "br_items int_items (br_init int_items b') = {}" "br_base (br_init int_items b') = b'"
    using i by (auto simp: br_empty_def br_init_max_def)
  note u = sn.bitmap_base_update_items [OF TrueI TrueI e(2), of b]
  have "\<not> br_is_set int_items (bitmap_base_update int_items b (br_init int_items b')) x" for x
    using u e assms by (subst sn.br_is_set_items) auto
  moreover have "br_num_bits (bitmap_base_update int_items b (br_init int_items b')) = nat (b' - b)"
    using assms e(1,5) by (simp add: bitmap_base_update_def shift_map_right_def Let_def int_items_def br_empty_def)
  ultimately show ?thesis using assms by (auto simp: br_empty_def)
qed

theorem bitmap_base_update_down_not_empty_witness:
  "br_empty (bitmap_base_update int_items 5 (br_init int_items 9)) = False"
  using bitmap_base_update_down_not_empty [of 5 9] by simp

end
