(* ===== verification/Guid.thy ===== *)
theory Guid
  imports Prelude
begin

unbundle bit_operations_syntax

text \<open>
  Entity identifiers: \<open>GuidPrefix_t\<close> (12 octets), \<open>EntityId_t\<close> (4 octets) and \<open>GUID_t\<close> of
  \<open>include/fastdds/rtps/common/\<close>, and the host/process tests of
  \<open>src/cpp/rtps/common/GuidPrefix_t.cpp\<close> and \<open>GuidUtils.hpp\<close>. \<open>memcmp\<close> is that of the C library.
  The target is little endian, so the \<open>reverse()\<close> calls are in effect.
\<close>

subsection \<open>Octet arrays\<close>

fun memcmp :: "u8 list \<Rightarrow> u8 list \<Rightarrow> int" where
  "memcmp (x # xs) (y # ys) =
     (if x < y then - 1 else if y < x then 1 else memcmp xs ys)"
| "memcmp _ _ = 0"

datatype GuidPrefix_t = GuidPrefix_t (gp_value: "u8 list")

datatype EntityId_t = EntityId_t (eid_value: "u8 list")

datatype GUID_t = GUID_t (guidPrefix: GuidPrefix_t) (entityId: EntityId_t)

definition c_GuidPrefix_Unknown :: GuidPrefix_t where
  "c_GuidPrefix_Unknown = GuidPrefix_t (replicate 12 0)"

definition guidprefix_eq :: "GuidPrefix_t \<Rightarrow> GuidPrefix_t \<Rightarrow> bool" where
  "guidprefix_eq p q \<longleftrightarrow> memcmp (gp_value p) (gp_value q) = 0"

definition guidprefix_lt :: "GuidPrefix_t \<Rightarrow> GuidPrefix_t \<Rightarrow> bool" where
  "guidprefix_lt p q \<longleftrightarrow> memcmp (gp_value p) (gp_value q) < 0"

definition guidprefix_cmp :: "GuidPrefix_t \<Rightarrow> GuidPrefix_t \<Rightarrow> int" where
  "guidprefix_cmp p q = memcmp (gp_value p) (gp_value q)"

definition is_on_same_host_as :: "GuidPrefix_t \<Rightarrow> GuidPrefix_t \<Rightarrow> bool" where
  "is_on_same_host_as p q \<longleftrightarrow> memcmp (take 4 (gp_value p)) (take 4 (gp_value q)) = 0"

definition is_on_same_process_as :: "GuidPrefix_t \<Rightarrow> GuidPrefix_t \<Rightarrow> bool" where
  "is_on_same_process_as p q \<longleftrightarrow> memcmp (take 8 (gp_value p)) (take 8 (gp_value q)) = 0"

text \<open>
  \<open>EntityId_t(uint32_t)\<close> copies the little endian memory of the number and reverses it;
  \<open>to_uint32\<close> reads the four octets as a little endian number and swaps its bytes.
\<close>

definition u32_le_bytes :: "u32 \<Rightarrow> u8 list" where
  "u32_le_bytes w = [ucast w, ucast (drop_bit 8 w), ucast (drop_bit 16 w), ucast (drop_bit 24 w)]"

definition u32_of_le_bytes :: "u8 list \<Rightarrow> u32" where
  "u32_of_le_bytes bs =
     ucast (bs ! 0) OR push_bit 8 (ucast (bs ! 1)) OR push_bit 16 (ucast (bs ! 2)) OR
     push_bit 24 (ucast (bs ! 3))"

definition eid_reverse :: "EntityId_t \<Rightarrow> EntityId_t" where
  "eid_reverse e =
     (let v = eid_value e; oaux = v ! 3; v = v[3 := v ! 0]; v = v[0 := oaux];
          oaux = v ! 2; v = v[2 := v ! 1]; v = v[1 := oaux]
      in EntityId_t v)"

definition eid_of_u32 :: "u32 \<Rightarrow> EntityId_t" where
  "eid_of_u32 i = eid_reverse (EntityId_t (u32_le_bytes i))"

definition to_uint32 :: "EntityId_t \<Rightarrow> u32" where
  "to_uint32 e =
     (let res = u32_of_le_bytes (eid_value e)
      in drop_bit 24 res OR (0x0000ff00 AND drop_bit 8 res) OR
         (0x00ff0000 AND push_bit 8 res) OR push_bit 24 res)"

definition c_EntityId_Unknown :: EntityId_t where
  "c_EntityId_Unknown = eid_of_u32 0"

definition is_reader :: "EntityId_t \<Rightarrow> bool" where
  "is_reader e \<longleftrightarrow> 4 AND to_uint32 e \<noteq> 0"

definition is_writer :: "EntityId_t \<Rightarrow> bool" where
  "is_writer e \<longleftrightarrow> 2 AND to_uint32 e \<noteq> 0 \<and> \<not> is_reader e"

definition eid_lt :: "EntityId_t \<Rightarrow> EntityId_t \<Rightarrow> bool" where
  "eid_lt a b \<longleftrightarrow> memcmp (eid_value a) (eid_value b) < 0"

definition eid_eq :: "EntityId_t \<Rightarrow> EntityId_t \<Rightarrow> bool" where
  "eid_eq a b \<longleftrightarrow> memcmp (eid_value a) (eid_value b) = 0"

definition eid_hash :: "EntityId_t \<Rightarrow> u64" where
  "eid_hash k = push_bit 16 (ucast (eid_value k ! 0)) OR push_bit 8 (ucast (eid_value k ! 1)) OR
     ucast (eid_value k ! 2)"

definition c_Guid_Unknown :: GUID_t where
  "c_Guid_Unknown = GUID_t c_GuidPrefix_Unknown c_EntityId_Unknown"

definition is_builtin :: "GUID_t \<Rightarrow> bool" where
  "is_builtin g \<longleftrightarrow> eid_value (entityId g) ! 3 \<ge> 0xC0"

definition guid_eq :: "GUID_t \<Rightarrow> GUID_t \<Rightarrow> bool" where
  "guid_eq g1 g2 =
     (if guidprefix_eq (guidPrefix g1) (guidPrefix g2) \<and> eid_eq (entityId g1) (entityId g2)
      then True else False)"

definition guid_lt :: "GUID_t \<Rightarrow> GUID_t \<Rightarrow> bool" where
  "guid_lt g1 g2 =
     (let prefix_cmp = guidprefix_cmp (guidPrefix g1) (guidPrefix g2)
      in if prefix_cmp < 0 then True
         else if prefix_cmp > 0 then False
         else eid_lt (entityId g1) (entityId g2))"

text \<open>\<open>GuidUtils::guid_prefix_create\<close>: the process part and the participant id, little endian.\<close>

definition guid_prefix_create :: "GuidPrefix_t \<Rightarrow> u32 \<Rightarrow> GuidPrefix_t" where
  "guid_prefix_create prefix participant_id =
     GuidPrefix_t (take 8 (gp_value prefix) @ u32_le_bytes participant_id)"

text \<open>
  \<open>RTPSDomainImpl::should_intraprocess_between\<close>; the library setting it reads is an argument.
\<close>

datatype IntraprocessDeliveryType =
  INTRAPROCESS_OFF | INTRAPROCESS_USER_DATA_ONLY | INTRAPROCESS_FULL

definition c_EntityId_SPDPWriter :: EntityId_t where
  "c_EntityId_SPDPWriter = eid_of_u32 0x000100c2"

definition c_EntityId_SPDPReader :: EntityId_t where
  "c_EntityId_SPDPReader = eid_of_u32 0x000100c7"

definition should_intraprocess_between ::
  "IntraprocessDeliveryType \<Rightarrow> GUID_t \<Rightarrow> GUID_t \<Rightarrow> bool" where
  "should_intraprocess_between setting local_guid matched_guid =
     (if \<not> is_on_same_process_as (guidPrefix local_guid) (guidPrefix matched_guid) then False
      else if eid_eq (entityId local_guid) c_EntityId_SPDPWriter \<or>
              eid_eq (entityId local_guid) c_EntityId_SPDPReader then False
      else case setting of
             INTRAPROCESS_FULL \<Rightarrow> True
           | INTRAPROCESS_USER_DATA_ONLY \<Rightarrow> \<not> is_builtin matched_guid
           | INTRAPROCESS_OFF \<Rightarrow> False)"

text \<open>The sizes of the arrays are invariants of the C++ types.\<close>

definition guid_wf :: "GUID_t \<Rightarrow> bool" where
  "guid_wf g \<longleftrightarrow> length (gp_value (guidPrefix g)) = 12 \<and> length (eid_value (entityId g)) = 4"

subsection \<open>Laws\<close>

lemma memcmp_eq: "length a = length b \<Longrightarrow> memcmp a b = 0 \<longleftrightarrow> a = b"
  by (induction a b rule: memcmp.induct) auto

lemma memcmp_refl [simp]: "memcmp a a = 0"
  by (simp add: memcmp_eq)

lemma memcmp_neg: "length a = length b \<Longrightarrow> memcmp b a = - memcmp a b"
  by (induction a b rule: memcmp.induct) auto

lemma memcmp_trans:
  "\<lbrakk>length a = length b; length b = length c; memcmp a b < 0; memcmp b c < 0\<rbrakk> \<Longrightarrow> memcmp a c < 0"
proof (induction a b arbitrary: c rule: memcmp.induct)
  case (1 x xs y ys)
  then obtain z zs where "c = z # zs" by (cases c) auto
  with 1 show ?case by (auto split: if_splits)
qed simp_all

lemma guid_eq_iff: "guid_wf g \<Longrightarrow> guid_wf h \<Longrightarrow> guid_eq g h \<longleftrightarrow> g = h"
  by (auto simp: guid_eq_def guidprefix_eq_def eid_eq_def guid_wf_def memcmp_eq
      GUID_t.expand GuidPrefix_t.expand EntityId_t.expand)

lemma same_process_host:
  assumes "length (gp_value p) = 12" "length (gp_value q) = 12" "is_on_same_process_as p q"
  shows "is_on_same_host_as p q"
proof -
  have "take 8 (gp_value p) = take 8 (gp_value q)"
    using assms by (simp add: is_on_same_process_as_def memcmp_eq)
  then have "take 4 (take 8 (gp_value p)) = take 4 (take 8 (gp_value q))" by simp
  then show ?thesis using assms by (simp add: is_on_same_host_as_def memcmp_eq)
qed

lemma u8_ucast: "bit (ucast (w :: u32) :: u8) n \<longleftrightarrow> n < 8 \<and> bit w n"
  by (simp add: bit_ucast_iff)

lemma eid_of_u32_value:
  "eid_value (eid_of_u32 w) =
     [ucast (drop_bit 24 w), ucast (drop_bit 16 w), ucast (drop_bit 8 w), ucast w]"
  by (simp add: eid_of_u32_def eid_reverse_def u32_le_bytes_def Let_def)

lemma u32_bytes_round_trip: "u32_of_le_bytes (u32_le_bytes w) = w"
proof (rule bit_word_eqI)
  fix n assume "n < LENGTH(32)"
  then have "n < 32" by simp
  then have "n < 8 \<or> 8 \<le> n \<and> n < 16 \<or> 16 \<le> n \<and> n < 24 \<or> 24 \<le> n \<and> n < 32" by linarith
  then show "bit (u32_of_le_bytes (u32_le_bytes w)) n = bit w n"
    by (elim disjE) (auto simp: u32_of_le_bytes_def u32_le_bytes_def bit_or_iff bit_push_bit_iff bit_ucast_iff bit_drop_bit_eq)
qed

lemma u32_le_bytes_inj: "u32_le_bytes v = u32_le_bytes w \<Longrightarrow> v = w"
  by (metis u32_bytes_round_trip)

lemma to_uint32_bytes: "to_uint32 (EntityId_t [a, b, c, d]) = u32_of_le_bytes [d, c, b, a]"
proof (rule bit_word_eqI)
  fix n assume "n < LENGTH(32)"
  then have "n < 32" by simp
  then have "n < 8 \<or> 8 \<le> n \<and> n < 16 \<or> 16 \<le> n \<and> n < 24 \<or> 24 \<le> n \<and> n < 32" by linarith
  moreover have f0: "bit (0x0000ff00 :: u32) n \<longleftrightarrow> 8 \<le> n \<and> n < 16"
  proof -
    have eq: "(0x0000ff00 :: u32) = push_bit 8 (mask 8)" by (simp add: mask_eq_exp_minus_1)
    show ?thesis unfolding eq using \<open>n < 32\<close> by (auto simp: bit_push_bit_iff bit_mask_iff)
  qed
  moreover have f1: "bit (0x00ff0000 :: u32) n \<longleftrightarrow> 16 \<le> n \<and> n < 24"
  proof -
    have eq: "(0x00ff0000 :: u32) = push_bit 16 (mask 8)" by (simp add: mask_eq_exp_minus_1)
    show ?thesis unfolding eq using \<open>n < 32\<close> by (auto simp: bit_push_bit_iff bit_mask_iff)
  qed
  ultimately show "bit (to_uint32 (EntityId_t [a, b, c, d])) n = bit (u32_of_le_bytes [d, c, b, a]) n"
    by (elim disjE) (auto simp: to_uint32_def Let_def u32_of_le_bytes_def bit_or_iff bit_and_iff bit_push_bit_iff bit_ucast_iff bit_drop_bit_eq
         dest: bit_imp_le_length)
qed

subsection \<open>Properties\<close>

text \<open>
  C36. The operator \<open><\<close> of \<open>GUID_t\<close>, used as the key order of the maps of proxies, is a strict total order
  on identifiers of the right size, and \<open>==\<close> is equality.
\<close>

theorem guid_lt_strict_total:
  assumes "guid_wf g" "guid_wf h" "guid_wf k"
  shows "\<not> guid_lt g g \<and> (guid_lt g h \<and> guid_lt h k \<longrightarrow> guid_lt g k) \<and>
    (guid_lt g h \<or> guid_lt h g \<or> guid_eq g h) \<and> (guid_eq g h \<longleftrightarrow> g = h)"
proof -
  have l: "length (gp_value (guidPrefix g)) = length (gp_value (guidPrefix h))"
    "length (gp_value (guidPrefix h)) = length (gp_value (guidPrefix k))"
    "length (eid_value (entityId g)) = length (eid_value (entityId h))"
    "length (eid_value (entityId h)) = length (eid_value (entityId k))"
    using assms by (auto simp: guid_wf_def)
  note m = memcmp_neg [OF l(1)] memcmp_neg [OF l(3)] memcmp_neg [OF l(2)] memcmp_neg [OF l(4)]
  note e = memcmp_eq [OF l(1)] memcmp_eq [OF l(2)] memcmp_eq [OF l(3)]
  have "guid_lt g h \<Longrightarrow> guid_lt h k \<Longrightarrow> guid_lt g k"
    using memcmp_trans [OF l(1,2)] memcmp_trans [OF l(3,4)] e
    by (auto simp: guid_lt_def guidprefix_cmp_def eid_lt_def Let_def not_less
        order.order_iff_strict split: if_splits)
  moreover have "guid_lt g h \<or> guid_lt h g \<or> guid_eq g h"
    using m by (auto simp: guid_lt_def guidprefix_cmp_def eid_lt_def guid_eq_def guidprefix_eq_def
        eid_eq_def Let_def)
  moreover have "\<not> guid_lt g g"
    by (simp add: guid_lt_def guidprefix_cmp_def eid_lt_def Let_def)
  ultimately show ?thesis using assms by (simp add: guid_eq_iff)
qed

theorem guid_lt_strict_total_witness:
  "\<not> guid_lt c_Guid_Unknown c_Guid_Unknown"
  using guid_lt_strict_total [of c_Guid_Unknown c_Guid_Unknown c_Guid_Unknown]
  by (simp add: guid_wf_def c_Guid_Unknown_def c_GuidPrefix_Unknown_def c_EntityId_Unknown_def
      eid_of_u32_value)

text \<open>
  C37. An entity id built from a number gives that number back, whatever the byte order games in between,
  and no id is both a reader's and a writer's.
\<close>

theorem eid_u32_round_trip:
  "to_uint32 (eid_of_u32 w) = w \<and> \<not> (is_reader e \<and> is_writer e)"
proof -
  have "to_uint32 (eid_of_u32 w) = u32_of_le_bytes (u32_le_bytes w)"
    using to_uint32_bytes eid_of_u32_value [of w] by (metis EntityId_t.collapse u32_le_bytes_def)
  then show ?thesis by (simp add: u32_bytes_round_trip is_writer_def)
qed

text \<open>
  Participants of one process get distinct prefixes for distinct ids, and are recognised as being on
  the same process and host.
\<close>

theorem guid_prefix_create_process:
  assumes "length (gp_value prefix) = 12"
  shows "is_on_same_process_as (guid_prefix_create prefix i) (guid_prefix_create prefix j) \<and>
    is_on_same_host_as (guid_prefix_create prefix i) (guid_prefix_create prefix j) \<and>
    (guid_prefix_create prefix i = guid_prefix_create prefix j \<longleftrightarrow> i = j)"
  using assms u32_le_bytes_inj [of i j]
  by (auto simp: is_on_same_process_as_def is_on_same_host_as_def guid_prefix_create_def memcmp_eq)

theorem guid_prefix_create_process_witness:
  "guid_prefix_create c_GuidPrefix_Unknown 1 \<noteq> guid_prefix_create c_GuidPrefix_Unknown 2"
  using guid_prefix_create_process [of c_GuidPrefix_Unknown 1 2]
  by (simp add: c_GuidPrefix_Unknown_def)

end
