(* ===== verification/WriterProxy.thy ===== *)
theory WriterProxy
  imports BitmapLaws Guid
begin

text \<open>
  \<open>src/cpp/rtps/reader/WriterProxy.cpp\<close>: what a reliable reader knows of one matched writer. All
  changes up to \<open>changes_from_writer_low_mark\<close> are settled (received, irrelevant or lost),
  \<open>changes_received\<close> (a \<open>std::set\<close>, here an ascending list) holds the ones received above it, and
  \<open>max_sequence_number\<close> is the highest number the writer has announced. Sequence numbers are the
  integers the struct stands for (see \<open>SequenceNumber\<close>); \<open>uint64_t\<close> and \<open>int32_t\<close> arithmetic is
  written out. A \<open>TimedEvent\<close> is its interval, in microseconds, and whether it is armed. The two
  atomic exchanges on \<open>state_\<close> and the sending they enclose are separate operations, so that a
  \<open>stop\<close> may fall in between.

  The lemmas show the invariant \<open>wp_inv\<close>, that every operation acts on the settled set
  \<open>wp_received\<close> as its name says, that the number of lost samples is exact, and that the bitmap of
  an ACKNACK asks for exactly the missing changes of its window.
\<close>

subsection \<open>State\<close>

datatype StateCode = IDLE | BUSY | STOPPED

record TimedEvent =
  te_interval :: int
  te_armed :: bool

record 'loc WriterProxyData =
  wd_guid :: GUID_t
  wd_persistence_guid :: GUID_t
  wd_ownership_strength :: nat
  wd_liveliness_kind :: nat
  wd_unicast :: "'loc list"
  wd_multicast :: "'loc list"

record 'loc WriterProxy =
  heartbeat_response :: TimedEvent
  initial_acknack :: TimedEvent
  last_heartbeat_count :: nat
  heartbeat_final_flag :: bool
  wp_is_alive :: bool
  changes_received :: "int list"
  changes_from_writer_low_mark :: int
  max_sequence_number :: int
  last_notified :: int
  guid_as_vector :: "GUID_t list"
  guid_prefix_as_vector :: "GuidPrefix_t list"
  wp_is_on_same_process :: bool
  ownership_strength :: nat
  liveliness_kind :: nat
  persistence_guid :: GUID_t
  remote_guid :: GUID_t
  wp_unicast :: "'loc list"
  wp_multicast :: "'loc list"
  is_datasharing_writer :: bool
  received_at_least_one_heartbeat :: bool
  wp_state :: StateCode

definition restart_timer :: "TimedEvent \<Rightarrow> TimedEvent" where
  "restart_timer t = t\<lparr>te_armed := True\<rparr>"

definition cancel_timer :: "TimedEvent \<Rightarrow> TimedEvent" where
  "cancel_timer t = t\<lparr>te_armed := False\<rparr>"

text \<open>\<open>SequenceNumber_t::unknown()\<close> as an integer, and the wrap-around of \<open>to64long\<close>.\<close>

definition SN_UNKNOWN :: int where "SN_UNKNOWN = - 4294967296"

definition u64_of :: "int \<Rightarrow> int" where "u64_of x = x mod 18446744073709551616"

definition int32_cap :: "int \<Rightarrow> int" where
  "int32_cap tmp = (if tmp > 2147483647 then 2147483647 else tmp)"

subsection \<open>Operations\<close>

definition loaded_from_storage :: "int \<Rightarrow> 'loc WriterProxy \<Rightarrow> 'loc WriterProxy" where
  "loaded_from_storage seq_num wp = wp\<lparr>last_notified := seq_num,
     changes_from_writer_low_mark := seq_num, max_sequence_number := seq_num\<rparr>"

definition wp_clear :: "'loc WriterProxy \<Rightarrow> 'loc WriterProxy" where
  "wp_clear wp = loaded_from_storage 0 (wp\<lparr>wp_is_alive := False, wp_unicast := [],
     wp_multicast := [], remote_guid := c_Guid_Unknown, last_heartbeat_count := 0,
     heartbeat_final_flag := False, guid_as_vector := [], guid_prefix_as_vector := [],
     changes_received := [], wp_is_on_same_process := False\<rparr>)"

definition wp_init :: "'loc WriterProxy" where
  "wp_init = wp_clear \<lparr>heartbeat_response = \<lparr>te_interval = 0, te_armed = False\<rparr>,
     initial_acknack = \<lparr>te_interval = 0, te_armed = False\<rparr>, last_heartbeat_count = 0,
     heartbeat_final_flag = False, wp_is_alive = False, changes_received = [],
     changes_from_writer_low_mark = 0, max_sequence_number = 0, last_notified = 0,
     guid_as_vector = [], guid_prefix_as_vector = [], wp_is_on_same_process = False,
     ownership_strength = 0, liveliness_kind = 0, persistence_guid = c_Guid_Unknown,
     remote_guid = c_Guid_Unknown, wp_unicast = [], wp_multicast = [],
     is_datasharing_writer = False, received_at_least_one_heartbeat = False, wp_state = STOPPED\<rparr>"

text \<open>
  \<open>start\<close>: the intervals, the intraprocess setting, the reader's GUID and
  \<open>filter_remote_locators\<close> (with the reader's external locators applied) are arguments.
\<close>

definition wp_start ::
  "int \<Rightarrow> int \<Rightarrow> IntraprocessDeliveryType \<Rightarrow> GUID_t \<Rightarrow> ('loc list \<Rightarrow> 'loc list) \<Rightarrow>
   'loc WriterProxyData \<Rightarrow> int \<Rightarrow> bool \<Rightarrow> 'loc WriterProxy \<Rightarrow> 'loc WriterProxy" where
  "wp_start hb_delay ack_delay setting reader_guid filter_locators attributes initial_sequence
     is_datasharing wp =
     (let wp = wp\<lparr>heartbeat_response := (heartbeat_response wp)\<lparr>te_interval := hb_delay\<rparr>,
            initial_acknack := (initial_acknack wp)\<lparr>te_interval := ack_delay\<rparr>,
            remote_guid := wd_guid attributes,
            guid_as_vector := guid_as_vector wp @ [wd_guid attributes],
            guid_prefix_as_vector :=
              guid_prefix_as_vector wp @ [guidPrefix (wd_guid attributes)],
            persistence_guid := wd_persistence_guid attributes,
            wp_is_alive := True,
            wp_is_on_same_process :=
              should_intraprocess_between setting reader_guid (wd_guid attributes),
            ownership_strength := wd_ownership_strength attributes,
            liveliness_kind := wd_liveliness_kind attributes,
            wp_unicast := filter_locators (wd_unicast attributes),
            wp_multicast := wd_multicast attributes,
            is_datasharing_writer := is_datasharing,
            wp_state := IDLE\<rparr>;
          wp = wp\<lparr>initial_acknack := restart_timer (initial_acknack wp)\<rparr>;
          wp = loaded_from_storage initial_sequence wp
      in wp\<lparr>received_at_least_one_heartbeat := False\<rparr>)"

text \<open>\<open>update\<close> asserts that the proxy is alive.\<close>

definition wp_update ::
  "('loc list \<Rightarrow> 'loc list) \<Rightarrow> 'loc WriterProxyData \<Rightarrow> 'loc WriterProxy \<Rightarrow> 'loc WriterProxy option"
  where
  "wp_update filter_locators attributes wp =
     (if wp_is_alive wp
      then Some (wp\<lparr>ownership_strength := wd_ownership_strength attributes,
                    wp_unicast := filter_locators (wd_unicast attributes),
                    wp_multicast := wd_multicast attributes\<rparr>)
      else None)"

text \<open>\<open>stop\<close>: both branches on the previous state leave the timers disarmed.\<close>

definition wp_stop :: "'loc WriterProxy \<Rightarrow> 'loc WriterProxy" where
  "wp_stop wp =
     (let prev_code = wp_state wp; wp = wp\<lparr>wp_state := STOPPED\<rparr>;
          wp = (if prev_code = BUSY
                then wp\<lparr>initial_acknack := (initial_acknack wp)\<lparr>te_armed := False\<rparr>\<rparr>
                else wp\<lparr>initial_acknack := cancel_timer (initial_acknack wp)\<rparr>);
          wp = wp\<lparr>heartbeat_response := cancel_timer (heartbeat_response wp)\<rparr>
      in wp_clear wp)"

definition missing_changes_update :: "int \<Rightarrow> 'loc WriterProxy \<Rightarrow> 'loc WriterProxy" where
  "missing_changes_update seq_num wp =
     (if seq_num > changes_from_writer_low_mark wp
      then if seq_num > max_sequence_number wp then wp\<lparr>max_sequence_number := seq_num\<rparr> else wp
      else wp)"

text \<open>\<open>cleanup\<close>: the low mark runs over the consecutive received changes, which are erased.\<close>

fun cleanup_loop :: "int \<Rightarrow> int list \<Rightarrow> int \<times> int list" where
  "cleanup_loop low_mark [] = (low_mark, [])"
| "cleanup_loop low_mark (c # cs) =
     (if c = low_mark + 1 then cleanup_loop (low_mark + 1) cs else (low_mark, c # cs))"

definition cleanup :: "'loc WriterProxy \<Rightarrow> 'loc WriterProxy" where
  "cleanup wp =
     (let (low_mark, rest) = cleanup_loop (changes_from_writer_low_mark wp) (changes_received wp)
      in wp\<lparr>changes_from_writer_low_mark := low_mark, changes_received := rest\<rparr>)"

definition lost_changes_update :: "int \<Rightarrow> 'loc WriterProxy \<Rightarrow> int \<times> 'loc WriterProxy" where
  "lost_changes_update seq_num wp =
     (let low_mark = changes_from_writer_low_mark wp; received = changes_received wp
      in if seq_num > low_mark + 1
         then
           let before = takeWhile (\<lambda>c. c < seq_num) received;
               from_it = dropWhile (\<lambda>c. c < seq_num) received;
               current_sample_lost =
                 (case received of
                    first # _ \<Rightarrow>
                      let tmp = u64_of (u64_of first - (u64_of low_mark + 1));
                          distance = int (length before);
                          tmp = u64_of (tmp + (u64_of seq_num - u64_of first - distance))
                      in int32_cap tmp
                  | [] \<Rightarrow> int32_cap (u64_of (u64_of seq_num - (u64_of low_mark + 1))));
               wp = wp\<lparr>changes_received := from_it, changes_from_writer_low_mark := seq_num - 1\<rparr>;
               wp = (if changes_from_writer_low_mark wp > max_sequence_number wp
                     then wp\<lparr>max_sequence_number := changes_from_writer_low_mark wp\<rparr> else wp)
           in (current_sample_lost, cleanup wp)
         else (0, wp))"

definition received_change_set_rel :: "int \<Rightarrow> 'loc WriterProxy \<Rightarrow> bool \<times> 'loc WriterProxy" where
  "received_change_set_rel seq_num wp =
     (let low_mark = changes_from_writer_low_mark wp
      in if seq_num \<le> low_mark then (False, wp)
         else if seq_num > max_sequence_number wp
         then
           let wp = (if seq_num = low_mark + 1 then wp\<lparr>changes_from_writer_low_mark := seq_num\<rparr>
                     else wp\<lparr>changes_received := insort_insert seq_num (changes_received wp)\<rparr>)
           in (True, wp\<lparr>max_sequence_number := seq_num\<rparr>)
         else if low_mark + 1 = seq_num
         then (True, cleanup (wp\<lparr>changes_from_writer_low_mark := seq_num\<rparr>))
         else if seq_num \<in> set (changes_received wp) then (False, wp)
         else (True, wp\<lparr>changes_received := insort_insert seq_num (changes_received wp)\<rparr>))"

definition received_change_set :: "int \<Rightarrow> 'loc WriterProxy \<Rightarrow> bool \<times> 'loc WriterProxy" where
  "received_change_set seq_num wp = received_change_set_rel seq_num wp"

definition irrelevant_change_set :: "int \<Rightarrow> 'loc WriterProxy \<Rightarrow> bool \<times> 'loc WriterProxy" where
  "irrelevant_change_set seq_num wp = received_change_set_rel seq_num wp"

text \<open>The loop of \<open>missing_changes\<close>, with its \<open>break\<close>; it returns the set and \<open>first_missing\<close>.\<close>

fun missing_loop ::
  "int \<Rightarrow> int list \<Rightarrow> int BitmapRange \<times> int \<Rightarrow> int BitmapRange \<times> int" where
  "missing_loop max_missing [] (sns, first_missing) = (sns, first_missing)"
| "missing_loop max_missing (c # cs) (sns, first_missing) =
     (let seq = min c max_missing;
          sns = br_add_range int_items first_missing seq sns;
          first_missing = seq + 1
      in if first_missing \<ge> max_missing then (sns, first_missing)
         else missing_loop max_missing cs (sns, first_missing))"

definition missing_changes :: "'loc WriterProxy \<Rightarrow> int BitmapRange" where
  "missing_changes wp =
     (let first_missing = changes_from_writer_low_mark wp + 1;
          max_missing = min (first_missing + 256) (max_sequence_number wp + 1);
          sns = br_init int_items first_missing;
          (sns, first_missing) =
            missing_loop max_missing (changes_received wp) (sns, first_missing)
      in if first_missing < max_missing
         then br_add_range int_items first_missing max_missing sns else sns)"

definition change_was_received :: "int \<Rightarrow> 'loc WriterProxy \<Rightarrow> bool" where
  "change_was_received seq_num wp =
     (if seq_num \<le> changes_from_writer_low_mark wp then True
      else seq_num \<in> set (changes_received wp))"

definition available_changes_max :: "'loc WriterProxy \<Rightarrow> int" where
  "available_changes_max wp = changes_from_writer_low_mark wp"

definition are_there_missing_changes :: "'loc WriterProxy \<Rightarrow> bool" where
  "are_there_missing_changes wp \<longleftrightarrow> changes_from_writer_low_mark wp < max_sequence_number wp"

text \<open>\<open>returnedValue\<close> is a \<open>uint32_t\<close>: sums and differences are taken modulo \<open>2 ^ 32\<close>.\<close>

fun unknown_missing_loop :: "int \<Rightarrow> int list \<Rightarrow> int \<times> int \<Rightarrow> int \<times> int" where
  "unknown_missing_loop seq_num [] (ret, first_missing) = (ret, first_missing)"
| "unknown_missing_loop seq_num (c # cs) (ret, first_missing) =
     (let seq = min c seq_num;
          ret = (if first_missing < seq
                 then (ret + (seq - first_missing) mod 4294967296) mod 4294967296 else ret);
          first_missing = seq + 1
      in if first_missing \<ge> seq_num then (ret, first_missing)
         else unknown_missing_loop seq_num cs (ret, first_missing))"

definition unknown_missing_changes_up_to :: "int \<Rightarrow> 'loc WriterProxy \<Rightarrow> int" where
  "unknown_missing_changes_up_to seq_num wp =
     (if seq_num > changes_from_writer_low_mark wp
      then
        let (ret, first_missing) = unknown_missing_loop seq_num (changes_received wp)
                                     (0, changes_from_writer_low_mark wp + 1)
        in if first_missing < seq_num
           then (ret + (seq_num - first_missing) mod 4294967296) mod 4294967296 else ret
      else 0)"

definition number_of_changes_from_writer :: "'loc WriterProxy \<Rightarrow> int" where
  "number_of_changes_from_writer wp =
     (if max_sequence_number wp > changes_from_writer_low_mark wp
      then (max_sequence_number wp - changes_from_writer_low_mark wp) mod 4294967296 else 0)"

definition next_cache_change_to_be_notified :: "'loc WriterProxy \<Rightarrow> int \<times> 'loc WriterProxy" where
  "next_cache_change_to_be_notified wp =
     (if last_notified wp < changes_from_writer_low_mark wp
      then (last_notified wp + 1, wp\<lparr>last_notified := last_notified wp + 1\<rparr>)
      else (SN_UNKNOWN, wp))"

text \<open>
  The two timer callbacks. The first exchange fails when the proxy is not \<open>IDLE\<close>; the last one
  does not overwrite a \<open>STOPPED\<close> stored meanwhile.
\<close>

definition wp_begin_event :: "'loc WriterProxy \<Rightarrow> 'loc WriterProxy option" where
  "wp_begin_event wp = (if wp_state wp = IDLE then Some (wp\<lparr>wp_state := BUSY\<rparr>) else None)"

definition wp_end_event :: "'loc WriterProxy \<Rightarrow> 'loc WriterProxy" where
  "wp_end_event wp = (if wp_state wp = BUSY then wp\<lparr>wp_state := IDLE\<rparr> else wp)"

datatype wp_action = SendInitialAckNack | LocalProcessAckNack | SendAckNack bool

text \<open>The body of \<open>perform_initial_ack_nack\<close>: actions, whether to restart the timer, new state.\<close>

definition initial_ack_nack_body ::
  "'loc WriterProxy \<Rightarrow> wp_action list \<times> bool \<times> 'loc WriterProxy" where
  "initial_ack_nack_body wp =
     (if \<not> is_datasharing_writer wp
      then if wp_is_on_same_process wp then ([LocalProcessAckNack], False, wp)
           else if 0 = last_heartbeat_count wp
           then let time_us = te_interval (initial_acknack wp)
                in if time_us < 60 * 60 * 1000 * 1000
                   then ([SendInitialAckNack], True,
                     wp\<lparr>initial_acknack := (initial_acknack wp)\<lparr>te_interval := time_us * 2\<rparr>\<rparr>)
                   else ([SendInitialAckNack], False, wp)
           else ([], False, wp)
      else ([], False, wp))"

definition heartbeat_response_body :: "'loc WriterProxy \<Rightarrow> wp_action list" where
  "heartbeat_response_body wp = [SendAckNack (heartbeat_final_flag wp)]"

record 'loc heartbeat_result =
  hb_processed :: bool
  hb_assert_liveliness :: bool
  hb_sample_lost :: int
  hb_proxy :: "'loc WriterProxy"

text \<open>\<open>current_sample_lost\<close> is an output that an ignored heartbeat leaves as the caller set it.\<close>

definition wp_process_heartbeat ::
  "nat \<Rightarrow> int \<Rightarrow> int \<Rightarrow> bool \<Rightarrow> bool \<Rightarrow> bool \<Rightarrow> int \<Rightarrow> 'loc WriterProxy \<Rightarrow> 'loc heartbeat_result" where
  "wp_process_heartbeat count first_seq last_seq final_flag liveliness_flag disable_positive
     sample_lost_in wp =
     (if wp_state wp \<noteq> STOPPED \<and> last_heartbeat_count wp < count
      then
        let wp = wp\<lparr>last_heartbeat_count := count\<rparr>;
            (current_sample_lost, wp) = lost_changes_update first_seq wp;
            wp = missing_changes_update last_seq wp;
            wp = wp\<lparr>heartbeat_final_flag := final_flag\<rparr>;
            (assert_liveliness, wp) =
              (if \<not> wp_is_on_same_process wp
               then if \<not> final_flag
                    then if \<not> disable_positive \<or> are_there_missing_changes wp
                         then (False,
                           wp\<lparr>heartbeat_response := restart_timer (heartbeat_response wp)\<rparr>)
                         else (False, wp)
                    else if final_flag \<and> \<not> liveliness_flag
                    then if are_there_missing_changes wp
                         then (False,
                           wp\<lparr>heartbeat_response := restart_timer (heartbeat_response wp)\<rparr>)
                         else (False, wp)
                    else (liveliness_flag, wp)
               else (liveliness_flag, wp));
            (current_sample_lost, wp) =
              (if \<not> received_at_least_one_heartbeat wp
               then (0, wp\<lparr>received_at_least_one_heartbeat := True\<rparr>)
               else (current_sample_lost, wp))
        in \<lparr>hb_processed = True, hb_assert_liveliness = assert_liveliness,
            hb_sample_lost = current_sample_lost, hb_proxy = wp\<rparr>
      else \<lparr>hb_processed = False, hb_assert_liveliness = False,
            hb_sample_lost = sample_lost_in, hb_proxy = wp\<rparr>)"

subsection \<open>Abstraction and invariants\<close>

definition wp_inv :: "'loc WriterProxy \<Rightarrow> bool" where
  "wp_inv wp \<longleftrightarrow> sorted_wrt (<) (changes_received wp) \<and>
     (\<forall>c\<in>set (changes_received wp).
        changes_from_writer_low_mark wp + 1 < c \<and> c \<le> max_sequence_number wp) \<and>
     changes_from_writer_low_mark wp \<le> max_sequence_number wp \<and>
     last_notified wp \<le> changes_from_writer_low_mark wp"

definition wp_received :: "'loc WriterProxy \<Rightarrow> int set" where
  "wp_received wp = {s. s \<le> changes_from_writer_low_mark wp} \<union> set (changes_received wp)"

definition wp_pre :: "'loc WriterProxy \<Rightarrow> bool" where
  "wp_pre wp \<longleftrightarrow> sorted_wrt (<) (changes_received wp) \<and>
     (\<forall>c\<in>set (changes_received wp).
        changes_from_writer_low_mark wp < c \<and> c \<le> max_sequence_number wp) \<and>
     changes_from_writer_low_mark wp \<le> max_sequence_number wp \<and>
     last_notified wp \<le> changes_from_writer_low_mark wp"

definition wp_missing :: "'loc WriterProxy \<Rightarrow> int set" where
  "wp_missing wp = {s. changes_from_writer_low_mark wp < s \<and> s \<le> max_sequence_number wp \<and> s \<notin> wp_received wp}"

text \<open>
  The life of a proxy as the reader drives it. \<open>start\<close> is called on a proxy taken from the pool,
  the message handlers on a started one; the two atomic exchanges of a timer callback are steps of
  their own, so a \<open>stop\<close> may come between them.
\<close>

inductive wp_reach :: "'loc WriterProxy \<Rightarrow> bool" where
  init: "wp_reach wp_init"
| start: "wp_reach wp \<Longrightarrow> \<not> wp_is_alive wp \<Longrightarrow>
    wp_reach (wp_start hb_delay ack_delay setting rguid flt attributes s shm wp)"
| update: "wp_reach wp \<Longrightarrow> wp_update flt attributes wp = Some wp' \<Longrightarrow> wp_reach wp'"
| stop: "wp_reach wp \<Longrightarrow> wp_reach (wp_stop wp)"
| received: "wp_reach wp \<Longrightarrow> wp_is_alive wp \<Longrightarrow> wp_reach (snd (received_change_set s wp))"
| irrelevant: "wp_reach wp \<Longrightarrow> wp_is_alive wp \<Longrightarrow> wp_reach (snd (irrelevant_change_set s wp))"
| lost: "wp_reach wp \<Longrightarrow> wp_is_alive wp \<Longrightarrow> wp_reach (snd (lost_changes_update s wp))"
| heartbeat: "wp_reach wp \<Longrightarrow> wp_is_alive wp \<Longrightarrow>
    wp_reach (hb_proxy (wp_process_heartbeat count fs ls ff lf dis lost_in wp))"
| notify: "wp_reach wp \<Longrightarrow> wp_is_alive wp \<Longrightarrow>
    wp_reach (snd (next_cache_change_to_be_notified wp))"
| begin_event: "wp_reach wp \<Longrightarrow> wp_begin_event wp = Some wp' \<Longrightarrow> wp_reach wp'"
| initial_ack: "wp_reach wp \<Longrightarrow> wp_reach (snd (snd (initial_ack_nack_body wp)))"
| end_event: "wp_reach wp \<Longrightarrow> wp_reach (wp_end_event wp)"

text \<open>The counters of a proxy after a heartbeat that is not ignored.\<close>

definition heartbeat_core :: "nat \<Rightarrow> int \<Rightarrow> int \<Rightarrow> 'loc WriterProxy \<Rightarrow> 'loc WriterProxy" where
  "heartbeat_core count first_seq last_seq wp =
     missing_changes_update last_seq
       (snd (lost_changes_update first_seq (wp\<lparr>last_heartbeat_count := count\<rparr>)))"

subsection \<open>Laws\<close>

lemma change_was_received_iff: "change_was_received s wp \<longleftrightarrow> s \<in> wp_received wp"
  by (auto simp: change_was_received_def wp_received_def)

lemma cleanup_loop_spec:
  assumes "sorted_wrt (<) cs" "\<forall>c\<in>set cs. lo < c" "cleanup_loop lo cs = (lo', cs')"
  shows "lo \<le> lo' \<and> sorted_wrt (<) cs' \<and> (\<forall>c\<in>set cs'. lo' + 1 < c) \<and> set cs' \<subseteq> set cs \<and>
    (lo' = lo \<or> lo' \<in> set cs) \<and> {s. s \<le> lo'} \<union> set cs' = {s. s \<le> lo} \<union> set cs"
  using assms
proof (induction lo cs rule: cleanup_loop.induct)
  case (2 lo c cs)
  show ?case
  proof (cases "c = lo + 1")
    case True
    then show ?thesis using 2 by (auto 0 3)
  next
    case False
    then have "lo' = lo" "cs' = c # cs" using 2(4) by auto
    moreover have c: "lo + 1 < c" using False 2(3) by auto
    moreover have "\<forall>d\<in>set cs. c < d" using 2(2) by simp
    then have "\<forall>d\<in>set cs. lo + 1 < d" using c by (meson less_trans)
    ultimately show ?thesis using 2(2) by simp
  qed
qed auto

lemma insort_insert_strict: "sorted_wrt (<) xs \<Longrightarrow> sorted_wrt (<) (insort_insert (x::int) xs)"
  by (simp add: strict_sorted_iff sorted_insort_insert distinct_insort_insert)

lemma cleanup_inv:
  assumes "wp_pre wp"
  shows "wp_inv (cleanup wp)" "wp_received (cleanup wp) = wp_received wp"
    "changes_from_writer_low_mark wp \<le> changes_from_writer_low_mark (cleanup wp)"
    "max_sequence_number (cleanup wp) = max_sequence_number wp"
    "last_notified (cleanup wp) = last_notified wp"
proof -
  obtain l r where c: "cleanup_loop (changes_from_writer_low_mark wp) (changes_received wp) = (l, r)"
    by (metis surj_pair)
  have "sorted_wrt (<) (changes_received wp)" "\<forall>c\<in>set (changes_received wp). changes_from_writer_low_mark wp < c"
    using assms by (auto simp: wp_pre_def)
  note s = cleanup_loop_spec [OF this c]
  show "wp_inv (cleanup wp)" "wp_received (cleanup wp) = wp_received wp"
    "changes_from_writer_low_mark wp \<le> changes_from_writer_low_mark (cleanup wp)"
    "max_sequence_number (cleanup wp) = max_sequence_number wp"
    "last_notified (cleanup wp) = last_notified wp"
    using s assms by (auto simp: cleanup_def c wp_inv_def wp_pre_def wp_received_def)
qed

lemma received_change_set_spec:
  assumes "wp_inv wp"
  shows "fst (received_change_set_rel s wp) \<longleftrightarrow> s \<notin> wp_received wp"
    and "wp_inv (snd (received_change_set_rel s wp))"
    and "wp_received (snd (received_change_set_rel s wp)) = insert s (wp_received wp)"
    and "max_sequence_number (snd (received_change_set_rel s wp)) =
      (if s \<in> wp_received wp then max_sequence_number wp else max s (max_sequence_number wp))"
    and "last_notified (snd (received_change_set_rel s wp)) = last_notified wp"
proof -
  let ?L = "changes_from_writer_low_mark wp"
  let ?wp = "wp\<lparr>changes_from_writer_low_mark := s\<rparr>"
  have pre: "wp_pre ?wp" if "s = ?L + 1" "s \<le> max_sequence_number wp"
    using that assms by (fastforce simp: wp_pre_def wp_inv_def)
  have up: "wp_received ?wp = insert s (wp_received wp)" if "s = ?L + 1"
    using that by (auto simp: wp_received_def)
  note c = cleanup_inv [OF pre]
  have inv: "sorted_wrt (<) (changes_received wp)" "?L \<le> max_sequence_number wp" "last_notified wp \<le> ?L"
    "\<And>d. d \<in> set (changes_received wp) \<Longrightarrow> ?L + 1 < d \<and> d \<le> max_sequence_number wp"
    using assms by (auto simp: wp_inv_def)
  consider (old) "s \<le> ?L" | (next_new) "s = ?L + 1" "max_sequence_number wp < s"
    | (new) "?L + 1 < s" "max_sequence_number wp < s"
    | (nxt) "s = ?L + 1" "s \<le> max_sequence_number wp"
    | (dup) "?L + 1 < s" "s \<le> max_sequence_number wp" "s \<in> set (changes_received wp)"
    | (ins) "?L + 1 < s" "s \<le> max_sequence_number wp" "s \<notin> set (changes_received wp)"
    by atomize_elim auto
  then have "(fst (received_change_set_rel s wp) \<longleftrightarrow> s \<notin> wp_received wp) \<and>
      wp_inv (snd (received_change_set_rel s wp)) \<and>
      wp_received (snd (received_change_set_rel s wp)) = insert s (wp_received wp) \<and>
      max_sequence_number (snd (received_change_set_rel s wp)) =
        (if s \<in> wp_received wp then max_sequence_number wp else max s (max_sequence_number wp)) \<and>
      last_notified (snd (received_change_set_rel s wp)) = last_notified wp"
  proof cases
    case old
    then have "received_change_set_rel s wp = (False, wp)" by (simp add: received_change_set_rel_def Let_def)
    then show ?thesis using old assms by (auto simp: wp_received_def)
  next
    case next_new
    then have "received_change_set_rel s wp = (True, wp\<lparr>changes_from_writer_low_mark := s, max_sequence_number := s\<rparr>)"
      by (simp add: received_change_set_rel_def Let_def)
    moreover have "changes_received wp = []" using next_new inv(2) inv(4) [of "hd (changes_received wp)"] 
      by (cases "changes_received wp") auto
    ultimately show ?thesis using next_new inv by (auto simp: wp_received_def wp_inv_def)
  next
    case new
    then have r: "received_change_set_rel s wp = (True, wp\<lparr>changes_received := insort_insert s (changes_received wp), max_sequence_number := s\<rparr>)"
      by (simp add: received_change_set_rel_def Let_def)
    have "s \<notin> set (changes_received wp)" using new inv(4) [of s] by auto
    moreover have "wp_inv (snd (received_change_set_rel s wp))" unfolding r using new inv insort_insert_strict [OF inv(1), of s]
      by (auto simp: wp_inv_def set_insort_insert dest: inv(4))
    ultimately show ?thesis using new inv by (auto simp: wp_received_def set_insort_insert r)
  next
    case nxt
    then have r: "received_change_set_rel s wp = (True, cleanup ?wp)" by (simp add: received_change_set_rel_def Let_def)
    have "s \<notin> wp_received wp" using nxt(1) inv(4) [of s] by (auto simp: wp_received_def)
    then show ?thesis using c [OF nxt] up [OF nxt(1)] nxt(2) by (simp add: r)
  next
    case dup
    then have "received_change_set_rel s wp = (False, wp)" by (simp add: received_change_set_rel_def Let_def)
    then show ?thesis using dup assms by (auto simp: wp_received_def)
  next
    case ins
    then have r: "received_change_set_rel s wp = (True, wp\<lparr>changes_received := insort_insert s (changes_received wp)\<rparr>)"
      by (simp add: received_change_set_rel_def Let_def)
    have "wp_inv (snd (received_change_set_rel s wp))" unfolding r using ins inv insort_insert_strict [OF inv(1), of s]
      by (auto simp: wp_inv_def set_insort_insert dest: inv(4))
    then show ?thesis using ins inv by (auto simp: wp_received_def set_insort_insert r)
  qed
  then show "fst (received_change_set_rel s wp) \<longleftrightarrow> s \<notin> wp_received wp" "wp_inv (snd (received_change_set_rel s wp))"
    "wp_received (snd (received_change_set_rel s wp)) = insert s (wp_received wp)"
    "max_sequence_number (snd (received_change_set_rel s wp)) =
      (if s \<in> wp_received wp then max_sequence_number wp else max s (max_sequence_number wp))"
    "last_notified (snd (received_change_set_rel s wp)) = last_notified wp" by blast+
qed

lemma missing_changes_update_spec:
  assumes "wp_inv wp"
  shows "wp_inv (missing_changes_update s wp)"
    "wp_received (missing_changes_update s wp) = wp_received wp"
    "max_sequence_number (missing_changes_update s wp) = max s (max_sequence_number wp)"
    "last_notified (missing_changes_update s wp) = last_notified wp"
  using assms by (auto simp: missing_changes_update_def wp_inv_def wp_received_def max_def)

lemma u64_of_rep: obtains k where "u64_of x = x + k * 18446744073709551616"
proof -
  have "u64_of x = x + (- (x div 18446744073709551616)) * 18446744073709551616"
    unfolding u64_of_def by (simp add: minus_div_mult_eq_mod [symmetric])
  then show thesis by (rule that)
qed

lemma u64_of_add: "u64_of (x + k * 18446744073709551616) = u64_of x"
  by (simp add: u64_of_def)

lemma u64_of_minus: "u64_of (u64_of a - (u64_of b + 1)) = u64_of (a - b - 1)"
proof -
  obtain i j where "u64_of a = a + i * 18446744073709551616" "u64_of b = b + j * 18446744073709551616"
    by (meson u64_of_rep)
  then have "u64_of a - (u64_of b + 1) = (a - b - 1) + (i - j) * 18446744073709551616" by (simp add: algebra_simps)
  then show ?thesis by (simp only: u64_of_add)
qed

lemma u64_of_first:
  "u64_of (u64_of (f - l - 1) + (u64_of s - u64_of f - d)) = u64_of (s - l - 1 - d)"
proof -
  obtain i j k where "u64_of s = s + i * 18446744073709551616" "u64_of f = f + j * 18446744073709551616"
    "u64_of (f - l - 1) = f - l - 1 + k * 18446744073709551616"
    by (meson u64_of_rep)
  then have "u64_of (f - l - 1) + (u64_of s - u64_of f - d) =
      (s - l - 1 - d) + (k + i - j) * 18446744073709551616" by (simp add: algebra_simps)
  then show ?thesis by (simp only: u64_of_add)
qed

lemma takeWhile_lt: "sorted_wrt (<) xs \<Longrightarrow> takeWhile (\<lambda>c. c < s) xs = filter (\<lambda>c. c < (s::int)) xs"
proof (induction xs)
  case (Cons a xs)
  have "filter (\<lambda>c. c < s) xs = []" if "\<not> a < s" using that Cons.prems by (force simp: filter_empty_conv)
  then show ?case using Cons by simp
qed simp

lemma dropWhile_lt: "sorted_wrt (<) xs \<Longrightarrow> dropWhile (\<lambda>c. c < s) xs = filter (\<lambda>c. s \<le> (c::int)) xs"
proof (induction xs)
  case (Cons a xs)
  have "filter (\<lambda>c. s \<le> c) xs = xs" if "\<not> a < s" using that Cons.prems by (force simp: filter_id_conv)
  then show ?case using Cons by simp
qed simp

lemma distinct_strict: "sorted_wrt (<) (xs :: int list) \<Longrightarrow> distinct xs"
  by (simp add: strict_sorted_iff)

lemma card_unreceived:
  assumes "wp_inv wp" "changes_from_writer_low_mark wp < s"
  shows "int (card ({changes_from_writer_low_mark wp<..<s} - wp_received wp)) =
    s - changes_from_writer_low_mark wp - 1 - int (length (filter (\<lambda>c. c < s) (changes_received wp)))"
proof -
  let ?L = "changes_from_writer_low_mark wp" and ?F = "filter (\<lambda>c. c < s) (changes_received wp)"
  have "distinct ?F" using assms distinct_strict by (auto simp: wp_inv_def)
  then have len: "length ?F = card (set ?F)" by (rule distinct_card [symmetric])
  have "set ?F \<subseteq> {?L<..<s}" using assms by (fastforce simp: wp_inv_def)
  moreover have "{?L<..<s} - wp_received wp = {?L<..<s} - set ?F" by (auto simp: wp_received_def)
  ultimately have "card ({?L<..<s} - wp_received wp) = card {?L<..<s} - card (set ?F)"
    and "card (set ?F) \<le> card {?L<..<s}"
    using card_mono [of "{?L<..<s}" "set ?F"] by (simp_all add: card_Diff_subset)
  then show ?thesis using assms(2) len by simp
qed

lemma lost_changes_update_spec:
  assumes "wp_inv wp"
  shows "wp_inv (snd (lost_changes_update s wp))"
    and "wp_received (snd (lost_changes_update s wp)) = wp_received wp \<union> {..<s}"
    and "s - changes_from_writer_low_mark wp < 18446744073709551616 \<Longrightarrow>
      fst (lost_changes_update s wp) =
        min 2147483647 (int (card ({changes_from_writer_low_mark wp<..<s} - wp_received wp)))"
    and "max_sequence_number (snd (lost_changes_update s wp)) = max (s - 1) (max_sequence_number wp)"
    and "last_notified (snd (lost_changes_update s wp)) = last_notified wp"
proof -
  let ?L = "changes_from_writer_low_mark wp" and ?R = "changes_received wp"
  let ?wp = "wp\<lparr>changes_received := dropWhile (\<lambda>c. c < s) ?R, changes_from_writer_low_mark := s - 1,
     max_sequence_number := max (s - 1) (max_sequence_number wp)\<rparr>"
  have inv: "sorted_wrt (<) ?R" "?L \<le> max_sequence_number wp" "last_notified wp \<le> ?L"
    "\<And>d. d \<in> set ?R \<Longrightarrow> ?L + 1 < d \<and> d \<le> max_sequence_number wp"
    using assms by (auto simp: wp_inv_def)
  have snd: "snd (lost_changes_update s wp) = (if s > ?L + 1 then cleanup ?wp else wp)"
    by (simp add: lost_changes_update_def Let_def max_def)
  have pre: "wp_pre ?wp" if "s > ?L + 1"
    using that inv by (auto simp: wp_pre_def dropWhile_lt sorted_wrt_filter max.coboundedI2)
  have rec: "wp_received ?wp = wp_received wp \<union> {..<s}" if "s > ?L + 1"
    using that by (auto simp: wp_received_def dropWhile_lt [OF inv(1)])
  show "wp_inv (snd (lost_changes_update s wp))"
    "last_notified (snd (lost_changes_update s wp)) = last_notified wp"
    using cleanup_inv [OF pre] assms by (auto simp: snd)
  show "wp_received (snd (lost_changes_update s wp)) = wp_received wp \<union> {..<s}"
    using cleanup_inv(2) [OF pre] rec by (auto simp: snd) (auto simp: wp_received_def)
  show "max_sequence_number (snd (lost_changes_update s wp)) = max (s - 1) (max_sequence_number wp)"
    using cleanup_inv(4) [OF pre] inv(2) by (auto simp: snd)
  show "fst (lost_changes_update s wp) =
        min 2147483647 (int (card ({?L<..<s} - wp_received wp)))"
    if "s - ?L < 18446744073709551616"
  proof (cases "s > ?L + 1")
    case True
    let ?n = "s - ?L - 1 - int (length (filter (\<lambda>c. c < s) ?R))"
    have n: "?n = int (card ({?L<..<s} - wp_received wp))"
      using card_unreceived [OF assms, of s] True by simp
    then have "u64_of ?n = ?n" using that by (simp add: u64_of_def)
    moreover have "fst (lost_changes_update s wp) = int32_cap (u64_of ?n)"
      unfolding takeWhile_lt [OF inv(1), symmetric] using True
      by (cases ?R) (simp_all add: lost_changes_update_def Let_def u64_of_first u64_of_minus
          del: takeWhile.simps(2))
    ultimately show ?thesis using n by (simp add: int32_cap_def min_def)
  next
    case False
    then have "{?L<..<s} = {}" by auto
    then show ?thesis using False by (simp add: lost_changes_update_def)
  qed
qed

lemma add_range_int:
  assumes "br_wf br" "br_tight br" "br_full int_items br" "br_base br = b"
  shows "br_wf (br_add_range int_items f t br)" "br_tight (br_add_range int_items f t br)"
    "br_full int_items (br_add_range int_items f t br)" "br_base (br_add_range int_items f t br) = b"
    "br_items int_items (br_add_range int_items f t br) = br_items int_items br \<union> {x. f \<le> x \<and> x < t \<and> b \<le> x \<and> x < b + 256}"
  using sn.br_add_range_items [OF TrueI assms(1), of f t] assms by (auto simp: br_full_def int_items_add)

text \<open>Both loops walk over the gaps between the received changes.\<close>

lemma missing_loop_spec:
  assumes "sorted_wrt (<) cs" "\<forall>c\<in>set cs. f \<le> c"
    "br_wf sns" "br_tight sns" "br_full int_items sns" "br_base sns = b" "b \<le> f" "m \<le> b + 256" "f \<le> m"
    "missing_loop m cs (sns, f) = (sns', f')"
  shows "br_wf sns' \<and> br_tight sns' \<and> br_full int_items sns' \<and> br_base sns' = b \<and> f \<le> f' \<and>
    br_items int_items sns' \<union> {x. f' \<le> x \<and> x < m} =
      br_items int_items sns \<union> {x. f \<le> x \<and> x < m \<and> x \<notin> set cs}"
  using assms
proof (induction cs arbitrary: sns f)
  case (Cons c cs)
  note a = add_range_int [OF Cons.prems(3-6), of f "min c m"]
  have c: "f \<le> c" "\<forall>d\<in>set cs. c + 1 \<le> d" using Cons.prems(1,2) by auto
  have i: "br_items int_items (br_add_range int_items f (min c m) sns) =
      br_items int_items sns \<union> {x. f \<le> x \<and> x < min c m}"
  proof -
    have "{x. f \<le> x \<and> x < min c m \<and> b \<le> x \<and> x < b + 256} = {x. f \<le> x \<and> x < min c m}"
      using Cons.prems(7,8) by (intro Collect_cong) linarith
    then show ?thesis using a(5) by simp
  qed
  show ?case
  proof (cases "min c m + 1 \<ge> m")
    case True
    then have r: "sns' = br_add_range int_items f (min c m) sns" "f' = min c m + 1"
      using Cons.prems(10) by (auto simp: Let_def)
    have eq: "x < min c m \<or> f' \<le> x \<and> x < m \<longleftrightarrow> x < m \<and> x \<notin> set (c # cs)" if "f \<le> x" for x
    proof -
      have "x \<notin> set cs" if "x < m" using c(2) True that by fastforce
      then show ?thesis using True r(2) by auto
    qed
    moreover have "f \<le> f'" using r c Cons.prems(9) by simp
    ultimately have "{x. f \<le> x \<and> x < min c m} \<union> {x. f' \<le> x \<and> x < m} =
      {x. f \<le> x \<and> x < m \<and> x \<notin> set (c # cs)}"
      unfolding Collect_disj_eq [symmetric] using order_trans [of f f'] by (intro Collect_cong) blast
    then show ?thesis using a(1-4) \<open>f \<le> f'\<close> unfolding r i Un_assoc by simp
  next
    case False
    then have m: "min c m = c" "c + 1 < m" by auto
    have r: "missing_loop m cs (br_add_range int_items f c sns, c + 1) = (sns', f')"
      using Cons.prems(10) False m by (auto simp: Let_def)
    have IH: "br_wf sns' \<and> br_tight sns' \<and> br_full int_items sns' \<and> br_base sns' = b \<and> c + 1 \<le> f' \<and>
      br_items int_items sns' \<union> {x. f' \<le> x \<and> x < m} =
      br_items int_items (br_add_range int_items f c sns) \<union> {x. c + 1 \<le> x \<and> x < m \<and> x \<notin> set cs}"
      using Cons.prems c m a r by (intro Cons.IH) auto
    have "x < c \<or> c + 1 \<le> x \<and> x < m \<and> x \<notin> set cs \<longleftrightarrow> x < m \<and> x \<notin> set (c # cs)" for x
      using c(2) m(2) by fastforce
    then have "{x. f \<le> x \<and> x < c} \<union> {x. c + 1 \<le> x \<and> x < m \<and> x \<notin> set cs} =
      {x. f \<le> x \<and> x < m \<and> x \<notin> set (c # cs)}"
      unfolding Collect_disj_eq [symmetric] using order_trans [of f "c + 1"] c(1)
      by (intro Collect_cong) (metis add_increasing2 zero_le_one)
    then show ?thesis using IH i m(1) c(1) by (simp add: Un_assoc)
  qed
qed auto

lemma missing_changes_spec:
  assumes "wp_inv wp"
  defines "L \<equiv> changes_from_writer_low_mark wp"
  shows "br_wf (missing_changes wp)" "br_tight (missing_changes wp)"
    "br_full int_items (missing_changes wp)" "br_base (missing_changes wp) = L + 1"
    "br_items int_items (missing_changes wp) = {s \<in> wp_missing wp. s \<le> L + 256}"
proof -
  define m where "m = min (L + 1 + 256) (max_sequence_number wp + 1)"
  obtain sns f where l: "missing_loop m (changes_received wp) (br_init int_items (L + 1), L + 1) = (sns, f)"
    by (metis surj_pair)
  have inv: "sorted_wrt (<) (changes_received wp)" "L \<le> max_sequence_number wp"
    "\<forall>c\<in>set (changes_received wp). L + 1 \<le> c"
    using assms by (auto simp: wp_inv_def)
  have "br_wf sns \<and> br_tight sns \<and> br_full int_items sns \<and> br_base sns = L + 1 \<and> L + 1 \<le> f \<and>
    br_items int_items sns \<union> {x. f \<le> x \<and> x < m} =
      br_items int_items (br_init int_items (L + 1)) \<union> {x. L + 1 \<le> x \<and> x < m \<and> x \<notin> set (changes_received wp)}"
    using inv init_ok_255 [of "L + 1"] by (intro missing_loop_spec [OF _ _ _ _ _ _ _ _ _ l]) (auto simp: m_def)
  then have s: "br_wf sns" "br_tight sns" "br_full int_items sns" "br_base sns = L + 1" "L + 1 \<le> f"
    and i: "br_items int_items sns \<union> {x. f \<le> x \<and> x < m} = {x. L + 1 \<le> x \<and> x < m \<and> x \<notin> set (changes_received wp)}"
    using init_ok_255 [of "L + 1"] by auto
  have mm: "missing_changes wp = (if f < m then br_add_range int_items f m sns else sns)"
    using l by (simp add: missing_changes_def Let_def L_def m_def)
  note a = add_range_int [OF s(1-4), of f m]
  have w: "{x. f \<le> x \<and> x < m \<and> L + 1 \<le> x \<and> x < L + 1 + 256} = {x. f \<le> x \<and> x < m}"
    using s(5) by (intro Collect_cong) (auto simp: m_def)
  have e: "{x. f \<le> x \<and> x < m} = {}" if "\<not> f < m" using that by auto
  have "br_items int_items (missing_changes wp) = br_items int_items sns \<union> {x. f \<le> x \<and> x < m}"
  proof (cases "f < m")
    case True
    then show ?thesis using a(5) unfolding mm w by simp
  next
    case False
    show ?thesis unfolding mm e [OF False] using False by simp
  qed
  also note i
  also have "{x. L + 1 \<le> x \<and> x < m \<and> x \<notin> set (changes_received wp)} = {s \<in> wp_missing wp. s \<le> L + 256}"
    unfolding wp_missing_def wp_received_def L_def [symmetric] m_def by auto
  finally show "br_items int_items (missing_changes wp) = {s \<in> wp_missing wp. s \<le> L + 256}" .
  show "br_wf (missing_changes wp)" "br_tight (missing_changes wp)"
    "br_full int_items (missing_changes wp)" "br_base (missing_changes wp) = L + 1"
    using a s unfolding mm by auto
qed

lemma card_gap:
  fixes f c m :: int
  assumes "f \<le> c" "c < m" "\<forall>d\<in>set cs. c < d"
  shows "int (card {x. f \<le> x \<and> x < m \<and> x \<notin> set (c # cs)}) =
    c - f + int (card {x. c + 1 \<le> x \<and> x < m \<and> x \<notin> set cs})"
proof -
  have "{x. f \<le> x \<and> x < m \<and> x \<notin> set (c # cs)} = {f..<c} \<union> {x. c + 1 \<le> x \<and> x < m \<and> x \<notin> set cs}"
    using assms by fastforce
  moreover have "finite {x. c + 1 \<le> x \<and> x < m \<and> x \<notin> set cs}"
    by (rule finite_subset [of _ "{c + 1..<m}"]) auto
  moreover have "{f..<c} \<inter> {x. c + 1 \<le> x \<and> x < m \<and> x \<notin> set cs} = {}" by auto
  ultimately show ?thesis using assms(1) by (simp add: card_Un_disjoint)
qed

lemma card_gap_end:
  fixes f c m :: int
  assumes "f \<le> c" "f \<le> m" "m \<le> c + 1" "\<forall>d\<in>set cs. c < d"
  shows "int (card {x. f \<le> x \<and> x < m \<and> x \<notin> set (c # cs)}) = min c m - f"
proof -
  have "{x. f \<le> x \<and> x < m \<and> x \<notin> set (c # cs)} = {f..<min c m}"
    using assms by fastforce
  then show ?thesis using assms by simp
qed

lemma u32_sum_step:
  "f \<le> (s::int) \<Longrightarrow>
   ((if f < s then (r + (s - f) mod 4294967296) mod 4294967296 else r) + n) mod 4294967296 =
   (r + (s - f + n)) mod 4294967296"
  by (auto simp: mod_simps algebra_simps)

lemma unknown_missing_loop_spec:
  assumes "sorted_wrt (<) cs" "\<forall>c\<in>set cs. f \<le> c" "f \<le> m"
    "unknown_missing_loop m cs (r, f) = (r', f')"
  shows "(r' + int (card {x. f' \<le> x \<and> x < m})) mod 4294967296 =
      (r + int (card {x. f \<le> x \<and> x < m \<and> x \<notin> set cs})) mod 4294967296"
  using assms
proof (induction cs arbitrary: r f)
  case (Cons c cs)
  have c: "f \<le> c" "\<forall>d\<in>set cs. c < d" "\<forall>d\<in>set cs. c + 1 \<le> d" using Cons.prems(1,2) by auto
  let ?r = "if f < min c m then (r + (min c m - f) mod 4294967296) mod 4294967296 else r"
  show ?case
  proof (cases "min c m + 1 \<ge> m")
    case True
    then have r: "r' = ?r" "f' = min c m + 1" using Cons.prems(4) by (auto simp: Let_def)
    have "{x. f' \<le> x \<and> x < m} = {}" using True r(2) by auto
    then have 1: "int (card {x. f' \<le> x \<and> x < m}) = 0" by (simp only: card.empty of_nat_0)
    have "m \<le> c + 1" using True by auto
    note 2 = card_gap_end [OF c(1) Cons.prems(3) this c(2)]
    have "(?r + 0) mod 4294967296 = (r + (min c m - f + 0)) mod 4294967296"
      by (rule u32_sum_step) (use c(1) Cons.prems(3) in simp)
    then show ?thesis unfolding r(1) 1 2 by (simp only: add_0_right)
  next
    case False
    then have m: "min c m = c" "c + 1 < m" by auto
    have "unknown_missing_loop m cs (?r, c + 1) = (r', f')"
      using Cons.prems(4) False m by (auto simp: Let_def)
    then have "(r' + int (card {x. f' \<le> x \<and> x < m})) mod 4294967296 =
      (?r + int (card {x. c + 1 \<le> x \<and> x < m \<and> x \<notin> set cs})) mod 4294967296"
      using Cons.prems(1) c m by (intro Cons.IH) auto
    also have "\<dots> = (r + (c - f + int (card {x. c + 1 \<le> x \<and> x < m \<and> x \<notin> set cs}))) mod 4294967296"
      unfolding m(1) by (rule u32_sum_step [OF c(1)])
    also have "\<dots> = (r + int (card {x. f \<le> x \<and> x < m \<and> x \<notin> set (c # cs)})) mod 4294967296"
      by (subst card_gap [OF c(1) _ c(2)]) (use m in simp_all)
    finally show ?thesis .
  qed
qed simp

lemma unknown_missing_loop_bounds:
  "unknown_missing_loop m cs (r, f) = (r', f') \<Longrightarrow> 0 \<le> r \<Longrightarrow> r < 4294967296 \<Longrightarrow>
     0 \<le> r' \<and> r' < 4294967296"
  by (induction cs arbitrary: r f) (auto simp: Let_def split: if_splits)

lemma unknown_missing_changes_up_to_spec:
  assumes "wp_inv wp"
  defines "L \<equiv> changes_from_writer_low_mark wp"
  shows "unknown_missing_changes_up_to s wp = int (card ({L<..<s} - wp_received wp)) mod 4294967296"
proof (cases "s > L")
  case True
  obtain r f where l: "unknown_missing_loop s (changes_received wp) (0, L + 1) = (r, f)"
    by (metis surj_pair)
  have inv: "sorted_wrt (<) (changes_received wp)" "\<forall>c\<in>set (changes_received wp). L + 1 \<le> c"
    using assms by (auto simp: wp_inv_def)
  have sp: "(r + int (card {x. f \<le> x \<and> x < s})) mod 4294967296 =
      (0 + int (card {x. L + 1 \<le> x \<and> x < s \<and> x \<notin> set (changes_received wp)})) mod 4294967296"
    by (rule unknown_missing_loop_spec [OF inv _ l]) (use True in simp)
  have eq: "{x. L + 1 \<le> x \<and> x < s \<and> x \<notin> set (changes_received wp)} = {L<..<s} - wp_received wp"
    by (auto simp: wp_received_def L_def)
  have gap: "int (card {x. f \<le> x \<and> x < s}) = (if f < s then s - f else 0)"
  proof -
    have "{x. f \<le> x \<and> x < s} = {f..<s}" by auto
    then show ?thesis by simp
  qed
  have r: "r mod 4294967296 = r" using unknown_missing_loop_bounds [OF l] by simp
  have u: "unknown_missing_changes_up_to s wp = (if f < s then (r + (s - f) mod 4294967296) mod 4294967296 else r)"
    using True l by (simp add: unknown_missing_changes_up_to_def L_def)
  show ?thesis
  proof (cases "f < s")
    case True
    then show ?thesis using sp gap unfolding u eq by (simp add: mod_add_right_eq)
  next
    case False
    then show ?thesis using sp gap r unfolding u eq by simp
  qed
next
  case False
  then have "{L<..<s} = {}" by auto
  then show ?thesis using False by (simp add: unknown_missing_changes_up_to_def L_def)
qed

lemma wp_inv_cong:
  "\<lbrakk>changes_received wp = changes_received wp'; last_notified wp = last_notified wp';
    changes_from_writer_low_mark wp = changes_from_writer_low_mark wp';
    max_sequence_number wp = max_sequence_number wp'\<rbrakk> \<Longrightarrow> wp_inv wp = wp_inv wp'"
  by (simp add: wp_inv_def)

lemma cleanup_frame [simp]:
  "wp_is_alive (cleanup wp) = wp_is_alive wp" "wp_state (cleanup wp) = wp_state wp"
  "wp_is_on_same_process (cleanup wp) = wp_is_on_same_process wp"
  "received_at_least_one_heartbeat (cleanup wp) = received_at_least_one_heartbeat wp"
  "heartbeat_response (cleanup wp) = heartbeat_response wp"
  "last_heartbeat_count (cleanup wp) = last_heartbeat_count wp"
  by (simp_all add: cleanup_def case_prod_unfold Let_def)

lemma received_change_set_frame [simp]:
  "wp_is_alive (snd (received_change_set_rel s wp)) = wp_is_alive wp"
  "wp_state (snd (received_change_set_rel s wp)) = wp_state wp"
  by (simp_all add: received_change_set_rel_def Let_def)

lemma lost_changes_update_frame [simp]:
  "wp_is_alive (snd (lost_changes_update s wp)) = wp_is_alive wp"
  "wp_state (snd (lost_changes_update s wp)) = wp_state wp"
  "wp_is_on_same_process (snd (lost_changes_update s wp)) = wp_is_on_same_process wp"
  "received_at_least_one_heartbeat (snd (lost_changes_update s wp)) = received_at_least_one_heartbeat wp"
  "heartbeat_response (snd (lost_changes_update s wp)) = heartbeat_response wp"
  "last_heartbeat_count (snd (lost_changes_update s wp)) = last_heartbeat_count wp"
  by (simp_all add: lost_changes_update_def Let_def)

lemma missing_changes_update_frame [simp]:
  "wp_is_alive (missing_changes_update s wp) = wp_is_alive wp"
  "wp_state (missing_changes_update s wp) = wp_state wp"
  "wp_is_on_same_process (missing_changes_update s wp) = wp_is_on_same_process wp"
  "received_at_least_one_heartbeat (missing_changes_update s wp) = received_at_least_one_heartbeat wp"
  "heartbeat_response (missing_changes_update s wp) = heartbeat_response wp"
  "last_heartbeat_count (missing_changes_update s wp) = last_heartbeat_count wp"
  by (simp_all add: missing_changes_update_def)

lemma heartbeat_core_spec:
  assumes "wp_inv wp"
  shows "wp_inv (heartbeat_core c fs ls wp)"
    "wp_received (heartbeat_core c fs ls wp) = wp_received wp \<union> {..<fs}"
    "max_sequence_number (heartbeat_core c fs ls wp) = max ls (max (fs - 1) (max_sequence_number wp))"
    "last_notified (heartbeat_core c fs ls wp) = last_notified wp"
proof -
  have "wp_inv (wp\<lparr>last_heartbeat_count := c\<rparr>)" using assms by (simp add: wp_inv_def)
  note l = lost_changes_update_spec [OF this, of fs]
  note m = missing_changes_update_spec [OF l(1), of ls]
  show "wp_inv (heartbeat_core c fs ls wp)"
    "wp_received (heartbeat_core c fs ls wp) = wp_received wp \<union> {..<fs}"
    "max_sequence_number (heartbeat_core c fs ls wp) = max ls (max (fs - 1) (max_sequence_number wp))"
    "last_notified (heartbeat_core c fs ls wp) = last_notified wp"
    using l m by (simp_all add: heartbeat_core_def wp_received_def)
qed

lemma process_heartbeat_counters:
  fixes wp :: "'loc WriterProxy" and count :: nat and fs ls lost_in :: int and ff lf dis :: bool
  assumes "wp_state wp \<noteq> STOPPED" "last_heartbeat_count wp < count"
  defines "r \<equiv> wp_process_heartbeat count fs ls ff lf dis lost_in wp"
    and "w \<equiv> heartbeat_core count fs ls wp"
  shows "hb_processed r" "changes_received (hb_proxy r) = changes_received w"
    "last_notified (hb_proxy r) = last_notified w"
    "changes_from_writer_low_mark (hb_proxy r) = changes_from_writer_low_mark w"
    "max_sequence_number (hb_proxy r) = max_sequence_number w"
    "wp_is_alive (hb_proxy r) = wp_is_alive wp" "wp_state (hb_proxy r) = wp_state wp"
    "last_heartbeat_count (hb_proxy r) = count"
    "hb_sample_lost r = (if received_at_least_one_heartbeat wp
       then fst (lost_changes_update fs (wp\<lparr>last_heartbeat_count := count\<rparr>)) else 0)"
  using assms(1,2)
  by (simp_all add: r_def w_def wp_process_heartbeat_def heartbeat_core_def Let_def case_prod_unfold)

lemma process_heartbeat_ignored:
  "\<not> (wp_state wp \<noteq> STOPPED \<and> last_heartbeat_count wp < count) \<Longrightarrow>
   wp_process_heartbeat count fs ls ff lf dis lost_in wp =
     \<lparr>hb_processed = False, hb_assert_liveliness = False, hb_sample_lost = lost_in, hb_proxy = wp\<rparr>"
  by (simp only: wp_process_heartbeat_def if_False)

lemma are_there_missing_iff:
  assumes "wp_inv wp"
  shows "are_there_missing_changes wp \<longleftrightarrow> wp_missing wp \<noteq> {}"
proof
  assume "are_there_missing_changes wp"
  then have "changes_from_writer_low_mark wp + 1 \<in> wp_missing wp"
    using assms by (auto simp: are_there_missing_changes_def wp_missing_def wp_received_def wp_inv_def)
  then show "wp_missing wp \<noteq> {}" by blast
qed (auto simp: are_there_missing_changes_def wp_missing_def)

lemma process_heartbeat_timer:
  fixes wp :: "'loc WriterProxy" and count :: nat and fs ls lost_in :: int and ff lf dis :: bool
  assumes "wp_state wp \<noteq> STOPPED" "last_heartbeat_count wp < count"
  defines "r \<equiv> wp_process_heartbeat count fs ls ff lf dis lost_in wp"
  shows "te_armed (heartbeat_response (hb_proxy r)) \<longleftrightarrow>
    te_armed (heartbeat_response wp) \<or>
    \<not> wp_is_on_same_process wp \<and>
      (\<not> ff \<and> \<not> dis \<or> (\<not> ff \<or> \<not> lf) \<and> are_there_missing_changes (hb_proxy r))"
    "hb_assert_liveliness r \<longleftrightarrow> lf \<and> (wp_is_on_same_process wp \<or> ff)"
  using assms(1,2)
  by (auto simp: r_def wp_process_heartbeat_def Let_def case_prod_unfold restart_timer_def
      are_there_missing_changes_def)

lemma wp_reach_inv:
  "wp_reach wp \<Longrightarrow> wp_inv wp \<and> (\<not> wp_is_alive wp \<longrightarrow> changes_received wp = [])"
proof (induction rule: wp_reach.induct)
  case init
  then show ?case by (simp add: wp_init_def wp_clear_def loaded_from_storage_def wp_inv_def)
next
  case start
  then show ?case by (simp add: wp_start_def loaded_from_storage_def wp_inv_def Let_def)
next
  case update
  then show ?case by (auto simp: wp_update_def wp_inv_def split: if_splits)
next
  case stop
  then show ?case by (simp add: wp_stop_def wp_clear_def loaded_from_storage_def wp_inv_def Let_def)
next
  case received
  then show ?case by (simp add: received_change_set_def received_change_set_spec)
next
  case irrelevant
  then show ?case by (simp add: irrelevant_change_set_def received_change_set_spec)
next
  case lost
  then show ?case by (simp add: lost_changes_update_spec)
next
  case (heartbeat wp count fs ls ff lf dis lost_in)
  then show ?case
  proof (cases "wp_state wp \<noteq> STOPPED \<and> last_heartbeat_count wp < count")
    case True
    note h = process_heartbeat_counters [of wp count fs ls ff lf dis lost_in]
    have "wp_inv (heartbeat_core count fs ls wp)" using heartbeat heartbeat_core_spec(1) by blast
    then show ?thesis using True h heartbeat by (simp add: wp_inv_def)
  next
    case False
    then show ?thesis using heartbeat unfolding process_heartbeat_ignored [OF False] by simp
  qed
next
  case notify
  then show ?case by (auto simp: next_cache_change_to_be_notified_def wp_inv_def)
next
  case begin_event
  then show ?case by (auto simp: wp_begin_event_def wp_inv_def split: if_splits)
next
  case initial_ack
  then show ?case by (auto simp: initial_ack_nack_body_def wp_inv_def Let_def)
next
  case end_event
  then show ?case by (auto simp: wp_end_event_def wp_inv_def)
qed

lemma wp_init_fields:
  "changes_received (wp_init :: 'loc WriterProxy) = []"
  "changes_from_writer_low_mark (wp_init :: 'loc WriterProxy) = 0"
  "max_sequence_number (wp_init :: 'loc WriterProxy) = 0"
  "last_notified (wp_init :: 'loc WriterProxy) = 0"
  "last_heartbeat_count (wp_init :: 'loc WriterProxy) = 0"
  "te_armed (heartbeat_response (wp_init :: 'loc WriterProxy)) = False"
  "wp_is_alive (wp_init :: 'loc WriterProxy) = False"
  by (simp_all add: wp_init_def wp_clear_def loaded_from_storage_def)

lemma wp_inv_init: "wp_inv (wp_init :: 'loc WriterProxy)"
  by (simp add: wp_inv_def wp_init_fields)

lemma received_init:
  assumes "1 < s"
  defines "wp \<equiv> snd (received_change_set s (wp_init :: 'loc WriterProxy))"
  shows "wp_inv wp" "changes_received wp = [s]" "changes_from_writer_low_mark wp = 0"
    "max_sequence_number wp = s"
  using received_change_set_spec(2) [OF wp_inv_init, of s] assms
  by (simp_all add: received_change_set_def received_change_set_rel_def wp_init_fields
      insort_insert_key_def Let_def)

subsection \<open>Properties\<close>

text \<open>
  C3. Every state a writer proxy reaches, however starts, stops, data, gaps, heartbeats, notifications and
  timer callbacks interleave, satisfies the invariant: the received changes are strictly ascending,
  above the low mark plus one and not above the highest announced number, the low mark is not above
  the announced number, and nothing above the low mark has been notified.
\<close>

theorem WriterProxy_invariant: "wp_reach wp \<Longrightarrow> wp_inv wp"
  using wp_reach_inv by blast

theorem WriterProxy_invariant_witness:
  "wp_inv (snd (received_change_set 1 (wp_start 5 70 INTRAPROCESS_OFF c_Guid_Unknown (\<lambda>l. l)
     \<lparr>wd_guid = c_Guid_Unknown, wd_persistence_guid = c_Guid_Unknown, wd_ownership_strength = 0,
      wd_liveliness_kind = 0, wd_unicast = [], wd_multicast = []\<rparr> 0 False
     (wp_init :: nat WriterProxy))))"
  by (rule WriterProxy_invariant, rule wp_reach.received, rule wp_reach.start, rule wp_reach.init)
    (simp_all add: wp_start_def loaded_from_storage_def wp_init_fields Let_def)

text \<open>
  C4. Reception is idempotent and exact: \<open>received_change_set(s)\<close> returns true exactly when \<open>s\<close> had not
  been received, afterwards the received changes are the old ones and \<open>s\<close>, and the low mark
  \<open>available_changes_max\<close> is the last number below which nothing is missing.
\<close>

theorem received_change_set_exact:
  assumes "wp_inv wp"
  shows "let (ret, wp') = received_change_set s wp
    in ret = (\<not> change_was_received s wp) \<and>
       (\<forall>t. change_was_received t wp' = (t = s \<or> change_was_received t wp)) \<and>
       (\<forall>u\<le>available_changes_max wp'. change_was_received u wp') \<and>
       \<not> change_was_received (available_changes_max wp' + 1) wp'"
proof -
  obtain ret wp' where e: "received_change_set s wp = (ret, wp')" by (metis surj_pair)
  then have "ret = fst (received_change_set_rel s wp)" "wp' = snd (received_change_set_rel s wp)"
    by (simp_all add: received_change_set_def)
  note r = received_change_set_spec [OF assms, of s, folded this]
  have "available_changes_max wp' + 1 \<notin> wp_received wp'"
    using r(2) by (auto simp: wp_inv_def wp_received_def available_changes_max_def)
  moreover have "u \<in> wp_received wp'" if "u \<le> available_changes_max wp'" for u
    using that by (simp add: wp_received_def available_changes_max_def)
  ultimately show ?thesis using r(1,3) by (simp add: e change_was_received_iff)
qed

theorem received_change_set_exact_witness:
  "fst (received_change_set 3 (wp_init :: nat WriterProxy)) = True"
  using received_change_set_exact [OF wp_inv_init [where ?'loc = nat], of 3]
  by (simp add: case_prod_unfold Let_def change_was_received_def [of 3 "wp_init :: nat WriterProxy"]
      wp_init_fields)

text \<open>
  C25. \<open>lost_changes_update(s)\<close> settles everything below \<open>s\<close> and nothing else, and the number of lost
  samples it returns is the number of changes below \<open>s\<close> that had not been received, capped at the
  maximum of \<open>int32_t\<close>, although it is computed with wrapping \<open>uint64_t\<close> arithmetic.
\<close>

theorem lost_changes_count_exact:
  assumes "wp_inv wp" "s - changes_from_writer_low_mark wp < 18446744073709551616"
  shows "fst (lost_changes_update s wp) =
      min 2147483647 (int (card {u. changes_from_writer_low_mark wp < u \<and> u < s \<and>
        \<not> change_was_received u wp})) \<and>
    change_was_received t (snd (lost_changes_update s wp)) = (t < s \<or> change_was_received t wp)"
proof -
  have "{u. changes_from_writer_low_mark wp < u \<and> u < s \<and> \<not> change_was_received u wp} =
      {changes_from_writer_low_mark wp<..<s} - wp_received wp"
    by (auto simp: change_was_received_iff)
  then show ?thesis using lost_changes_update_spec(2,3) [OF assms(1)] assms(2)
    by (auto simp: change_was_received_iff)
qed

theorem lost_changes_count_exact_witness:
  "fst (lost_changes_update 6 (snd (received_change_set 3 (wp_init :: nat WriterProxy)))) =
     min 2147483647 (int (card {u. 0 < u \<and> u < 6 \<and>
       \<not> change_was_received u (snd (received_change_set 3 (wp_init :: nat WriterProxy)))}))"
  using lost_changes_count_exact [of "snd (received_change_set 3 (wp_init :: nat WriterProxy))" 6]
    received_init [of 3, where ?'loc = nat]
  by simp

text \<open>
  C13. The bitmap an ACKNACK carries asks for exactly the changes that are announced and not received,
  among the 256 numbers that follow the low mark, and its base, the positive acknowledgement, is
  the number after the low mark.
\<close>

theorem missing_changes_bitmap:
  assumes "wp_inv wp"
  shows "br_base (missing_changes wp) = available_changes_max wp + 1 \<and>
    br_is_set int_items (missing_changes wp) x =
      (available_changes_max wp < x \<and> x \<le> available_changes_max wp + 256 \<and>
       x \<le> max_sequence_number wp \<and> \<not> change_was_received x wp)"
  using missing_changes_spec [OF assms]
  by (auto simp: sn.br_is_set_items wp_missing_def change_was_received_iff available_changes_max_def)

theorem missing_changes_bitmap_witness:
  "br_is_set int_items
     (missing_changes (snd (received_change_set 3 (wp_init :: nat WriterProxy)))) 2 = True"
  using missing_changes_bitmap [of "snd (received_change_set 3 (wp_init :: nat WriterProxy))" 2]
    received_init [of 3, where ?'loc = nat]
  by (simp add: change_was_received_def available_changes_max_def)

text \<open>
  \<open>unknown_missing_changes_up_to(s)\<close> counts, modulo \<open>2 ^ 32\<close>, the changes below \<open>s\<close> that have not
  been received.
\<close>

theorem unknown_missing_changes_counts:
  assumes "wp_inv wp"
  shows "unknown_missing_changes_up_to s wp =
    int (card {u. available_changes_max wp < u \<and> u < s \<and> \<not> change_was_received u wp})
      mod 4294967296"
proof -
  have "{u. available_changes_max wp < u \<and> u < s \<and> \<not> change_was_received u wp} =
      {changes_from_writer_low_mark wp<..<s} - wp_received wp"
    by (auto simp: change_was_received_iff available_changes_max_def)
  then show ?thesis using unknown_missing_changes_up_to_spec [OF assms] by simp
qed

theorem unknown_missing_changes_counts_witness:
  "unknown_missing_changes_up_to 5 (wp_init :: nat WriterProxy) =
     int (card {u. 0 < u \<and> u < 5 \<and> \<not> change_was_received u (wp_init :: nat WriterProxy)})
       mod 4294967296"
  using unknown_missing_changes_counts [OF wp_inv_init [where ?'loc = nat], of 5]
  by (simp add: available_changes_max_def wp_init_fields)




end
