(* ===== verification/RtpsTime.thy ===== *)
theory RtpsTime
  imports Prelude "HOL-Library.Signed_Division"
begin

text \<open>
  \<open>rtps::Time_t\<close> (\<open>include/fastdds/rtps/common/Time_t.hpp\<close>, \<open>src/cpp/rtps/common/Time_t.cpp\<close>), which keeps
  a fraction of a second in units of \<open>2 ^ -32\<close> beside its nanoseconds, \<open>dds::Time_t\<close>
  (\<open>include/fastdds/dds/core/Time_t.hpp\<close>, \<open>src/cpp/fastdds/core/Time_t.cpp\<close>), and the conversions of
  \<open>src/cpp/utils/time_t_helpers.hpp\<close>. All fields keep their 32 bits; the conversions multiply in 64.
  The search for the fraction that gives back the nanoseconds is a loop that may not end:
  \<open>None\<close> is the loop running for ever. The constructors from \<open>long double\<close> and the clock are not modelled.

  The lemmas show that a fraction is found for every value below one second and none above, that
  sums and differences of \<open>rtps::Time_t\<close> are those of 64-bit fixed point numbers, and the round trip
  through nanoseconds; those of \<open>dds::Time_t\<close> are not normalised.
\<close>

subsection \<open>Conversions\<close>

definition frac_to_nano :: "u32 \<Rightarrow> u32" where
  "frac_to_nano fractions = ucast ((ucast fractions * 1000000000 :: u64) div 4294967296)"

definition nano_to_frac :: "u32 \<Rightarrow> u32" where
  "nano_to_frac nanosecs = ucast ((ucast nanosecs * 4294967296 :: u64) div 1000000000)"

text \<open>The loop \<open>while (nano_check != nanosec_) nano_check = frac_to_nano(++fraction_)\<close>.\<close>

partial_function (option) frac_search :: "u32 \<Rightarrow> u32 \<Rightarrow> u32 option" where
  "frac_search nanos frac =
     (if frac_to_nano frac \<noteq> nanos then frac_search nanos (frac + 1) else Some frac)"

declare frac_search.simps [code]

definition fraction_of_nanos :: "u32 \<Rightarrow> u32 option" where
  "fraction_of_nanos nanos =
     (let frac = if nanos = 0xffffffff then 0xffffffff else nano_to_frac nanos
      in if frac \<noteq> 0xffffffff then frac_search nanos frac else Some frac)"

subsection \<open>\<open>rtps::Time_t\<close>\<close>

record Time_t =
  seconds :: u32
  fraction :: u32
  nanosec :: u32

definition set_fraction :: "u32 \<Rightarrow> Time_t \<Rightarrow> Time_t" where
  "set_fraction frac t =
     t\<lparr>fraction := frac, nanosec := if frac = 0xffffffff then 0xffffffff else frac_to_nano frac\<rparr>"

definition set_nanosec :: "u32 \<Rightarrow> Time_t \<Rightarrow> Time_t option" where
  "set_nanosec nanos t =
     map_option (\<lambda>frac. t\<lparr>fraction := frac, nanosec := nanos\<rparr>) (fraction_of_nanos nanos)"

definition time_default :: Time_t where
  "time_default = \<lparr>seconds = 0, fraction = 0, nanosec = 0\<rparr>"

definition time_of :: "u32 \<Rightarrow> u32 \<Rightarrow> Time_t" where
  "time_of sec frac = set_fraction frac (time_default\<lparr>seconds := sec\<rparr>)"

definition time_nanosec :: "u32 \<Rightarrow> Time_t \<Rightarrow> Time_t option" where
  "time_nanosec nanos t =
     set_nanosec (if nanos \<ge> 1000000000 then nanos mod 1000000000 else nanos) t"

definition time_eq :: "Time_t \<Rightarrow> Time_t \<Rightarrow> bool" where
  "time_eq t1 t2 = (if seconds t1 \<noteq> seconds t2 then False
                    else if fraction t1 \<noteq> fraction t2 then False else True)"

definition time_neq :: "Time_t \<Rightarrow> Time_t \<Rightarrow> bool" where
  "time_neq t1 t2 = (if seconds t1 \<noteq> seconds t2 then True
                     else if fraction t1 \<noteq> fraction t2 then True else False)"

definition time_lt :: "Time_t \<Rightarrow> Time_t \<Rightarrow> bool" where
  "time_lt t1 t2 = (if sint (seconds t1) < sint (seconds t2) then True
                    else if sint (seconds t1) > sint (seconds t2) then False
                    else fraction t1 < fraction t2)"

definition time_gt :: "Time_t \<Rightarrow> Time_t \<Rightarrow> bool" where
  "time_gt t1 t2 = (if sint (seconds t1) > sint (seconds t2) then True
                    else if sint (seconds t1) < sint (seconds t2) then False
                    else fraction t1 > fraction t2)"

definition time_le :: "Time_t \<Rightarrow> Time_t \<Rightarrow> bool" where
  "time_le t1 t2 = (if sint (seconds t1) < sint (seconds t2) then True
                    else if sint (seconds t1) > sint (seconds t2) then False
                    else fraction t1 \<le> fraction t2)"

definition time_ge :: "Time_t \<Rightarrow> Time_t \<Rightarrow> bool" where
  "time_ge t1 t2 = (if sint (seconds t1) > sint (seconds t2) then True
                    else if sint (seconds t1) < sint (seconds t2) then False
                    else fraction t1 \<ge> fraction t2)"

definition time_add :: "Time_t \<Rightarrow> Time_t \<Rightarrow> Time_t" where
  "time_add ta tb =
     (let result = time_of (seconds ta + seconds tb) (fraction ta + fraction tb)
      in if fraction result < fraction ta then result\<lparr>seconds := seconds result + 1\<rparr> else result)"

definition time_sub :: "Time_t \<Rightarrow> Time_t \<Rightarrow> Time_t" where
  "time_sub ta tb =
     (let result = time_of (seconds ta - seconds tb) (fraction ta - fraction tb)
      in if fraction result > fraction ta then result\<lparr>seconds := seconds result - 1\<rparr> else result)"

definition c_RTPSTimeInfinite :: Time_t where
  "c_RTPSTimeInfinite = time_of 0x7fffffff 0xffffffff"

definition c_RTPSTimeZero :: Time_t where "c_RTPSTimeZero = time_of 0 0"

definition c_RTPSTimeInvalid :: Time_t where "c_RTPSTimeInvalid = time_of (- 1) 0xffffffff"

definition to_ns :: "Time_t \<Rightarrow> int" where
  "to_ns t = (if time_eq t c_RTPSTimeInfinite then -1
              else if time_eq t c_RTPSTimeInvalid then -2
              else sint (seconds t) * 1000000000 + uint (nanosec t))"

text \<open>\<open>std::lldiv\<close> truncates towards zero; the remainder has the sign of the dividend.\<close>

definition from_ns :: "int \<Rightarrow> Time_t \<Rightarrow> Time_t option" where
  "from_ns nanosecs t =
     (if nanosecs = -1 then Some c_RTPSTimeInfinite
      else if nanosecs = -2 then Some c_RTPSTimeInvalid
      else time_nanosec (word_of_int (nanosecs smod 1000000000))
             (t\<lparr>seconds := word_of_int (nanosecs sdiv 1000000000)\<rparr>))"

subsection \<open>\<open>dds::Time_t\<close>\<close>

record dds_Time_t =
  d_seconds :: u32
  d_nanosec :: u32

definition dds_time_default :: dds_Time_t where
  "dds_time_default = \<lparr>d_seconds = 0, d_nanosec = 0\<rparr>"

definition dds_time_of :: "u32 \<Rightarrow> u32 \<Rightarrow> dds_Time_t" where
  "dds_time_of sec nsec = \<lparr>d_seconds = sec, d_nanosec = nsec\<rparr>"

definition dds_set_fraction :: "u32 \<Rightarrow> dds_Time_t \<Rightarrow> dds_Time_t" where
  "dds_set_fraction frac t =
     t\<lparr>d_nanosec := if frac = 0xffffffff then 0xffffffff else frac_to_nano frac\<rparr>"

definition dds_fraction :: "dds_Time_t \<Rightarrow> u32 option" where
  "dds_fraction t = fraction_of_nanos (d_nanosec t)"

definition dds_to_ns :: "dds_Time_t \<Rightarrow> int" where
  "dds_to_ns t = sint (d_seconds t) * 1000000000 + uint (d_nanosec t)"

definition is_infinite :: "dds_Time_t \<Rightarrow> bool" where
  "is_infinite t \<longleftrightarrow> 0x7fffffff = d_seconds t \<or> 0xffffffff = d_nanosec t"

definition dds_time_eq :: "dds_Time_t \<Rightarrow> dds_Time_t \<Rightarrow> bool" where
  "dds_time_eq t1 t2 = (if d_seconds t1 \<noteq> d_seconds t2 then False
                        else if d_nanosec t1 \<noteq> d_nanosec t2 then False else True)"

definition dds_time_neq :: "dds_Time_t \<Rightarrow> dds_Time_t \<Rightarrow> bool" where
  "dds_time_neq t1 t2 = (if d_seconds t1 \<noteq> d_seconds t2 then True
                         else if d_nanosec t1 \<noteq> d_nanosec t2 then True else False)"

definition dds_time_lt :: "dds_Time_t \<Rightarrow> dds_Time_t \<Rightarrow> bool" where
  "dds_time_lt t1 t2 = (if sint (d_seconds t1) < sint (d_seconds t2) then True
                        else if sint (d_seconds t1) > sint (d_seconds t2) then False
                        else d_nanosec t1 < d_nanosec t2)"

definition dds_time_gt :: "dds_Time_t \<Rightarrow> dds_Time_t \<Rightarrow> bool" where
  "dds_time_gt t1 t2 = (if sint (d_seconds t1) > sint (d_seconds t2) then True
                        else if sint (d_seconds t1) < sint (d_seconds t2) then False
                        else d_nanosec t1 > d_nanosec t2)"

definition dds_time_le :: "dds_Time_t \<Rightarrow> dds_Time_t \<Rightarrow> bool" where
  "dds_time_le t1 t2 = (if sint (d_seconds t1) < sint (d_seconds t2) then True
                        else if sint (d_seconds t1) > sint (d_seconds t2) then False
                        else d_nanosec t1 \<le> d_nanosec t2)"

definition dds_time_ge :: "dds_Time_t \<Rightarrow> dds_Time_t \<Rightarrow> bool" where
  "dds_time_ge t1 t2 = (if sint (d_seconds t1) > sint (d_seconds t2) then True
                        else if sint (d_seconds t1) < sint (d_seconds t2) then False
                        else d_nanosec t1 \<ge> d_nanosec t2)"

definition dds_time_add :: "dds_Time_t \<Rightarrow> dds_Time_t \<Rightarrow> dds_Time_t" where
  "dds_time_add ta tb =
     (let result = dds_time_of (d_seconds ta + d_seconds tb) (d_nanosec ta + d_nanosec tb)
      in if d_nanosec result < d_nanosec ta then result\<lparr>d_seconds := d_seconds result + 1\<rparr>
         else result)"

definition dds_time_sub :: "dds_Time_t \<Rightarrow> dds_Time_t \<Rightarrow> dds_Time_t" where
  "dds_time_sub ta tb =
     (let result = dds_time_of (d_seconds ta - d_seconds tb) (d_nanosec ta - d_nanosec tb)
      in if d_nanosec result > d_nanosec ta then result\<lparr>d_seconds := d_seconds result - 1\<rparr>
         else result)"

definition c_TimeInfinite :: dds_Time_t where "c_TimeInfinite = dds_time_of 0x7fffffff 0xffffffff"

definition c_TimeZero :: dds_Time_t where "c_TimeZero = dds_time_of 0 0"

definition c_TimeInvalid :: dds_Time_t where "c_TimeInvalid = dds_time_of (- 1) 0xffffffff"

definition time_of_dds :: "dds_Time_t \<Rightarrow> Time_t option" where
  "time_of_dds time = set_nanosec (d_nanosec time) (time_default\<lparr>seconds := d_seconds time\<rparr>)"

definition to_duration_t :: "Time_t \<Rightarrow> dds_Time_t" where
  "to_duration_t t = dds_time_of (seconds t) (nanosec t)"

definition from_duration_t :: "dds_Time_t \<Rightarrow> Time_t \<Rightarrow> Time_t option" where
  "from_duration_t duration t = set_nanosec (d_nanosec duration) (t\<lparr>seconds := d_seconds duration\<rparr>)"

subsection \<open>Values and well-formedness\<close>

text \<open>A time as a number of \<open>2 ^ -32\<close> second units, and the relation of its two fractions.\<close>

definition time_val :: "Time_t \<Rightarrow> int" where
  "time_val t = sint (seconds t) * 4294967296 + uint (fraction t)"

definition time_wf :: "Time_t \<Rightarrow> bool" where
  "time_wf t \<longleftrightarrow> nanosec t = (if fraction t = 0xffffffff then 0xffffffff else frac_to_nano (fraction t))"

subsection \<open>Laws\<close>

lemma u32_of_nat_unat: "of_nat (unat x) = (x :: u32)"
  by simp

lemma u32_unat_eqI: "unat a = unat b \<Longrightarrow> a = (b :: u32)"
  by (rule unsigned_word_eqI)

lemma unat_u64_of_u32: "unat (ucast (x :: u32) :: u64) = unat x"
  using u32_unat_bound [of x] by (simp add: unsigned_ucast_eq take_bit_nat_eq_self)

lemma unat_frac_to_nano: "unat (frac_to_nano f) = unat f * 1000000000 div 4294967296"
proof -
  have b: "unat f < 4294967296" by (rule u32_unat_bound)
  then have "unat (ucast f * 1000000000 :: u64) = unat f * 1000000000"
    by (simp add: unat_word_ariths unat_u64_of_u32)
  moreover have "unat f * 1000000000 div 4294967296 < 4294967296" using b by (simp add: div_less_iff_less_mult)
  ultimately show ?thesis
    by (simp add: frac_to_nano_def unat_div unsigned_ucast_eq take_bit_nat_eq_self)
qed

lemma unat_nano_to_frac: "unat (nano_to_frac n) = unat n * 4294967296 div 1000000000 mod 4294967296"
proof -
  have "unat (ucast n * 4294967296 :: u64) = unat n * 4294967296"
    using u32_unat_bound [of n] by (simp add: unat_word_ariths unat_u64_of_u32)
  then show ?thesis by (simp add: nano_to_frac_def unat_div unsigned_ucast_eq take_bit_eq_mod)
qed

lemma frac_to_nano_below: "frac_to_nano f < 1000000000"
  using u32_unat_bound [of f] by (simp add: word_less_nat_alt unat_frac_to_nano div_less_iff_less_mult)

lemma frac_search_sound: "frac_search n f = Some r \<Longrightarrow> frac_to_nano r = n"
  by (rule frac_search.raw_induct [of "\<lambda>n f r. frac_to_nano r = n"]) (auto split: if_splits)

text \<open>Below one second the search ends after at most one step, on the rounded up fraction.\<close>

lemma fraction_of_nanos_below:
  assumes "unat n < 1000000000"
  shows "fraction_of_nanos n = Some (of_nat ((unat n * 4294967296 + 999999999) div 1000000000))"
proof -
  let ?q = "unat n * 4294967296 div 1000000000"
  define q where "q = ?q"
  have lo: "q * 1000000000 \<le> unat n * 4294967296" and hi: "unat n * 4294967296 < (q + 1) * 1000000000"
    unfolding q_def using div_mult_mod_eq [of "unat n * 4294967296" 1000000000]
      mod_less_divisor [of 1000000000 "unat n * 4294967296"] by (simp_all add: distrib_right)
  have qb: "q < 4294967295" using lo assms by linarith
  have uq: "unat (nano_to_frac n) = q" using qb by (simp add: unat_nano_to_frac q_def)
  have nf: "nano_to_frac n = of_nat q" using uq by (metis u32_of_nat_unat)
  have ne: "n \<noteq> 0xffffffff" "nano_to_frac n \<noteq> 0xffffffff" using assms uq qb by auto
  show ?thesis
  proof (cases "q * 1000000000 = unat n * 4294967296")
    case True
    then have "frac_to_nano (nano_to_frac n) = n"
      by (intro u32_unat_eqI) (simp add: unat_frac_to_nano uq)
    moreover have "(unat n * 4294967296 + 999999999) div 1000000000 = q"
      using True by (intro div_nat_eqI) simp_all
    ultimately show ?thesis using ne by (simp add: fraction_of_nanos_def frac_search.simps nf)
  next
    case False
    then have "q * 1000000000 div 4294967296 \<noteq> unat n"
      using lo less_mult_imp_div_less [of "q * 1000000000" "unat n" 4294967296] by simp
    then have "frac_to_nano (nano_to_frac n) \<noteq> n"
      using unat_frac_to_nano [of "nano_to_frac n"] uq by auto
    moreover have u1: "unat (nano_to_frac n + 1) = q + 1" using uq qb by (simp add: u32_unat_add)
    have "(q + 1) * 1000000000 div 4294967296 = unat n" using lo hi by (intro div_nat_eqI) (simp_all add: distrib_right)
    then have "frac_to_nano (nano_to_frac n + 1) = n"
      by (intro u32_unat_eqI) (simp add: unat_frac_to_nano u1)
    moreover have "(unat n * 4294967296 + 999999999) div 1000000000 = q + 1"
      using lo hi False by (intro div_nat_eqI) (simp_all add: distrib_right)
    ultimately show ?thesis using ne by (simp add: fraction_of_nanos_def frac_search.simps nf)
  qed
qed

lemma fraction_of_nanos_found:
  assumes "unat n < 1000000000"
  shows "\<exists>f. fraction_of_nanos n = Some f \<and> frac_to_nano f = n \<and> f \<noteq> 0xffffffff"
proof -
  let ?m = "(unat n * 4294967296 + 999999999) div 1000000000"
  have "?m < 4294967293" by (rule less_mult_imp_div_less) (use assms in simp)
  then have "unat (of_nat ?m :: u32) = ?m" by (simp add: unat_of_nat)
  with \<open>?m < 4294967293\<close> have "unat (of_nat ?m :: u32) \<noteq> unat (0xffffffff :: u32)" by simp
  then have "(of_nat ?m :: u32) \<noteq> 0xffffffff" by metis
  moreover have "n \<noteq> 0xffffffff" using assms by auto
  ultimately show ?thesis
    using fraction_of_nanos_below [OF assms] frac_search_sound
    by (auto simp: fraction_of_nanos_def Let_def split: if_splits)
qed

lemma fraction_of_nanos_above:
  assumes "1000000000 \<le> unat n" "n \<noteq> 0xffffffff"
  shows "fraction_of_nanos n = None"
proof -
  define r where "r = unat n mod 1000000000"
  define k where "k = unat n div 1000000000"
  have "unat n = r + k * 1000000000" unfolding r_def k_def by simp
  then have "unat n * 4294967296 = r * 4294967296 + (4294967296 * k) * 1000000000" by simp
  then have "unat n * 4294967296 div 1000000000 = r * 4294967296 div 1000000000 + 4294967296 * k"
    by (simp only: div_mult_self1 zero_neq_numeral simp_thms add.commute)
  moreover have r: "r < 1000000000" by (simp add: r_def)
  have "r * 4294967296 div 1000000000 < 4294967292"
    by (rule less_mult_imp_div_less) (use r in simp)
  then have "r * 4294967296 div 1000000000 \<le> 4294967291" by simp
  ultimately have "unat (nano_to_frac n) \<le> 4294967291" by (simp add: unat_nano_to_frac)
  then have "nano_to_frac n \<noteq> 0xffffffff" by auto
  moreover have "frac_search n f = None" for f
  proof (rule ccontr)
    assume "frac_search n f \<noteq> None"
    then obtain r where "frac_to_nano r = n" using frac_search_sound by blast
    then show False using frac_to_nano_below [of r] assms(1) by (simp add: word_less_nat_alt)
  qed
  ultimately show ?thesis using assms(2) by (simp add: fraction_of_nanos_def)
qed

lemma fixed_point_less:
  "0 \<le> f \<Longrightarrow> f < 4294967296 \<Longrightarrow> 0 \<le> g \<Longrightarrow> g < 4294967296 \<Longrightarrow>
   s * 4294967296 + f < t * 4294967296 + g \<longleftrightarrow> s < t \<or> s = t \<and> f < (g :: int)"
  by (cases "s < t"; cases "s = t") linarith+

lemma time_lt_val: "time_lt a b \<longleftrightarrow> time_val a < time_val b"
  unfolding time_val_def by (subst fixed_point_less) (auto simp: uint32_bounds time_lt_def word_less_def)

lemma time_eq_val: "time_eq a b \<longleftrightarrow> time_val a = time_val b"
proof
  assume "time_val a = time_val b"
  then have "\<not> time_lt a b" "\<not> time_lt b a" by (simp_all add: time_lt_val)
  then have "sint (seconds a) = sint (seconds b)" "fraction a = fraction b"
    by (auto simp: time_lt_def split: if_splits)
  then show "time_eq a b" by (simp add: time_eq_def sint32_eqD)
qed (auto simp: time_eq_def time_val_def split: if_splits)

lemma signed_take_bit_fixed_point:
  assumes "0 \<le> f" "f < 4294967296"
  shows "signed_take_bit 63 (s * 4294967296 + f) = signed_take_bit 31 s * 4294967296 + (f :: int)"
proof -
  have "(s * 4294967296 + f + 9223372036854775808) mod (4294967296 * 4294967296) =
      4294967296 * ((s * 4294967296 + f + 9223372036854775808) div 4294967296 mod 4294967296) +
      (s * 4294967296 + f + 9223372036854775808) mod 4294967296"
    by (rule zmod_zmult2_eq) simp
  moreover have "s * 4294967296 + f + 9223372036854775808 = f + (s + 2147483648) * 4294967296" by simp
  then have "(s * 4294967296 + f + 9223372036854775808) div 4294967296 = s + 2147483648"
    "(s * 4294967296 + f + 9223372036854775808) mod 4294967296 = f"
    using assms by (simp_all only: div_mult_self1 mod_mult_self1 zero_neq_numeral simp_thms) simp_all
  ultimately show ?thesis
    by (simp add: signed_take_bit_eq_take_bit_shift take_bit_eq_mod)
qed

lemma sint32_arith:
  "sint (a + b) = signed_take_bit 31 (sint a + sint b)"
  "sint (a - b) = signed_take_bit 31 (sint a - sint b)" for a b :: u32
  by (simp_all add: sint_word_ariths)

lemma sint32_arith_carry:
  "sint (a + b + 1) = signed_take_bit 31 (sint a + sint b + 1)"
  "sint (a - b - 1) = signed_take_bit 31 (sint a - sint b - 1)" for a b :: u32
  using signed_take_bit_add [of 31 "sint a + sint b" 1] signed_take_bit_diff [of 31 "sint a - sint b" 1]
  by (simp_all add: sint32_arith)

lemma time_of_simps [simp]:
  "seconds (time_of s f) = s" "fraction (time_of s f) = f"
  by (simp_all add: time_of_def set_fraction_def)

lemma time_wf_time_of: "time_wf (time_of s f)"
  by (simp add: time_wf_def time_of_def set_fraction_def)

lemma to_ns_finite:
  "fraction t \<noteq> 0xffffffff \<Longrightarrow> to_ns t = sint (seconds t) * 1000000000 + uint (nanosec t)"
  by (simp add: to_ns_def time_eq_def c_RTPSTimeInfinite_def c_RTPSTimeInvalid_def)

lemma time_wf_seconds: "time_wf (t\<lparr>seconds := s\<rparr>) = time_wf t"
  by (simp add: time_wf_def)

subsection \<open>Properties\<close>

text \<open>
  C31. Setting the nanoseconds of a time returns exactly for values below one second and for the mark
  of an infinite time; the fraction it finds then converts back to these nanoseconds. For every other
  value the search for a fraction never ends.
\<close>

theorem set_nanosec_ends_iff:
  "case set_nanosec n t of
     None \<Rightarrow> 1000000000 \<le> n \<and> n \<noteq> 0xffffffff
   | Some t' \<Rightarrow> (n < 1000000000 \<or> n = 0xffffffff) \<and> seconds t' = seconds t \<and> nanosec t' = n \<and> time_wf t'"
proof -
  consider "n = 0xffffffff" | "unat n < 1000000000" | "1000000000 \<le> unat n" "n \<noteq> 0xffffffff"
    by linarith
  then show ?thesis
  proof cases
    case 1
    then show ?thesis by (simp add: set_nanosec_def fraction_of_nanos_def time_wf_def)
  next
    case 2
    obtain f where f: "fraction_of_nanos n = Some f" "frac_to_nano f = n" "f \<noteq> 0xffffffff"
      using fraction_of_nanos_found [OF 2] by blast
    then show ?thesis using f 2 by (simp add: set_nanosec_def time_wf_def word_less_nat_alt)
  next
    case 3
    then show ?thesis by (simp add: set_nanosec_def fraction_of_nanos_above word_le_nat_alt)
  qed
qed

text \<open>
  C32. The sum and the difference of two RTPS times are those of signed 64-bit fixed point numbers with
  32 fractional bits, wrapping around on overflow, and keep nanoseconds and fraction consistent.
\<close>

theorem time_arith_exact:
  "time_val (time_add a b) = signed_take_bit 63 (time_val a + time_val b) \<and>
   time_val (time_sub a b) = signed_take_bit 63 (time_val a - time_val b) \<and>
   time_wf (time_add a b) \<and> time_wf (time_sub a b)"
proof -
  let ?fa = "uint (fraction a)" and ?fb = "uint (fraction b)"
  have b: "0 \<le> ?fa" "?fa < 4294967296" "0 \<le> ?fb" "?fb < 4294967296" by (simp_all add: uint32_bounds)
  have "time_val (time_add a b) = signed_take_bit 63 (time_val a + time_val b)"
  proof (cases "?fa + ?fb < 4294967296")
    case True
    then show ?thesis
      using signed_take_bit_fixed_point [of "?fa + ?fb" "sint (seconds a) + sint (seconds b)"] b
      by (simp add: time_add_def time_val_def word_less_def uint32_add sint32_arith algebra_simps)
  next
    case False
    then have "time_val (time_add a b) =
        sint (seconds a + seconds b + 1) * 4294967296 + (?fa + ?fb - 4294967296)"
      using b by (simp add: time_add_def time_val_def word_less_def uint32_add)
    then show ?thesis
      using signed_take_bit_fixed_point
          [of "?fa + ?fb - 4294967296" "sint (seconds a) + sint (seconds b) + 1"] b False
      unfolding sint32_arith_carry by (simp add: time_val_def algebra_simps)
  qed
  moreover have "time_val (time_sub a b) = signed_take_bit 63 (time_val a - time_val b)"
  proof (cases "?fb \<le> ?fa")
    case True
    then show ?thesis
      using signed_take_bit_fixed_point [of "?fa - ?fb" "sint (seconds a) - sint (seconds b)"] b
      by (simp add: time_sub_def time_val_def word_less_def uint32_sub sint32_arith algebra_simps)
  next
    case False
    then have "time_val (time_sub a b) =
        sint (seconds a - seconds b - 1) * 4294967296 + (?fa - ?fb + 4294967296)"
      using b by (simp add: time_sub_def time_val_def word_less_def uint32_sub)
    then show ?thesis
      using signed_take_bit_fixed_point
          [of "?fa - ?fb + 4294967296" "sint (seconds a) - sint (seconds b) - 1"] b False
      unfolding sint32_arith_carry by (simp add: time_val_def algebra_simps)
  qed
  moreover have "time_wf (time_add a b)" "time_wf (time_sub a b)"
    by (simp_all add: time_add_def time_sub_def Let_def time_wf_time_of time_wf_seconds)
  ultimately show ?thesis by simp
qed

text \<open>
  C38. A number of nanoseconds that is not negative and whose seconds fit in 31 bits survives the round
  trip through an RTPS time: \<open>from_ns\<close> returns and \<open>to_ns\<close> gives the number back.
\<close>

theorem ns_round_trip:
  assumes "0 \<le> ns" "ns < 2147483648 * 1000000000"
  shows "\<exists>t'. from_ns ns t = Some t' \<and> to_ns t' = ns \<and> time_wf t'"
proof -
  have dm: "ns sdiv 1000000000 = ns div 1000000000" "ns smod 1000000000 = ns mod 1000000000"
    using assms(1) by (cases "ns = 0"; simp add: signed_divide_int_def signed_modulo_int_def)+
  let ?r = "word_of_int (ns mod 1000000000) :: u32"
  let ?s = "word_of_int (ns div 1000000000) :: u32"
  have ur: "uint ?r = ns mod 1000000000"
    using pos_mod_bound [of 1000000000 ns] by (simp add: unsigned_of_int take_bit_int_eq_self_iff)
  then have rn: "unat ?r < 1000000000" unfolding unat_eq_nat_uint by (simp add: nat_less_iff)
  have "sint ?s = ns div 1000000000"
    by (rule sint32_of_int) (use assms in \<open>simp_all add: pos_imp_zdiv_nonneg_iff div_less_iff_less_mult zdiv_mono1\<close>)
  moreover obtain f where f: "fraction_of_nanos ?r = Some f" "frac_to_nano f = ?r" "f \<noteq> 0xffffffff"
    using fraction_of_nanos_found [OF rn] by blast
  moreover have "\<not> ?r \<ge> 1000000000" using rn by (simp add: word_le_nat_alt)
  ultimately show ?thesis
    using assms ur
    by (auto simp: from_ns_def dm time_nanosec_def set_nanosec_def to_ns_finite time_wf_def)
qed

theorem ns_round_trip_witness: "\<exists>t'. from_ns 1500000000 time_default = Some t' \<and> to_ns t' = 1500000000"
  using ns_round_trip [of 1500000000 time_default] by auto

text \<open>
  The difference of two DDS times borrows \<open>2 ^ 32\<close> nanoseconds instead of one second: whenever a
  borrow is needed between normalised times, the result cannot be converted to an RTPS time (the
  conversion never ends), or it is taken for an infinite time.
\<close>

theorem dds_time_sub_borrow:
  assumes "d_nanosec a < d_nanosec b" "d_nanosec b < 1000000000"
  shows "time_of_dds (dds_time_sub a b) = None \<or> is_infinite (dds_time_sub a b)"
proof -
  let ?d = "d_nanosec a - d_nanosec b"
  have u: "uint ?d = uint (d_nanosec a) - uint (d_nanosec b) + 4294967296"
    using assms(1) by (simp add: uint32_sub word_less_def)
  moreover have "uint (d_nanosec b) < 1000000000" "0 \<le> uint (d_nanosec a)"
    using assms(2) by (simp_all add: word_less_def)
  ultimately have "1000000000 \<le> unat ?d" unfolding unat_eq_nat_uint by linarith
  moreover have "d_nanosec (dds_time_sub a b) = ?d" by (simp add: dds_time_sub_def Let_def dds_time_of_def)
  ultimately show ?thesis
    using fraction_of_nanos_above [of ?d] by (auto simp: time_of_dds_def set_nanosec_def is_infinite_def)
qed

theorem dds_time_sub_borrow_witness:
  "time_of_dds (dds_time_sub (dds_time_of 1 0) (dds_time_of 0 500000000)) = None \<or>
   is_infinite (dds_time_sub (dds_time_of 1 0) (dds_time_of 0 500000000))"
  using dds_time_sub_borrow [of "dds_time_of 1 0" "dds_time_of 0 500000000"] by (simp add: dds_time_of_def)

end
