(* ===== verification/CacheChange.thy ===== *)
theory CacheChange
  imports BitmapLaws Guid RtpsTime
begin

text \<open>
  \<open>include/fastdds/rtps/common/CacheChange.hpp\<close>: a sample and its fragments. While a fragmented sample
  is being reassembled, the list of missing fragments is kept inside the payload buffer itself: the
  first four aligned octets of a missing fragment hold the index of the next missing one. The model
  keeps the buffer as a list of octets and reads and writes the links as the code does, little
  endian; \<open>None\<close> stands for an access outside the buffer and for a loop that does not end.
  \<open>uint32_t\<close> values are \<open>nat\<close> with the reduction modulo \<open>2 ^ 32\<close> written out.

  The lemmas show that the embedded list represents a set of missing fragments as long as fragments
  are multiples of four octets or have at least seven, and that any order and repetition of
  fragments then rebuilds the payload; they also give the cases in which it does not.
\<close>

subsection \<open>Memory\<close>

definition w32 :: "nat \<Rightarrow> nat" where "w32 x = x mod 4294967296"

definition sub32 :: "nat \<Rightarrow> nat \<Rightarrow> nat" where "sub32 a b = w32 (a + 4294967296 - w32 b)"

definition rd32 :: "u8 list \<Rightarrow> nat \<Rightarrow> nat option" where
  "rd32 mem off =
     (if off + 4 \<le> length mem then Some (unat (u32_of_le_bytes (take 4 (drop off mem)))) else None)"

definition mem_put :: "u8 list \<Rightarrow> nat \<Rightarrow> u8 list \<Rightarrow> u8 list option" where
  "mem_put mem off bs =
     (if off + length bs \<le> length mem
      then Some (take off mem @ bs @ drop (off + length bs) mem) else None)"

definition wr32 :: "u8 list \<Rightarrow> nat \<Rightarrow> nat \<Rightarrow> u8 list option" where
  "wr32 mem off v = mem_put mem off (u32_le_bytes (of_nat v))"

subsection \<open>Changes\<close>

datatype ChangeKind_t =
  ALIVE | NOT_ALIVE_DISPOSED | NOT_ALIVE_UNREGISTERED | NOT_ALIVE_DISPOSED_UNREGISTERED

text \<open>
  The buffer of a payload is the list of its octets, the null pointer the empty list. \<open>pl_max_size\<close> is
  the size the payload believes to have, \<open>pl_length\<close> the length of the content.
\<close>

record SerializedPayload_t =
  pl_encapsulation :: u16
  pl_length :: nat
  pl_data :: "u8 list"
  pl_max_size :: nat
  pl_pos :: nat
  is_serialized_key :: bool

record SampleIdentity =
  si_writer_guid :: GUID_t
  si_sequence_number :: int

record WriteParams =
  sample_identity :: SampleIdentity
  related_sample_identity :: SampleIdentity
  source_timestamp :: Time_t
  has_more_replies :: bool

text \<open>
  A key: sixteen octets and whether they have ever been written. A handle is defined by the flag, so a
  key of zeros is a defined handle.
\<close>

record InstanceHandle_t =
  ih_value :: "u8 list"
  ih_has_been_set :: bool

record CacheChange_t =
  cc_kind :: ChangeKind_t
  cc_writerGUID :: GUID_t
  cc_instanceHandle :: InstanceHandle_t
  cc_sequenceNumber :: int
  cc_serializedPayload :: SerializedPayload_t
  cc_inline_qos :: SerializedPayload_t
  cc_isRead :: bool
  cc_sourceTimestamp :: Time_t
  cc_vendor_id :: "u8 list"
  cc_receptionTimestamp :: Time_t
  cc_writer_ownership_strength :: nat
  cc_num_sent_submessages :: nat
  cc_write_params :: WriteParams
  cc_is_untyped :: bool
  cc_fragment_size :: nat
  cc_fragment_count :: nat
  cc_first_missing_fragment :: nat

definition CDR_BE :: u16 where "CDR_BE = 0x0000"

definition PL_CDR_LE :: u16 where "PL_CDR_LE = 0x0003"

definition payload_default :: SerializedPayload_t where
  "payload_default = \<lparr>pl_encapsulation = CDR_BE, pl_length = 0, pl_data = [], pl_max_size = 0,
     pl_pos = 0, is_serialized_key = False\<rparr>"

definition payload_reserve :: "nat \<Rightarrow> SerializedPayload_t \<Rightarrow> SerializedPayload_t" where
  "payload_reserve new_size p =
     (if new_size \<le> pl_max_size p then p
      else (if pl_data p = [] then p\<lparr>pl_data := replicate new_size 0\<rparr>
            else p\<lparr>pl_data := take (pl_max_size p) (pl_data p) @
                               replicate (new_size - pl_max_size p) 0\<rparr>)\<lparr>pl_max_size := new_size\<rparr>)"

definition payload_eq :: "SerializedPayload_t \<Rightarrow> SerializedPayload_t \<Rightarrow> bool" where
  "payload_eq p q \<longleftrightarrow> pl_encapsulation p = pl_encapsulation q \<and>
     is_serialized_key p = is_serialized_key q \<and> pl_length p = pl_length q \<and>
     0 = memcmp (take (pl_length p) (pl_data p)) (take (pl_length p) (pl_data q))"

text \<open>The flag is what \<open>copy\<close> returns; \<open>None\<close> is a \<open>memcpy\<close> outside one of the buffers.\<close>

definition payload_copy ::
  "SerializedPayload_t \<Rightarrow> bool \<Rightarrow> SerializedPayload_t \<Rightarrow> (bool \<times> SerializedPayload_t) option" where
  "payload_copy serData with_limit p =
     (let p = p\<lparr>pl_length := pl_length serData\<rparr>
      in if pl_length serData > pl_max_size p \<and> with_limit then Some (False, p)
         else
           let p = if pl_length serData > pl_max_size p
                   then payload_reserve (pl_length serData) p else p;
               p = p\<lparr>pl_encapsulation := pl_encapsulation serData,
                     is_serialized_key := is_serialized_key serData\<rparr>
           in if pl_length p = 0 then Some (True, p)
              else if pl_length p \<le> length (pl_data serData)
              then map_option (\<lambda>d. (True, p\<lparr>pl_data := d\<rparr>))
                     (mem_put (pl_data p) 0 (take (pl_length p) (pl_data serData)))
              else None)"

definition payload_reserve_fragmented ::
  "SerializedPayload_t \<Rightarrow> SerializedPayload_t \<Rightarrow> SerializedPayload_t" where
  "payload_reserve_fragmented serData p =
     p\<lparr>pl_length := pl_length serData, pl_max_size := pl_length serData,
       pl_encapsulation := pl_encapsulation serData, is_serialized_key := is_serialized_key serData,
       pl_data := replicate (pl_length serData) 0\<rparr>"

definition payload_empty :: "SerializedPayload_t \<Rightarrow> SerializedPayload_t" where
  "payload_empty p =
     p\<lparr>pl_length := 0, pl_encapsulation := CDR_BE, pl_max_size := 0, pl_data := [],
       is_serialized_key := False\<rparr>"

text \<open>The move leaves its source empty: the pair is the target and the source afterwards.\<close>

definition payload_move :: "SerializedPayload_t \<Rightarrow> SerializedPayload_t \<times> SerializedPayload_t" where
  "payload_move other = (other, payload_default)"

definition sample_identity_unknown :: SampleIdentity where
  "sample_identity_unknown = \<lparr>si_writer_guid = c_Guid_Unknown, si_sequence_number = - 4294967296\<rparr>"

definition write_params_default :: WriteParams where
  "write_params_default = \<lparr>sample_identity = sample_identity_unknown,
     related_sample_identity = sample_identity_unknown,
     source_timestamp = time_of (- 1) 0xffffffff, has_more_replies = False\<rparr>"

definition ih_init :: InstanceHandle_t where
  "ih_init = \<lparr>ih_value = replicate 16 0, ih_has_been_set = False\<rparr>"

definition ih_clear :: "InstanceHandle_t \<Rightarrow> InstanceHandle_t" where
  "ih_clear handle = handle\<lparr>ih_value := replicate 16 0, ih_has_been_set := False\<rparr>"

definition ih_of_guid :: "GUID_t \<Rightarrow> InstanceHandle_t" where
  "ih_of_guid guid =
     \<lparr>ih_value = gp_value (guidPrefix guid) @ eid_value (entityId guid), ih_has_been_set = True\<rparr>"

definition ih_isDefined :: "InstanceHandle_t \<Rightarrow> bool" where
  "ih_isDefined handle = ih_has_been_set handle"

definition ih_eq :: "InstanceHandle_t \<Rightarrow> InstanceHandle_t \<Rightarrow> bool" where
  "ih_eq x y \<longleftrightarrow> ih_has_been_set x = ih_has_been_set y \<and> ih_value x = ih_value y"

text \<open>\<open>std::array\<close> compares lexicographically, as \<open>memcmp\<close> does on octets.\<close>

definition ih_lt :: "InstanceHandle_t \<Rightarrow> InstanceHandle_t \<Rightarrow> bool" where
  "ih_lt x y = (if ih_has_been_set x then ih_has_been_set y \<and> memcmp (ih_value x) (ih_value y) < 0
                else ih_has_been_set y)"

definition change_default :: CacheChange_t where
  "change_default = \<lparr>cc_kind = ALIVE, cc_writerGUID = c_Guid_Unknown, cc_instanceHandle = ih_init,
     cc_sequenceNumber = 0, cc_serializedPayload = payload_default,
     cc_inline_qos = payload_default\<lparr>pl_encapsulation := PL_CDR_LE\<rparr>, cc_isRead = False,
     cc_sourceTimestamp = time_default, cc_vendor_id = [0, 0], cc_receptionTimestamp = time_default,
     cc_writer_ownership_strength = 0,
     cc_num_sent_submessages = 0, cc_write_params = write_params_default, cc_is_untyped = True,
     cc_fragment_size = 0, cc_fragment_count = 0, cc_first_missing_fragment = 0\<rparr>"

definition change_copy :: "CacheChange_t \<Rightarrow> CacheChange_t \<Rightarrow> (bool \<times> CacheChange_t) option" where
  "change_copy ch_ptr ch =
     map_option
       (\<lambda>(ok, p).
         (ok, ch\<lparr>cc_kind := cc_kind ch_ptr, cc_writerGUID := cc_writerGUID ch_ptr,
           cc_instanceHandle := cc_instanceHandle ch_ptr,
           cc_sequenceNumber := cc_sequenceNumber ch_ptr,
           cc_sourceTimestamp := cc_sourceTimestamp ch_ptr,
           cc_receptionTimestamp := cc_receptionTimestamp ch_ptr,
           cc_write_params := cc_write_params ch_ptr, cc_isRead := cc_isRead ch_ptr,
           cc_vendor_id := cc_vendor_id ch_ptr, cc_fragment_size := cc_fragment_size ch_ptr,
           cc_fragment_count := cc_fragment_count ch_ptr,
           cc_first_missing_fragment := cc_first_missing_fragment ch_ptr,
           cc_serializedPayload := p\<rparr>))
       (payload_copy (cc_serializedPayload ch_ptr) (\<not> cc_is_untyped ch_ptr) (cc_serializedPayload ch))"

abbreviation cc_data :: "CacheChange_t \<Rightarrow> u8 list" where
  "cc_data ch \<equiv> pl_data (cc_serializedPayload ch)"

definition set_data :: "u8 list \<Rightarrow> CacheChange_t \<Rightarrow> CacheChange_t" where
  "set_data d ch = ch\<lparr>cc_serializedPayload := (cc_serializedPayload ch)\<lparr>pl_data := d\<rparr>\<rparr>"

definition is_fully_assembled :: "CacheChange_t \<Rightarrow> bool" where
  "is_fully_assembled ch \<longleftrightarrow> cc_first_missing_fragment ch \<ge> cc_fragment_count ch"

definition contains_first_fragment :: "CacheChange_t \<Rightarrow> bool" where
  "contains_first_fragment ch \<longleftrightarrow> 0 < cc_first_missing_fragment ch"

text \<open>\<open>(offset + 3u) & ~3u\<close>: the mask has 32 bits, so the offset is cut to them.\<close>

definition next_fragment_pointer :: "CacheChange_t \<Rightarrow> nat \<Rightarrow> nat" where
  "next_fragment_pointer ch fragment_index =
     (let off = cc_fragment_size ch * fragment_index in (off + 3) mod 4294967296 div 4 * 4)"

definition get_next_missing_fragment :: "CacheChange_t \<Rightarrow> nat \<Rightarrow> nat option" where
  "get_next_missing_fragment ch fragment_index =
     rd32 (cc_data ch) (next_fragment_pointer ch fragment_index)"

definition set_next_missing_fragment ::
  "nat \<Rightarrow> nat \<Rightarrow> CacheChange_t \<Rightarrow> CacheChange_t option" where
  "set_next_missing_fragment fragment_index next_fragment_index ch =
     map_option (\<lambda>d. set_data d ch)
       (wr32 (cc_data ch) (next_fragment_pointer ch fragment_index) next_fragment_index)"

text \<open>The loop \<open>for (i = 1; i <= fragment_count_; i++)\<close>; \<open>k\<close> iterations from index \<open>i - 1\<close> on.\<close>

fun create_fragment_list :: "nat \<Rightarrow> nat \<Rightarrow> CacheChange_t \<Rightarrow> CacheChange_t option" where
  "create_fragment_list 0 i ch = Some ch"
| "create_fragment_list (Suc k) i ch =
     (case set_next_missing_fragment i (Suc i) ch of
        Some ch' \<Rightarrow> create_fragment_list k (Suc i) ch' | None \<Rightarrow> None)"

definition setFragmentSize :: "nat \<Rightarrow> bool \<Rightarrow> CacheChange_t \<Rightarrow> CacheChange_t option" where
  "setFragmentSize fragment_size create_list ch =
     (let ch = ch\<lparr>cc_fragment_size := fragment_size, cc_fragment_count := 0,
                  cc_first_missing_fragment := 0\<rparr>
      in if fragment_size > 0
         then
           let count = sub32 (w32 (pl_length (cc_serializedPayload ch) + fragment_size)) 1
                         div fragment_size;
               ch = ch\<lparr>cc_fragment_count := count\<rparr>
           in if create_list then create_fragment_list count 0 ch
              else Some (ch\<lparr>cc_first_missing_fragment := count\<rparr>)
         else Some ch)"

text \<open>
  The two loops of \<open>received_fragments\<close>: following the links until an index at or past \<open>last\<close>, with
  the flag \<open>at_least_one_changed\<close>, and searching the missing fragment before \<open>initial\<close>.
\<close>

partial_function (option) follow_links ::
  "CacheChange_t \<Rightarrow> nat \<Rightarrow> nat \<Rightarrow> bool \<Rightarrow> (nat \<times> bool) option" where
  "follow_links ch last_fragment frag changed =
     (if frag < last_fragment
      then case get_next_missing_fragment ch frag of
             Some n \<Rightarrow> follow_links ch last_fragment n True
           | None \<Rightarrow> None
      else Some (frag, changed))"

partial_function (option) find_prev ::
  "CacheChange_t \<Rightarrow> nat \<Rightarrow> nat \<Rightarrow> nat \<Rightarrow> (bool \<times> CacheChange_t) option" where
  "find_prev ch initial_fragment last_fragment current_frag =
     (if current_frag < initial_fragment
      then case get_next_missing_fragment ch current_frag of
             Some next_frag \<Rightarrow>
               if next_frag \<ge> initial_fragment
               then (case follow_links ch last_fragment next_frag False of
                       Some (next_missing_fragment, changed) \<Rightarrow>
                         if changed
                         then map_option (\<lambda>ch'. (True, ch'))
                                (set_next_missing_fragment current_frag next_missing_fragment ch)
                         else Some (False, ch)
                     | None \<Rightarrow> None)
               else find_prev ch initial_fragment last_fragment next_frag
           | None \<Rightarrow> None
      else Some (False, ch))"

declare follow_links.simps [code] find_prev.simps [code]

definition received_fragments ::
  "nat \<Rightarrow> nat \<Rightarrow> CacheChange_t \<Rightarrow> (bool \<times> CacheChange_t) option" where
  "received_fragments initial_fragment num_of_fragments ch =
     (if cc_fragment_size ch > 0 \<and> initial_fragment < cc_fragment_count ch
      then
        let last_fragment = min (w32 (initial_fragment + num_of_fragments)) (cc_fragment_count ch)
        in if initial_fragment \<le> cc_first_missing_fragment ch
           then (case follow_links ch last_fragment (cc_first_missing_fragment ch) False of
                   Some (first, changed) \<Rightarrow>
                     Some (changed, ch\<lparr>cc_first_missing_fragment := first\<rparr>)
                 | None \<Rightarrow> None)
           else find_prev ch initial_fragment last_fragment (cc_first_missing_fragment ch)
      else Some (False, ch))"

text \<open>
  \<open>add_fragments\<close>: the incoming payload is the part of the message that carries the fragments.
  \<open>memcpy\<close> reads \<open>incoming_length\<close> octets from it.
\<close>

definition add_fragments ::
  "SerializedPayload_t \<Rightarrow> nat \<Rightarrow> nat \<Rightarrow> CacheChange_t \<Rightarrow> (bool \<times> CacheChange_t) option" where
  "add_fragments incoming_data fragment_starting_num fragments_in_submessage ch =
     (let original_offset = w32 (sub32 fragment_starting_num 1 * cc_fragment_size ch);
          incoming_length = w32 (cc_fragment_size ch * fragments_in_submessage);
          last_fragment_index = sub32 (fragment_starting_num + fragments_in_submessage) 1;
          payload = cc_serializedPayload ch
      in if is_serialized_key payload \<noteq> is_serialized_key incoming_data then Some (False, ch)
         else if last_fragment_index > cc_fragment_count ch then Some (False, ch)
         else if last_fragment_index < cc_fragment_count ch \<and>
                 pl_length incoming_data < incoming_length then Some (False, ch)
         else
           let incoming_length =
                 (if last_fragment_index < cc_fragment_count ch then incoming_length
                  else sub32 (pl_length payload) original_offset)
           in if w32 (original_offset + incoming_length) > pl_length payload then Some (False, ch)
              else
                case received_fragments (sub32 fragment_starting_num 1) fragments_in_submessage ch of
                  None \<Rightarrow> None
                | Some (changed, ch) \<Rightarrow>
                    if changed
                    then if incoming_length \<le> length (pl_data incoming_data)
                         then case mem_put (cc_data ch) original_offset
                                     (take incoming_length (pl_data incoming_data)) of
                                Some d \<Rightarrow>
                                  let ch = set_data d ch in Some (is_fully_assembled ch, ch)
                              | None \<Rightarrow> None
                         else None
                    else Some (is_fully_assembled ch, ch))"

text \<open>The loop of \<open>get_missing_fragments\<close>, over the links from the first missing fragment.\<close>

partial_function (option) missing_fragments_loop ::
  "CacheChange_t \<Rightarrow> nat \<Rightarrow> u32 BitmapRange \<Rightarrow> u32 BitmapRange option" where
  "missing_fragments_loop ch current_frag frag_sns =
     (if current_frag < cc_fragment_count ch
      then case get_next_missing_fragment ch current_frag of
             Some n \<Rightarrow> missing_fragments_loop ch n
                          (snd (br_add u32_items (of_nat (current_frag + 1)) frag_sns))
           | None \<Rightarrow> None
      else Some frag_sns)"

declare missing_fragments_loop.simps [code]

definition get_missing_fragments :: "CacheChange_t \<Rightarrow> u32 BitmapRange option" where
  "get_missing_fragments ch =
     missing_fragments_loop ch (cc_first_missing_fragment ch)
       (br_set_base u32_items (of_nat (cc_first_missing_fragment ch + 1)) (br_default u32_items))"

text \<open>\<open>copy_not_memcpy\<close>: everything but the data; the fragments are those of a sample to be sent.\<close>

definition copy_not_memcpy :: "CacheChange_t \<Rightarrow> CacheChange_t \<Rightarrow> CacheChange_t option" where
  "copy_not_memcpy ch_ptr ch =
     setFragmentSize (cc_fragment_size ch_ptr) False
       (ch\<lparr>cc_kind := cc_kind ch_ptr, cc_writerGUID := cc_writerGUID ch_ptr,
           cc_instanceHandle := cc_instanceHandle ch_ptr,
           cc_sequenceNumber := cc_sequenceNumber ch_ptr,
           cc_sourceTimestamp := cc_sourceTimestamp ch_ptr,
           cc_receptionTimestamp := cc_receptionTimestamp ch_ptr,
           cc_write_params := cc_write_params ch_ptr, cc_isRead := cc_isRead ch_ptr,
           cc_vendor_id := cc_vendor_id ch_ptr,
           cc_serializedPayload := (cc_serializedPayload ch)
             \<lparr>pl_encapsulation := pl_encapsulation (cc_serializedPayload ch_ptr),
              is_serialized_key := is_serialized_key (cc_serializedPayload ch_ptr)\<rparr>\<rparr>)"

subsection \<open>Abstraction and invariants\<close>

text \<open>\<open>nxt M n k\<close>: the first element of \<open>M\<close> at or after \<open>k\<close>, or \<open>n\<close> when there is none.\<close>

definition nxt :: "nat set \<Rightarrow> nat \<Rightarrow> nat \<Rightarrow> nat" where
  "nxt M n k = (if \<exists>j\<in>M. k \<le> j then LEAST j. j \<in> M \<and> k \<le> j else n)"

definition frag_ptr :: "nat \<Rightarrow> nat \<Rightarrow> nat" where
  "frag_ptr F i = (F * i + 3) div 4 * 4"

definition good_frag :: "nat \<Rightarrow> bool" where
  "good_frag F \<longleftrightarrow> 0 < F \<and> (F mod 4 = 0 \<or> 7 \<le> F)"

text \<open>The links of a change represent the set \<open>M\<close> of missing fragments.\<close>

definition frag_rep :: "CacheChange_t \<Rightarrow> nat set \<Rightarrow> bool" where
  "frag_rep ch M \<longleftrightarrow>
     good_frag (cc_fragment_size ch) \<and> M \<subseteq> {..<cc_fragment_count ch} \<and>
     cc_fragment_size ch * cc_fragment_count ch + 3 < 4294967296 \<and>
     (\<forall>i<cc_fragment_count ch. frag_ptr (cc_fragment_size ch) i + 4 \<le> length (cc_data ch)) \<and>
     cc_first_missing_fragment ch = nxt M (cc_fragment_count ch) 0 \<and>
     (\<forall>i\<in>M. rd32 (cc_data ch) (frag_ptr (cc_fragment_size ch) i) =
        Some (nxt M (cc_fragment_count ch) (Suc i)))"

text \<open>
  The invariant of a sample being reassembled from \<open>orig\<close>: the links represent \<open>M\<close> and every octet
  of a fragment outside \<open>M\<close> is that of the original.
\<close>

definition frag_inv :: "CacheChange_t \<Rightarrow> nat set \<Rightarrow> u8 list \<Rightarrow> bool" where
  "frag_inv ch M orig \<longleftrightarrow> frag_rep ch M \<and>
     pl_length (cc_serializedPayload ch) = length orig \<and> length orig \<le> length (cc_data ch) \<and>
     cc_fragment_count ch = (length orig + cc_fragment_size ch - 1) div cc_fragment_size ch \<and>
     (\<forall>k<length orig. k div cc_fragment_size ch \<notin> M \<longrightarrow> cc_data ch ! k = orig ! k)"

text \<open>A fragment submessage: its payload, the first fragment number (from 1) and how many.\<close>

type_synonym fragment_msg = "SerializedPayload_t \<times> nat \<times> nat"

text \<open>What a correct writer sends: the octets of the sample that the numbers name.\<close>

definition is_slice :: "CacheChange_t \<Rightarrow> u8 list \<Rightarrow> fragment_msg \<Rightarrow> bool" where
  "is_slice ch orig = (\<lambda>(incoming, s, num).
     let F = cc_fragment_size ch; n = cc_fragment_count ch;
         len = (if s - 1 + num < n then F * num else length orig - F * (s - 1))
     in 1 \<le> s \<and> 1 \<le> num \<and> s - 1 + num \<le> n \<and>
        is_serialized_key incoming = is_serialized_key (cc_serializedPayload ch) \<and>
        len \<le> pl_length incoming \<and> pl_length incoming \<le> length (pl_data incoming) \<and>
        take len (pl_data incoming) = take len (drop (F * (s - 1)) orig))"

fun add_all :: "fragment_msg list \<Rightarrow> CacheChange_t \<Rightarrow> CacheChange_t option" where
  "add_all [] ch = Some ch"
| "add_all ((incoming, s, num) # ms) ch =
     (case add_fragments incoming s num ch of
        Some (_, ch') \<Rightarrow> add_all ms ch' | None \<Rightarrow> None)"

text \<open>A change with the given payload and nothing else, for examples.\<close>

definition example_change :: "nat \<Rightarrow> u8 list \<Rightarrow> CacheChange_t" where
  "example_change len d = change_default\<lparr>cc_sequenceNumber := 1, cc_serializedPayload :=
     payload_default\<lparr>pl_length := len, pl_data := d, pl_max_size := length d\<rparr>\<rparr>"

definition example_msg :: "u8 list \<Rightarrow> nat \<Rightarrow> nat \<Rightarrow> fragment_msg" where
  "example_msg d s num = (payload_default\<lparr>pl_length := length d, pl_data := d,
     pl_max_size := length d\<rparr>, s, num)"

subsection \<open>Memory\<close>

lemma mem_put_length: "mem_put mem off bs = Some mem' \<Longrightarrow> length mem' = length mem"
  by (auto simp: mem_put_def split: if_splits)

lemma mem_put_nth:
  assumes "mem_put mem off bs = Some mem'" "k < length mem"
  shows "mem' ! k = (if off \<le> k \<and> k < off + length bs then bs ! (k - off) else mem ! k)"
  using assms by (auto simp: mem_put_def nth_append min_def split: if_splits)

lemma rd32_eqI:
  assumes "length a = length b" "\<And>k. off \<le> k \<Longrightarrow> k < off + 4 \<Longrightarrow> k < length a \<Longrightarrow> a ! k = b ! k"
  shows "rd32 a off = rd32 b off"
proof (cases "off + 4 \<le> length a")
  case True
  then have "take 4 (drop off a) = take 4 (drop off b)"
    using assms by (intro nth_equalityI) auto
  then show ?thesis using assms(1) by (simp add: rd32_def)
qed (use assms in \<open>simp add: rd32_def\<close>)

lemma rd32_put_other:
  assumes "mem_put mem off bs = Some mem'" "off' + 4 \<le> off \<or> off + length bs \<le> off'"
  shows "rd32 mem' off' = rd32 mem off'"
  using assms mem_put_length [OF assms(1)] mem_put_nth [OF assms(1)]
  by (intro rd32_eqI) auto

lemma length_u32_le_bytes [simp]: "length (u32_le_bytes w) = 4"
  by (simp add: u32_le_bytes_def)

lemma wr32_same:
  assumes "wr32 mem off v = Some mem'" "v < 4294967296"
  shows "rd32 mem' off = Some v"
proof -
  have m: "off + 4 \<le> length mem" "mem' = take off mem @ u32_le_bytes (of_nat v) @ drop (off + 4) mem"
    using assms(1) by (auto simp: wr32_def mem_put_def split: if_splits)
  then have "take 4 (drop off mem') = u32_le_bytes (of_nat v)" by simp
  moreover have "unat (of_nat v :: u32) = v"
    using assms(2) by (simp add: unat_of_nat take_bit_nat_eq_self)
  ultimately show ?thesis using m by (simp add: rd32_def u32_bytes_round_trip)
qed

lemma wr32_other:
  "wr32 mem off v = Some mem' \<Longrightarrow> off' + 4 \<le> off \<or> off + 4 \<le> off' \<Longrightarrow> rd32 mem' off' = rd32 mem off'"
  by (rule rd32_put_other) (auto simp: wr32_def)

lemma wr32_defined: "off + 4 \<le> length mem \<Longrightarrow> \<exists>mem'. wr32 mem off v = Some mem'"
  by (simp add: wr32_def mem_put_def)

subsection \<open>Positions of the links\<close>

lemma frag_ptr_bounds: "F * i \<le> frag_ptr F i" "frag_ptr F i \<le> F * i + 3"
  unfolding frag_ptr_def by simp_all

lemma frag_ptr_before:
  assumes "good_frag F" "i < j"
  shows "frag_ptr F i + 4 \<le> F * j"
proof -
  have j: "F * i + F \<le> F * j" using assms(2) by (metis Suc_leI mult_Suc_right add.commute mult_le_mono2)
  show ?thesis
  proof (cases "7 \<le> F")
    case True
    then show ?thesis using frag_ptr_bounds(2) [of F i] j by linarith
  next
    case False
    then obtain q where "F = 4 * q" "0 < q" using assms(1) by (auto simp: good_frag_def)
    then have "frag_ptr F i = F * i" "4 \<le> F" by (simp_all add: frag_ptr_def)
    then show ?thesis using j by linarith
  qed
qed

lemma frag_ptr_disjoint:
  assumes "good_frag F" "i \<noteq> j"
  shows "frag_ptr F i + 4 \<le> frag_ptr F j \<or> frag_ptr F j + 4 \<le> frag_ptr F i"
  using frag_ptr_before [OF assms(1), of i j] frag_ptr_before [OF assms(1), of j i]
    frag_ptr_bounds(1) [of F i] frag_ptr_bounds(1) [of F j] assms(2)
  by linarith

lemma next_fragment_pointer_eq:
  assumes "cc_fragment_size ch * cc_fragment_count ch + 3 < 4294967296" "i < cc_fragment_count ch"
  shows "next_fragment_pointer ch i = frag_ptr (cc_fragment_size ch) i"
proof -
  have "cc_fragment_size ch * i \<le> cc_fragment_size ch * cc_fragment_count ch" using assms(2) by simp
  then have "cc_fragment_size ch * i + 3 < 4294967296" using assms(1) by linarith
  then show ?thesis by (simp add: next_fragment_pointer_def frag_ptr_def Let_def)
qed

subsection \<open>The next missing fragment\<close>

lemma nxt_in: "\<exists>j\<in>M. k \<le> j \<Longrightarrow> nxt M n k \<in> M \<and> k \<le> nxt M n k"
  unfolding nxt_def using LeastI_ex [of "\<lambda>j. j \<in> M \<and> k \<le> j"] by auto

lemma nxt_le: "j \<in> M \<Longrightarrow> k \<le> j \<Longrightarrow> nxt M n k \<le> j"
  unfolding nxt_def using Least_le [of "\<lambda>j. j \<in> M \<and> k \<le> j" j] by auto

lemma nxt_none: "\<not> (\<exists>j\<in>M. k \<le> j) \<Longrightarrow> nxt M n k = n"
  by (simp add: nxt_def)

lemma nxt_cases:
  obtains (some) "nxt M n k \<in> M" "k \<le> nxt M n k" "\<And>j. j \<in> M \<Longrightarrow> k \<le> j \<Longrightarrow> nxt M n k \<le> j"
  | (none) "nxt M n k = n" "\<And>j. j \<in> M \<Longrightarrow> j < k"
proof (cases "\<exists>j\<in>M. k \<le> j")
  case True
  then show ?thesis using nxt_in [OF True] nxt_le by (intro some) auto
next
  case False
  then show ?thesis using nxt_none [OF False] by (intro none) auto
qed

lemma nxt_eqI:
  assumes "m \<in> M" "k \<le> m" "\<And>j. j \<in> M \<Longrightarrow> k \<le> j \<Longrightarrow> m \<le> j"
  shows "nxt M n k = m"
  using assms nxt_in [of M k n] nxt_le [of m M k n] by (meson le_antisym)

lemma nxt_cong: "(\<And>j. k \<le> j \<Longrightarrow> j \<in> M \<longleftrightarrow> j \<in> M') \<Longrightarrow> nxt M n k = nxt M' n k"
proof -
  assume a: "\<And>j. k \<le> j \<Longrightarrow> j \<in> M \<longleftrightarrow> j \<in> M'"
  then have "(\<lambda>j. j \<in> M \<and> k \<le> j) = (\<lambda>j. j \<in> M' \<and> k \<le> j)" by auto
  moreover have "(\<exists>j\<in>M. k \<le> j) = (\<exists>j\<in>M'. k \<le> j)" using a by auto
  ultimately show ?thesis unfolding nxt_def by simp
qed

lemma nxt_bound: "M \<subseteq> {..<n} \<Longrightarrow> nxt M n k \<le> n"
  by (cases rule: nxt_cases [of M n k]) auto

lemma nxt_lt_in: "M \<subseteq> {..<n} \<Longrightarrow> nxt M n k < n \<Longrightarrow> nxt M n k \<in> M"
  by (cases rule: nxt_cases [of M n k]) auto

subsection \<open>The loops follow the represented set\<close>

lemma frag_rep_link:
  assumes "frag_rep ch M" "i \<in> M"
  shows "get_next_missing_fragment ch i = Some (nxt M (cc_fragment_count ch) (Suc i))"
proof -
  have "i < cc_fragment_count ch" using assms by (auto simp: frag_rep_def)
  then show ?thesis using assms next_fragment_pointer_eq [of ch i]
    by (simp add: frag_rep_def get_next_missing_fragment_def)
qed

lemma follow_links_rep:
  assumes "frag_rep ch M" "k \<le> b" "b \<le> cc_fragment_count ch"
  shows "follow_links ch b (nxt M (cc_fragment_count ch) k) c =
    Some (nxt M (cc_fragment_count ch) b, c \<or> (\<exists>j\<in>M. k \<le> j \<and> j < b))"
  using assms(2)
proof (induction "b - k" arbitrary: k c rule: less_induct)
  case less
  let ?n = "cc_fragment_count ch" and ?f = "nxt M (cc_fragment_count ch) k"
  have M: "M \<subseteq> {..<?n}" using assms(1) by (simp add: frag_rep_def)
  show ?case
  proof (cases "?f < b")
    case True
    then have f: "?f \<in> M" using nxt_lt_in [OF M, of k] assms(3) by simp
    then have k: "k \<le> ?f" using nxt_in [of M k ?n] by (metis M True assms(3) lessThan_iff nxt_none order_less_le_trans subsetD less_irrefl)
    have "follow_links ch b ?f c = follow_links ch b (nxt M ?n (Suc ?f)) True"
      using True frag_rep_link [OF assms(1) f] by (subst follow_links.simps) simp
    also have "\<dots> = Some (nxt M ?n b, True \<or> (\<exists>j\<in>M. Suc ?f \<le> j \<and> j < b))"
      using True k by (intro less.hyps) auto
    finally show ?thesis using f k True by auto
  next
    case False
    have "\<not> (\<exists>j\<in>M. k \<le> j \<and> j < b)" using False nxt_le [of _ M k ?n] by force
    moreover have "nxt M ?n b = ?f"
    proof (cases rule: nxt_cases [of M ?n k])
      case some
      then show ?thesis using False less.prems by (intro nxt_eqI) auto
    next
      case none
      then have "\<not> (\<exists>j\<in>M. b \<le> j)" using less.prems by force
      then show ?thesis using none(1) nxt_none by simp
    qed
    ultimately show ?thesis using False by (subst follow_links.simps) auto
  qed
qed

lemma find_prev_rep:
  assumes "frag_rep ch M" "a \<le> b" "b \<le> cc_fragment_count ch" "cur0 \<in> M" "cur0 < a"
  shows "\<exists>cur\<in>M. cur < a \<and> (\<forall>j\<in>M. j < a \<longrightarrow> j \<le> cur) \<and>
    find_prev ch a b cur0 =
      (if \<exists>j\<in>M. a \<le> j \<and> j < b
       then map_option (\<lambda>ch'. (True, ch'))
              (set_next_missing_fragment cur (nxt M (cc_fragment_count ch) b) ch)
       else Some (False, ch))"
  using assms(4,5)
proof (induction "a - cur0" arbitrary: cur0 rule: less_induct)
  case less
  let ?n = "cc_fragment_count ch" and ?f = "nxt M (cc_fragment_count ch) (Suc cur0)"
  have M: "M \<subseteq> {..<?n}" using assms(1) by (simp add: frag_rep_def)
  note link = frag_rep_link [OF assms(1) less.prems(1)]
  show ?case
  proof (cases "?f \<ge> a")
    case True
    then have top: "j \<le> cur0" if "j \<in> M" "j < a" for j
      using nxt_le [OF that(1), of "Suc cur0" ?n] that(2) by (meson not_less_eq_eq order_less_le_trans leD)
    have "nxt M ?n a = ?f"
    proof (cases rule: nxt_cases [of M ?n "Suc cur0"])
      case some
      then show ?thesis using True less.prems(2) by (intro nxt_eqI) auto
    next
      case none
      then have "\<not> (\<exists>j\<in>M. a \<le> j)" using less.prems(2) by force
      then show ?thesis using none(1) nxt_none by simp
    qed
    then have "follow_links ch b ?f False = Some (nxt M ?n b, \<exists>j\<in>M. a \<le> j \<and> j < b)"
      using follow_links_rep [OF assms(1-3), of False] by simp
    then have "find_prev ch a b cur0 =
      (if \<exists>j\<in>M. a \<le> j \<and> j < b
       then map_option (\<lambda>ch'. (True, ch')) (set_next_missing_fragment cur0 (nxt M ?n b) ch)
       else Some (False, ch))"
      using True less.prems(2) link by (subst find_prev.simps) simp
    then show ?thesis using less.prems top by blast
  next
    case False
    then have "?f < ?n" using assms(2,3) by simp
    then have f: "?f \<in> M" using nxt_lt_in [OF M] by simp
    then have g: "cur0 < ?f" 
      by (metis Suc_le_lessD nxt_cases [of M ?n "Suc cur0"] \<open>?f < ?n\<close> less_irrefl)
    have "find_prev ch a b cur0 = find_prev ch a b ?f"
      using False less.prems(2) link by (subst find_prev.simps) simp
    moreover have "a - ?f < a - cur0" using g False by simp
    note less.hyps [OF this f]
    ultimately show ?thesis using False by simp
  qed
qed

lemma set_data_sel [simp]:
  "cc_data (set_data d ch) = d" "cc_fragment_size (set_data d ch) = cc_fragment_size ch"
  "cc_fragment_count (set_data d ch) = cc_fragment_count ch"
  "cc_first_missing_fragment (set_data d ch) = cc_first_missing_fragment ch"
  "pl_length (cc_serializedPayload (set_data d ch)) = pl_length (cc_serializedPayload ch)"
  "is_serialized_key (cc_serializedPayload (set_data d ch)) = is_serialized_key (cc_serializedPayload ch)"
  by (simp_all add: set_data_def)

lemma frag_ptr_div:
  assumes "good_frag F" "frag_ptr F i \<le> k" "k < frag_ptr F i + 4"
  shows "k div F = i"
proof -
  have "F * i \<le> k" using frag_ptr_bounds(1) [of F i] assms(2) by linarith
  moreover have "k < F * Suc i" using frag_ptr_before [OF assms(1), of i "Suc i"] assms(3) by simp
  ultimately show ?thesis by (intro div_nat_eqI) (simp_all add: mult.commute)
qed

lemma nxt_Diff_ge: "b \<le> k \<Longrightarrow> nxt (M - {a..<b}) n k = nxt M n k"
  by (rule nxt_cong) auto

lemma nxt_Diff_skip:
  assumes "k \<le> b" "\<And>j. j \<in> M \<Longrightarrow> k \<le> j \<Longrightarrow> a \<le> j"
  shows "nxt (M - {a..<b}) n k = nxt M n b"
proof -
  have eq: "j \<in> M - {a..<b} \<and> k \<le> j \<longleftrightarrow> j \<in> M \<and> b \<le> j" for j
    using assms by fastforce
  then have "(\<exists>j\<in>M - {a..<b}. k \<le> j) = (\<exists>j\<in>M. b \<le> j)" by blast
  then show ?thesis unfolding nxt_def eq by simp
qed

text \<open>Unlinking the fragments \<open>a .. b - 1\<close> by redirecting the link of the missing one before them.\<close>

lemma frag_rep_unlink:
  assumes rep: "frag_rep ch M" and cur: "cur \<in> M" "cur < a" "\<forall>j\<in>M. j < a \<longrightarrow> j \<le> cur"
    and ab: "a < b" "b \<le> cc_fragment_count ch"
    and d: "wr32 (cc_data ch) (frag_ptr (cc_fragment_size ch) cur)
      (nxt M (cc_fragment_count ch) b) = Some d"
  shows "frag_rep (set_data d ch) (M - {a..<b})"
proof -
  let ?n = "cc_fragment_count ch" and ?F = "cc_fragment_size ch"
  have F: "good_frag ?F" "0 < ?F" and M: "M \<subseteq> {..<?n}" using rep by (auto simp: frag_rep_def good_frag_def)
  have dl: "length d = length (cc_data ch)" using d mem_put_length by (auto simp: wr32_def)
  have "?n \<le> ?F * ?n" using F(2) by simp
  then have nb: "nxt M ?n b < 4294967296" using nxt_bound [OF M, of b] rep unfolding frag_rep_def by linarith
  have links: "rd32 d (frag_ptr ?F i) = Some (nxt (M - {a..<b}) ?n (Suc i))" if i: "i \<in> M - {a..<b}" for i
  proof -
    consider "i = cur" | "i < cur" | "b \<le> i" using i cur(3) by force
    then show ?thesis
    proof cases
      case 1
      have "nxt (M - {a..<b}) ?n (Suc cur) = nxt M ?n b" using cur ab by (intro nxt_Diff_skip) force+
      then show ?thesis using wr32_same [OF d nb] 1 by simp
    next
      case 2
      have old: "rd32 d (frag_ptr ?F i) = Some (nxt M ?n (Suc i))"
        using wr32_other [OF d, of "frag_ptr ?F i"] frag_ptr_disjoint [OF F(1), of i cur] 2 rep i
        by (auto simp: frag_rep_def)
      have le: "nxt M ?n (Suc i) \<le> cur" using nxt_le [OF cur(1), of "Suc i" ?n] 2 by simp
      have in_: "nxt M ?n (Suc i) \<in> M" "Suc i \<le> nxt M ?n (Suc i)" using nxt_in [of M "Suc i" ?n] cur(1) 2 by (meson Suc_leI)+
      have "nxt (M - {a..<b}) ?n (Suc i) = nxt M ?n (Suc i)"
        using le in_ cur(2) nxt_le [of _ M "Suc i" ?n] by (intro nxt_eqI) auto
      then show ?thesis using old by simp
    next
      case 3
      have "rd32 d (frag_ptr ?F i) = Some (nxt M ?n (Suc i))"
        using wr32_other [OF d, of "frag_ptr ?F i"] frag_ptr_disjoint [OF F(1), of i cur] 3 cur ab rep i
        by (auto simp: frag_rep_def)
      then show ?thesis using 3 nxt_Diff_ge [of b "Suc i" M a ?n] by simp
    qed
  qed
  have "nxt M ?n 0 \<in> M" "nxt M ?n 0 \<le> cur" using nxt_in [of M 0 ?n] nxt_le [OF cur(1), of 0 ?n] cur(1) by auto
  then have "nxt (M - {a..<b}) ?n 0 = nxt M ?n 0"
    using cur(2) nxt_le [of _ M 0 ?n] by (intro nxt_eqI) auto
  then show ?thesis using rep links dl by (auto simp: frag_rep_def)
qed

lemma received_fragments_inv:
  assumes "frag_inv ch M orig" "a < cc_fragment_count ch" "0 < num" "a + num < 4294967296"
  defines "b \<equiv> min (a + num) (cc_fragment_count ch)"
  shows "\<exists>ch'. received_fragments a num ch = Some (\<exists>j\<in>M. a \<le> j \<and> j < b, ch') \<and>
    frag_rep ch' (M - {a..<b}) \<and> length (cc_data ch') = length (cc_data ch) \<and>
    cc_fragment_size ch' = cc_fragment_size ch \<and> cc_fragment_count ch' = cc_fragment_count ch \<and>
    pl_length (cc_serializedPayload ch') = pl_length (cc_serializedPayload ch) \<and>
    is_serialized_key (cc_serializedPayload ch') = is_serialized_key (cc_serializedPayload ch) \<and>
    (\<forall>k<length orig. k div cc_fragment_size ch \<notin> M \<longrightarrow> cc_data ch' ! k = orig ! k)"
proof -
  let ?n = "cc_fragment_count ch" and ?F = "cc_fragment_size ch"
  have rep: "frag_rep ch M" and ab: "a < b" "b \<le> ?n" using assms by (auto simp: frag_inv_def)
  have F: "good_frag ?F" "0 < ?F" and M: "M \<subseteq> {..<?n}" using rep by (auto simp: frag_rep_def good_frag_def)
  have w: "w32 (a + num) = a + num" using assms(4) by (simp add: w32_def)
  show ?thesis
  proof (cases "a \<le> cc_first_missing_fragment ch")
    case True
    have f: "cc_first_missing_fragment ch = nxt M ?n 0" using rep by (simp add: frag_rep_def)
    have low: "a \<le> j" if "j \<in> M" for j using nxt_le [OF that, of 0 ?n] True f by simp
    have r: "received_fragments a num ch =
        Some (\<exists>j\<in>M. a \<le> j \<and> j < b, ch\<lparr>cc_first_missing_fragment := nxt M ?n b\<rparr>)"
      using follow_links_rep [OF rep, of 0 b False] True assms(2) F(2) ab f low
      by (auto simp: received_fragments_def w b_def)
    have "nxt (M - {a..<b}) ?n 0 = nxt M ?n b" using low by (intro nxt_Diff_skip) auto
    moreover have "nxt (M - {a..<b}) ?n (Suc i) = nxt M ?n (Suc i)" if "i \<in> M - {a..<b}" for i
      using that low by (intro nxt_Diff_ge) force
    ultimately have "frag_rep (ch\<lparr>cc_first_missing_fragment := nxt M ?n b\<rparr>) (M - {a..<b})"
      using rep by (auto simp: frag_rep_def)
    then show ?thesis using r assms(1) by (auto simp: frag_inv_def)
  next
    case False
    then have c0: "cc_first_missing_fragment ch \<in> M" "cc_first_missing_fragment ch < a"
      using rep nxt_lt_in [OF M, of 0] assms(2) by (auto simp: frag_rep_def)
    obtain cur where cur: "cur \<in> M" "cur < a" "\<forall>j\<in>M. j < a \<longrightarrow> j \<le> cur"
      and fp: "find_prev ch a b (cc_first_missing_fragment ch) =
        (if \<exists>j\<in>M. a \<le> j \<and> j < b
         then map_option (\<lambda>ch'. (True, ch')) (set_next_missing_fragment cur (nxt M ?n b) ch)
         else Some (False, ch))"
      using find_prev_rep [OF rep _ ab(2) c0] ab(1) by auto
    have r: "received_fragments a num ch = find_prev ch a b (cc_first_missing_fragment ch)"
      using False assms(2) F(2) by (simp add: received_fragments_def w b_def)
    show ?thesis
    proof (cases "\<exists>j\<in>M. a \<le> j \<and> j < b")
      case False
      then have "M - {a..<b} = M" by auto
      then show ?thesis using r fp False rep assms(1) by (auto simp: frag_inv_def)
    next
      case True
      have ptr: "next_fragment_pointer ch cur = frag_ptr ?F cur" "cur < ?n"
        using next_fragment_pointer_eq [of ch cur] rep cur assms(2) by (auto simp: frag_rep_def)
      then obtain d where d: "wr32 (cc_data ch) (frag_ptr ?F cur) (nxt M ?n b) = Some d"
        using wr32_defined rep by (meson frag_rep_def)
      have dl: "length d = length (cc_data ch)" using d mem_put_length by (auto simp: wr32_def)
      have res: "received_fragments a num ch = Some (\<exists>j\<in>M. a \<le> j \<and> j < b, set_data d ch)"
        using r fp True d ptr by (simp add: set_next_missing_fragment_def)
      have data: "d ! k = cc_data ch ! k" if "k < length orig" "k div ?F \<notin> M" for k
      proof -
        have "\<not> (frag_ptr ?F cur \<le> k \<and> k < frag_ptr ?F cur + 4)"
          using frag_ptr_div [OF F(1), of cur k] that(2) cur(1) by auto
        moreover have "k < length (cc_data ch)" using that assms(1) by (simp add: frag_inv_def)
        ultimately show ?thesis using d mem_put_nth [of "cc_data ch" "frag_ptr ?F cur"] by (auto simp: wr32_def)
      qed
      have "frag_rep (set_data d ch) (M - {a..<b})"
        using frag_rep_unlink [OF rep cur ab d] .
      then show ?thesis using res dl data assms(1) by (auto simp: frag_inv_def)
    qed
  qed
qed

lemma create_fragment_list_links:
  assumes "good_frag (cc_fragment_size ch)" "i + k = cc_fragment_count ch"
    "cc_fragment_size ch * cc_fragment_count ch + 3 < 4294967296"
    "\<forall>j<cc_fragment_count ch. frag_ptr (cc_fragment_size ch) j + 4 \<le> length (cc_data ch)"
  shows "\<exists>d. create_fragment_list k i ch = Some (set_data d ch) \<and> length d = length (cc_data ch) \<and>
    (\<forall>j. i \<le> j \<and> j < cc_fragment_count ch \<longrightarrow> rd32 d (frag_ptr (cc_fragment_size ch) j) = Some (Suc j)) \<and>
    (\<forall>j<i. rd32 d (frag_ptr (cc_fragment_size ch) j) =
       rd32 (cc_data ch) (frag_ptr (cc_fragment_size ch) j))"
  using assms
proof (induction k arbitrary: i ch)
  case 0
  have "set_data (cc_data ch) ch = ch" by (simp add: set_data_def)
  then show ?case using 0 by (intro exI [of _ "cc_data ch"]) auto
next
  case (Suc k)
  let ?F = "cc_fragment_size ch" and ?n = "cc_fragment_count ch"
  have i: "i < ?n" using Suc.prems(2) by simp
  obtain d where d: "wr32 (cc_data ch) (frag_ptr ?F i) (Suc i) = Some d"
    using wr32_defined i Suc.prems(4) by meson
  have dl: "length d = length (cc_data ch)" using d mem_put_length by (auto simp: wr32_def)
  have st: "set_next_missing_fragment i (Suc i) ch = Some (set_data d ch)"
    using d next_fragment_pointer_eq [OF Suc.prems(3) i] by (simp add: set_next_missing_fragment_def)
  have "?n \<le> ?F * ?n" using Suc.prems(1) by (simp add: good_frag_def)
  then have v: "rd32 d (frag_ptr ?F i) = Some (Suc i)" using wr32_same [OF d] i Suc.prems(3) by linarith
  obtain e where e: "create_fragment_list k (Suc i) (set_data d ch) = Some (set_data e (set_data d ch))"
    "length e = length d" "\<forall>j. Suc i \<le> j \<and> j < ?n \<longrightarrow> rd32 e (frag_ptr ?F j) = Some (Suc j)"
    "\<forall>j<Suc i. rd32 e (frag_ptr ?F j) = rd32 d (frag_ptr ?F j)"
    using Suc.IH [of "set_data d ch" "Suc i"] Suc.prems dl by auto
  have "set_data e (set_data d ch) = set_data e ch" by (simp add: set_data_def)
  moreover have "rd32 e (frag_ptr ?F j) = Some (Suc j)" if "i \<le> j" "j < ?n" for j
    using that e(3,4) v by (cases "j = i") auto
  moreover have "rd32 e (frag_ptr ?F j) = rd32 (cc_data ch) (frag_ptr ?F j)" if "j < i" for j
    using that e(4) wr32_other [OF d] frag_ptr_disjoint [OF Suc.prems(1), of j i] by auto
  ultimately show ?case using st e(1,2) dl by auto
qed

lemma nxt_full: "j < n \<Longrightarrow> nxt {..<n} n (Suc j) = Suc j" "nxt {..<n} n 0 = 0"
proof -
  show "nxt {..<n} n (Suc j) = Suc j" if "j < n"
    using that by (cases "Suc j < n") (auto intro: nxt_eqI simp: nxt_none)
  show "nxt {..<n} n 0 = 0" by (cases n) (auto intro: nxt_eqI simp: nxt_none)
qed

lemma w32_eq: "a < 4294967296 \<Longrightarrow> w32 a = a"
  by (simp add: w32_def)

lemma sub32_eq: "b \<le> a \<Longrightarrow> a < 4294967296 \<Longrightarrow> sub32 a b = a - b"
proof -
  assume "b \<le> a" "a < 4294967296"
  then have "a + 4294967296 - w32 b = (a - b) + 4294967296" by (simp add: w32_def)
  then show ?thesis using \<open>a < 4294967296\<close> by (simp add: sub32_def w32_def)
qed

lemma frag_count:
  "0 < F \<Longrightarrow> L + F < 4294967296 \<Longrightarrow> sub32 (w32 (L + F)) 1 div F = (L + F - 1) div F"
  by (simp add: sub32_eq w32_eq)

lemma frag_count_bounds:
  fixes L F :: nat
  assumes "0 < F"
  defines "n \<equiv> (L + F - 1) div F"
  shows "F * n \<le> L + F - 1" "L \<le> F * n" "i < n \<Longrightarrow> F * i < L"
proof -
  show 1: "F * n \<le> L + F - 1" unfolding n_def by (rule times_div_less_eq_dividend)
  have "L + F - 1 < F * n + F" unfolding n_def using dividend_less_div_times [OF assms(1), of "L + F - 1"]
    by (simp add: mult.commute add.commute)
  then show "L \<le> F * n" by linarith
  show "F * i < L" if "i < n"
  proof -
    have "F * i + F \<le> F * n" using that by (metis Suc_leI mult_Suc_right add.commute mult_le_mono2)
    then show ?thesis using 1 assms(1) by linarith
  qed
qed

lemma setFragmentSize_inv:
  assumes "good_frag F" "length orig + F + 3 < 4294967296"
    "pl_length (cc_serializedPayload ch) = length orig" "length orig \<le> length (cc_data ch)"
    "\<forall>i<(length orig + F - 1) div F. frag_ptr F i + 4 \<le> length (cc_data ch)"
  shows "\<exists>ch'. setFragmentSize F True ch = Some ch' \<and>
    frag_inv ch' {..<(length orig + F - 1) div F} orig \<and> cc_fragment_size ch' = F \<and>
    cc_fragment_count ch' = (length orig + F - 1) div F \<and>
    is_serialized_key (cc_serializedPayload ch') = is_serialized_key (cc_serializedPayload ch)"
proof -
  let ?n = "(length orig + F - 1) div F"
  have F: "0 < F" using assms(1) by (simp add: good_frag_def)
  let ?ch = "ch\<lparr>cc_fragment_size := F, cc_first_missing_fragment := 0, cc_fragment_count := ?n\<rparr>"
  have b: "F * ?n + 3 < 4294967296" using frag_count_bounds(1) [OF F, of "length orig"] assms(2) by linarith
  obtain d where d: "create_fragment_list ?n 0 ?ch = Some (set_data d ?ch)"
    "length d = length (cc_data ch)" "\<forall>j<?n. rd32 d (frag_ptr F j) = Some (Suc j)"
    using create_fragment_list_links [of ?ch 0 ?n] assms b by auto
  have "setFragmentSize F True ch = Some (set_data d ?ch)"
    using d(1) F assms(2,3) frag_count [OF F, of "length orig"] by (simp add: setFragmentSize_def Let_def)
  moreover have "frag_rep (set_data d ?ch) {..<?n}"
    using assms(1,5) d b by (auto simp: frag_rep_def nxt_full)
  moreover have "k div F < ?n" if "k < length orig" for k
    using frag_count_bounds(2) [OF F, of "length orig"] that F
    by (metis less_mult_imp_div_less mult.commute order_less_le_trans)
  ultimately show ?thesis using assms(3,4) d(2)
    by (intro exI [of _ "set_data d ?ch"]) (auto simp: frag_inv_def set_data_def)
qed

lemma frag_inv_assembled:
  assumes "frag_inv ch M orig"
  shows "is_fully_assembled ch \<longleftrightarrow> M = {}" "M = {} \<Longrightarrow> take (length orig) (cc_data ch) = orig"
proof -
  have rep: "frag_rep ch M" using assms by (simp add: frag_inv_def)
  then have M: "M \<subseteq> {..<cc_fragment_count ch}" by (simp add: frag_rep_def)
  show "is_fully_assembled ch \<longleftrightarrow> M = {}"
  proof (cases rule: nxt_cases [of M "cc_fragment_count ch" 0])
    case some
    then show ?thesis using M rep by (auto simp: is_fully_assembled_def frag_rep_def)
  next
    case none
    then show ?thesis using rep by (auto simp: is_fully_assembled_def frag_rep_def)
  qed
  show "take (length orig) (cc_data ch) = orig" if "M = {}"
    using that assms by (intro nth_equalityI) (auto simp: frag_inv_def)
qed

lemma memcpy_frag_rep:
  assumes "frag_rep ch M" "M \<inter> {a..<a + num} = {}"
    "mem_put (cc_data ch) (cc_fragment_size ch * a) bs = Some d" "length bs \<le> cc_fragment_size ch * num"
  shows "frag_rep (set_data d ch) M"
proof -
  let ?F = "cc_fragment_size ch"
  have F: "good_frag ?F" using assms(1) by (simp add: frag_rep_def)
  have "rd32 d (frag_ptr ?F i) = rd32 (cc_data ch) (frag_ptr ?F i)" if "i \<in> M" for i
  proof (cases "i < a")
    case True
    then show ?thesis using rd32_put_other [OF assms(3)] frag_ptr_before [OF F True] by auto
  next
    case False
    then have "a + num \<le> i" using that assms(2) by (auto simp: not_less)
    then have "?F * (a + num) \<le> ?F * i" by simp
    then have "?F * a + length bs \<le> frag_ptr ?F i"
      using assms(4) frag_ptr_bounds(1) [of ?F i] by (simp add: distrib_left)
    then show ?thesis using rd32_put_other [OF assms(3)] by auto
  qed
  then show ?thesis using assms(1) mem_put_length [OF assms(3)] by (auto simp: frag_rep_def)
qed

lemma memcpy_frag_data:
  assumes F: "0 < F" and d: "mem_put mem (F * a) bs = Some d"
    and old: "\<forall>k<L. k div F \<notin> M \<longrightarrow> mem ! k = orig ! k" and L: "L \<le> length mem"
    and new: "\<And>k. k < len \<Longrightarrow> bs ! k = orig ! (F * a + k)"
    and len: "length bs = len" "len = (if a + num < n then F * num else L - F * a)"
  shows "\<forall>k<L. k div F \<notin> M - {a..<a + num} \<longrightarrow> d ! k = orig ! k"
proof (intro allI impI)
  fix k assume k: "k < L" "k div F \<notin> M - {a..<a + num}"
  show "d ! k = orig ! k"
  proof (cases "F * a \<le> k \<and> k < F * a + len")
    case True
    then show ?thesis using mem_put_nth [OF d, of k] k(1) L len(1) new [of "k - F * a"] by auto
  next
    case False
    have "k div F \<notin> {a..<a + num}"
    proof
      assume "k div F \<in> {a..<a + num}"
      then have "F * a \<le> k" "k < F * (a + num)"
        using F by (auto simp: less_eq_div_iff_mult_less_eq div_less_iff_less_mult mult.commute)
      then show False using False k(1) len(2) by (auto simp: distrib_left split: if_splits)
    qed
    then show ?thesis using False mem_put_nth [OF d, of k] k L len(1) old by auto
  qed
qed

lemma add_fragments_inv:
  assumes inv: "frag_inv ch M orig" and sl: "is_slice ch orig (incoming, s, num)"
  shows "\<exists>ch'. add_fragments incoming s num ch = Some (M - {s - 1..<s - 1 + num} = {}, ch') \<and>
    frag_inv ch' (M - {s - 1..<s - 1 + num}) orig \<and> cc_fragment_size ch' = cc_fragment_size ch \<and>
    cc_fragment_count ch' = cc_fragment_count ch \<and>
    is_serialized_key (cc_serializedPayload ch') = is_serialized_key (cc_serializedPayload ch)"
proof -
  let ?n = "cc_fragment_count ch" and ?F = "cc_fragment_size ch" and ?L = "length orig"
  define a where "a = s - 1"
  define M' where "M' = M - {a..<a + num}"
  define len where "len = (if a + num < ?n then ?F * num else ?L - ?F * a)"
  have rep: "frag_rep ch M" and Lc: "pl_length (cc_serializedPayload ch) = ?L"
    and n: "?n = (?L + ?F - 1) div ?F" using inv by (auto simp: frag_inv_def)
  have F: "good_frag ?F" "0 < ?F" and big: "?F * ?n + 3 < 4294967296" using rep by (auto simp: frag_rep_def good_frag_def)
  have s: "s = a + 1" "1 \<le> num" "a + num \<le> ?n" "a < ?n"
    and key: "is_serialized_key incoming = is_serialized_key (cc_serializedPayload ch)"
    and il: "len \<le> pl_length incoming" "len \<le> length (pl_data incoming)"
    and sd: "take len (pl_data incoming) = take len (drop (?F * a) orig)"
    using sl by (auto simp: is_slice_def a_def len_def Let_def)
  note cb = frag_count_bounds [OF F(2), where L = ?L, folded n]
  have Fa: "?F * a < ?L" using cb(3) [OF s(4)] .
  have nle: "?n \<le> ?F * ?n" using F(2) by simp
  have fit: "?F * a + len \<le> ?L" "len \<le> ?F * num"
  proof -
    have e: "?F * (a + num) = ?F * a + ?F * num" by (simp add: distrib_left)
    show "?F * a + len \<le> ?L" using cb(3) [of "a + num"] e Fa by (auto simp: len_def)
    show "len \<le> ?F * num"
    proof (cases "a + num < ?n")
      case False
      then have "a + num = ?n" using s(3) by simp
      then show ?thesis using e cb(2) False by (simp add: len_def)
    qed (simp add: len_def)
  qed
  have "?F * num \<le> ?F * ?n" using s(3) by simp
  then have small: "?F * num < 4294967296" "a + num + 1 < 4294967296" "?L < 4294967296"
    using big nle s(3) cb(2) by linarith+
  have w: "sub32 s 1 = a" "w32 (a * ?F) = ?F * a" "w32 (?F * num) = ?F * num"
    "sub32 (s + num) 1 = a + num"
    using small s Fa by (simp_all add: sub32_eq w32_eq mult.commute) 
  have wl: "sub32 ?L (?F * a) = ?L - ?F * a" using Fa small by (simp add: sub32_eq)
  have wf: "w32 (?F * a + len) = ?F * a + len" using fit small by (simp add: w32_eq)
  define hit where "hit = (\<exists>j\<in>M. a \<le> j \<and> j < a + num)"
  obtain ch1 where r: "received_fragments a num ch = Some (hit, ch1)"
    "frag_rep ch1 M'" "length (cc_data ch1) = length (cc_data ch)"
    "cc_fragment_size ch1 = ?F" "cc_fragment_count ch1 = ?n"
    "pl_length (cc_serializedPayload ch1) = ?L"
    "is_serialized_key (cc_serializedPayload ch1) = is_serialized_key (cc_serializedPayload ch)"
    "\<forall>k<?L. k div ?F \<notin> M \<longrightarrow> cc_data ch1 ! k = orig ! k"
    using received_fragments_inv [OF inv s(4), of num] small(2) s(2,3) Lc by (auto simp: M'_def hit_def min_absorb1)
  have add: "add_fragments incoming s num ch =
      (if hit
       then case mem_put (cc_data ch1) (?F * a) (take len (pl_data incoming)) of
              Some d \<Rightarrow> Some (is_fully_assembled (set_data d ch1), set_data d ch1) | None \<Rightarrow> None
       else Some (is_fully_assembled ch1, ch1))"
  proof (cases "a + num < ?n")
    case True
    then have "len = ?F * num" by (simp add: len_def)
    then show ?thesis unfolding add_fragments_def Let_def w Lc
      using True key il wf fit(1) r(1) by simp
  next
    case False
    then have "len = ?L - ?F * a" "a + num = ?n" using s(3) by (simp_all add: len_def)
    then show ?thesis unfolding add_fragments_def Let_def w Lc wl
      using key il wf fit(1) r(1) by simp
  qed
  show ?thesis
  proof (cases hit)
    case False
    then have "M' = M" by (auto simp: M'_def hit_def)
    then have "frag_inv ch1 M' orig" using inv r n Lc by (auto simp: frag_inv_def)
    then show ?thesis using add False r frag_inv_assembled(1) [of ch1 M' orig]
      by (simp add: M'_def a_def)
  next
    case True
    let ?bs = "take len (pl_data incoming)"
    have lb: "length ?bs = len" using il by simp
    have "?F * a + length ?bs \<le> length (cc_data ch1)" using lb fit inv r(3) by (simp add: frag_inv_def)
    then obtain d where d: "mem_put (cc_data ch1) (?F * a) ?bs = Some d" by (auto simp: mem_put_def)
    have "M' \<inter> {a..<a + num} = {}" by (auto simp: M'_def)
    then have "frag_rep (set_data d ch1) M'"
      using memcpy_frag_rep [OF r(2), of a num ?bs d] d r(4) lb fit(2) by simp
    moreover have "\<forall>k<?L. k div ?F \<notin> M' \<longrightarrow> d ! k = orig ! k"
      unfolding M'_def
    proof (rule memcpy_frag_data [OF F(2) d r(8) _ _ lb len_def])
      show "?L \<le> length (cc_data ch1)" using inv r(3) by (simp add: frag_inv_def)
      show "?bs ! k = orig ! (?F * a + k)" if "k < len" for k
        unfolding sd using that fit(1) by simp
    qed
    ultimately have "frag_inv (set_data d ch1) M' orig"
      using inv r n mem_put_length [OF d] by (simp add: frag_inv_def)
    then show ?thesis using add True d r frag_inv_assembled(1) [of "set_data d ch1" M' orig]
      by (simp add: M'_def a_def)
  qed
qed

lemma is_slice_cong:
  "\<lbrakk>cc_fragment_size ch' = cc_fragment_size ch; cc_fragment_count ch' = cc_fragment_count ch;
    is_serialized_key (cc_serializedPayload ch') = is_serialized_key (cc_serializedPayload ch)\<rbrakk> \<Longrightarrow>
   is_slice ch' orig m = is_slice ch orig m"
  by (simp add: is_slice_def)

lemma add_all_inv:
  assumes "frag_inv ch M orig" "\<forall>m\<in>set ms. is_slice ch orig m"
  shows "\<exists>ch'. add_all ms ch = Some ch' \<and>
    frag_inv ch' (M - (\<Union>(incoming, s, num)\<in>set ms. {s - 1..<s - 1 + num})) orig"
  using assms
proof (induction ms arbitrary: ch M)
  case (Cons m ms)
  obtain incoming s num where m: "m = (incoming, s, num)" by (cases m)
  obtain ch1 where c: "add_fragments incoming s num ch = Some (M - {s - 1..<s - 1 + num} = {}, ch1)"
    "frag_inv ch1 (M - {s - 1..<s - 1 + num}) orig" "cc_fragment_size ch1 = cc_fragment_size ch"
    "cc_fragment_count ch1 = cc_fragment_count ch"
    "is_serialized_key (cc_serializedPayload ch1) = is_serialized_key (cc_serializedPayload ch)"
    using add_fragments_inv [OF Cons.prems(1), of incoming s num] Cons.prems(2) m by auto
  have "\<forall>m\<in>set ms. is_slice ch1 orig m" using Cons.prems(2) is_slice_cong [OF c(3-5)] by auto
  from Cons.IH [OF c(2) this] show ?case using c(1) m by (auto simp: Diff_eq Int_assoc)
qed simp

text \<open>The links end where they should: the missing fragments in a window of 256.\<close>

lemma missing_loop_rep:
  assumes "frag_rep ch M" "k \<le> cc_fragment_count ch" "cc_fragment_count ch < 4294967296"
    "br_wf sns" "br_full u32_items sns" "unat (br_base sns) < 4294967040"
  shows "\<exists>sns'. missing_fragments_loop ch (nxt M (cc_fragment_count ch) k) sns = Some sns' \<and>
    br_wf sns' \<and> br_full u32_items sns' \<and> br_base sns' = br_base sns \<and>
    br_items u32_items sns' = br_items u32_items sns \<union>
      {x. br_base sns \<le> x \<and> x \<le> br_base sns + 255 \<and> (\<exists>j\<in>M. k \<le> j \<and> x = of_nat (j + 1))}"
  using assms(2,4-)
proof (induction "cc_fragment_count ch - k" arbitrary: k sns rule: less_induct)
  case less
  let ?n = "cc_fragment_count ch" and ?f = "nxt M (cc_fragment_count ch) k"
  have M: "M \<subseteq> {..<?n}" using assms(1) by (simp add: frag_rep_def)
  show ?case
  proof (cases rule: nxt_cases [of M ?n k])
    case some
    define x where "x = (of_nat (?f + 1) :: u32)"
    let ?s = "snd (br_add u32_items x sns)"
    let ?W = "\<lambda>m. {x. br_base sns \<le> x \<and> x \<le> br_base sns + 255 \<and> (\<exists>j\<in>M. m \<le> j \<and> x = of_nat (j + 1))}"
    have fn: "?f < ?n" using M some(1) by auto
    note a = fn.br_add_items [OF less.prems(4,2,3), of x]
    have step: "missing_fragments_loop ch ?f sns = missing_fragments_loop ch (nxt M ?n (Suc ?f)) ?s"
      using fn frag_rep_link [OF assms(1) some(1)] by (subst missing_fragments_loop.simps) (simp add: x_def)
    have lt: "?n - Suc ?f < ?n - k" using fn some(2) by linarith
    have "\<exists>sns'. missing_fragments_loop ch (nxt M ?n (Suc ?f)) ?s = Some sns' \<and>
      br_wf sns' \<and> br_full u32_items sns' \<and> br_base sns' = br_base ?s \<and>
      br_items u32_items sns' = br_items u32_items ?s \<union> ?W (Suc ?f)"
      using less.hyps [OF lt _ a(2) a(6)] fn less.prems(4) unfolding a(5) by simp
    moreover have "br_items u32_items ?s \<union> ?W (Suc ?f) = br_items u32_items sns \<union> ?W k"
    proof -
      have eq: "j \<in> M \<and> k \<le> j \<longleftrightarrow> j = ?f \<or> j \<in> M \<and> Suc ?f \<le> j" for j
        using some(1,2) some(3) [of j] by (auto simp: le_eq_less_or_eq)
      then have "(\<exists>j\<in>M. k \<le> j \<and> y = of_nat (j + 1)) \<longleftrightarrow>
          y = x \<or> (\<exists>j\<in>M. Suc ?f \<le> j \<and> y = of_nat (j + 1))" for y :: u32
        unfolding Bex_def conj_assoc [symmetric] eq x_def by auto
      then have "?W k = {y. br_base sns \<le> y \<and> y \<le> br_base sns + 255 \<and> y = x} \<union> ?W (Suc ?f)" by auto
      moreover have "br_items u32_items ?s =
          br_items u32_items sns \<union> {y. br_base sns \<le> y \<and> y \<le> br_base sns + 255 \<and> y = x}"
        using a(1,3) by (auto simp: u32_items_def)
      ultimately show ?thesis by (simp only: Un_assoc)
    qed
    ultimately show ?thesis unfolding step a(5) by simp
  next
    case none
    then have "missing_fragments_loop ch ?f sns = Some sns" by (subst missing_fragments_loop.simps) simp
    then show ?thesis using less.prems none(2) by (auto simp: not_less dest: leD)
  qed
qed

lemma create_fragment_list_None:
  assumes "i + k = cc_fragment_count ch" "0 < k"
    "length (cc_data ch) < frag_ptr (cc_fragment_size ch) (cc_fragment_count ch - 1) + 4"
    "cc_fragment_size ch * cc_fragment_count ch + 3 < 4294967296"
  shows "create_fragment_list k i ch = None"
  using assms
proof (induction k arbitrary: i ch)
  case (Suc k)
  show ?case
  proof (cases "set_next_missing_fragment i (Suc i) ch")
    case (Some ch')
    then obtain d where d: "ch' = set_data d ch" "wr32 (cc_data ch) (next_fragment_pointer ch i) (Suc i) = Some d"
      by (auto simp: set_next_missing_fragment_def)
    have dl: "length d = length (cc_data ch)" using d(2) mem_put_length by (auto simp: wr32_def)
    have "next_fragment_pointer ch i = frag_ptr (cc_fragment_size ch) i"
      using next_fragment_pointer_eq [OF Suc.prems(4), of i] Suc.prems(1) by simp
    then have "i \<noteq> cc_fragment_count ch - 1"
      using d(2) Suc.prems(3) by (auto simp: wr32_def mem_put_def split: if_splits)
    then have "create_fragment_list k (Suc i) ch' = None"
      using Suc.prems d(1) dl by (intro Suc.IH) auto
    then show ?thesis using Some by simp
  qed simp
qed simp

lemmas example_defs =
  example_change_def example_msg_def change_default_def payload_default_def

subsection \<open>Properties\<close>

text \<open>
  C8. Reassembly: from the list of missing fragments made by \<open>setFragmentSize\<close>, adding fragments of a
  sample in any order, in groups, with repetitions and overlaps never leaves the buffer and always
  returns; the sample is reported complete exactly when every fragment has arrived, and its payload
  is then the original, although the links of the missing list live in the same buffer. The
  fragments must be multiples of four octets or have at least seven, and the buffer must have six
  octets to spare.
\<close>

theorem fragments_reassemble:
  assumes "good_frag F" "length orig + F + 3 < 4294967296"
    "pl_length (cc_serializedPayload ch) = length orig" "length orig + 6 \<le> length (cc_data ch)"
    "setFragmentSize F True ch = Some ch0" "\<forall>m\<in>set ms. is_slice ch0 orig m"
  shows "\<exists>ch'. add_all ms ch0 = Some ch' \<and>
    (is_fully_assembled ch' \<longleftrightarrow> (\<forall>i<(length orig + F - 1) div F.
       \<exists>(incoming, s, num)\<in>set ms. s - 1 \<le> i \<and> i < s - 1 + num)) \<and>
    (is_fully_assembled ch' \<longrightarrow> take (length orig) (cc_data ch') = orig)"
proof -
  let ?n = "(length orig + F - 1) div F"
  let ?C = "\<Union>(incoming, s, num)\<in>set ms. {s - 1..<s - 1 + num}"
  have F: "0 < F" using assms(1) by (simp add: good_frag_def)
  have "frag_ptr F i + 4 \<le> length (cc_data ch)" if "i < ?n" for i
    using frag_ptr_bounds(2) [of F i] frag_count_bounds(3) [OF F that] assms(4) by linarith
  then have "frag_inv ch0 {..<?n} orig"
    using setFragmentSize_inv [OF assms(1-3)] assms(4,5) by auto
  from add_all_inv [OF this assms(6)] obtain ch' where
    c: "add_all ms ch0 = Some ch'" "frag_inv ch' ({..<?n} - ?C) orig" by blast
  have "({..<?n} - ?C = {}) \<longleftrightarrow>
      (\<forall>i<?n. \<exists>(incoming, s, num)\<in>set ms. s - 1 \<le> i \<and> i < s - 1 + num)"
    by (fastforce simp: case_prod_unfold)
  then show ?thesis using c frag_inv_assembled [OF c(2)] by simp
qed

theorem fragments_reassemble_witness:
  "\<exists>ch0. setFragmentSize 4 True (example_change 5 (replicate 11 0)) = Some ch0 \<and>
     (\<exists>ch'. add_all [example_msg [5] 2 1, example_msg [1, 2, 3, 4] 1 1] ch0 = Some ch' \<and>
        is_fully_assembled ch' \<and> take 5 (cc_data ch') = [1, 2, 3, 4, 5])"
proof -
  obtain ch0 where ch0: "setFragmentSize 4 True (example_change 5 (replicate 11 0)) = Some ch0"
    "cc_fragment_size ch0 = 4" "cc_fragment_count ch0 = 2"
    "is_serialized_key (cc_serializedPayload ch0) = False"
    using setFragmentSize_inv [of 4 "[1, 2, 3, 4, 5]" "example_change 5 (replicate 11 0)"]
    by (auto simp: example_defs good_frag_def frag_ptr_def less_Suc_eq numeral_2_eq_2)
  let ?ms = "[example_msg [5] 2 1, example_msg [1, 2, 3, 4] 1 1]"
  have len: "length [1, 2, 3, 4, 5 :: u8] = 5" by simp
  have "\<exists>ch'. add_all ?ms ch0 = Some ch' \<and>
      (is_fully_assembled ch' \<longleftrightarrow> (\<forall>i<(length [1, 2, 3, 4, 5 :: u8] + 4 - 1) div 4.
         \<exists>(incoming, s, num)\<in>set ?ms. s - 1 \<le> i \<and> i < s - 1 + num)) \<and>
      (is_fully_assembled ch' \<longrightarrow> take (length [1, 2, 3, 4, 5 :: u8]) (cc_data ch') = [1, 2, 3, 4, 5])"
    by (rule fragments_reassemble [OF _ _ _ _ ch0(1)])
      (simp_all add: good_frag_def example_defs is_slice_def example_defs ch0(2-4))
  then obtain ch' where ch': "add_all ?ms ch0 = Some ch'"
    "is_fully_assembled ch' \<longleftrightarrow> (\<forall>i<(5 + 4 - 1) div 4.
         \<exists>(incoming, s, num)\<in>set ?ms. s - 1 \<le> i \<and> i < s - 1 + num)"
    "is_fully_assembled ch' \<longrightarrow> take 5 (cc_data ch') = [1, 2, 3, 4, 5]"
    unfolding len by blast
  have "\<forall>i<(5 + 4 - 1) div 4 :: nat. \<exists>(incoming, s, num)\<in>set ?ms. s - 1 \<le> i \<and> i < s - 1 + num"
    by (auto simp: example_defs less_Suc_eq numeral_2_eq_2)
  then have "is_fully_assembled ch'" using ch'(2) by blast
  then show ?thesis using ch0(1) ch'(1,3) by blast
qed

text \<open>
  C17. The set a NACK_FRAG asks for: \<open>get_missing_fragments\<close> ends and returns exactly the numbers (from 1)
  of the missing fragments within the 256 that follow the first missing one.
\<close>

theorem get_missing_fragments_exact:
  assumes "frag_inv ch M orig" "cc_fragment_count ch < 4294967039"
  shows "\<exists>sns. get_missing_fragments ch = Some sns \<and>
    (\<forall>x. br_is_set u32_items sns x \<longleftrightarrow>
      (\<exists>j\<in>M. x = of_nat (j + 1)) \<and> br_base sns \<le> x \<and> x \<le> br_base sns + 255) \<and>
    br_base sns = of_nat (cc_first_missing_fragment ch + 1)"
proof -
  have rep: "frag_rep ch M" using assms(1) by (simp add: frag_inv_def)
  have f: "cc_first_missing_fragment ch = nxt M (cc_fragment_count ch) 0"
    "cc_first_missing_fragment ch \<le> cc_fragment_count ch"
    using rep nxt_bound [of M "cc_fragment_count ch" 0] by (auto simp: frag_rep_def)
  let ?b = "of_nat (cc_first_missing_fragment ch + 1) :: u32"
  let ?s = "br_set_base u32_items ?b (br_default u32_items)"
  have b: "unat ?b < 4294967040" using f assms(2) by (simp add: unat_of_nat take_bit_nat_eq_self del: of_nat_add of_nat_Suc)
  have s: "?s = br_init_max u32_items ?b 255"
    by (simp add: br_set_base_def br_default_def br_init_max_def)
  note i = fn.br_init_ok [where b = ?b and k = 255]
  obtain sns where l: "missing_fragments_loop ch (cc_first_missing_fragment ch) ?s = Some sns"
    "br_wf sns" "br_full u32_items sns" "br_base sns = ?b"
    "br_items u32_items sns = {x. ?b \<le> x \<and> x \<le> ?b + 255 \<and> (\<exists>j\<in>M. x = of_nat (j + 1))}"
    using missing_loop_rep [OF rep, of 0 ?s] assms(2) b i f(1) unfolding s by auto
  then show ?thesis using b by (auto simp: get_missing_fragments_def fn.br_is_set_items)
qed

theorem get_missing_fragments_exact_witness:
  "\<exists>ch0 sns. setFragmentSize 4 True (example_change 5 (replicate 11 0)) = Some ch0 \<and>
     get_missing_fragments ch0 = Some sns \<and> br_is_set u32_items sns 2 = True"
proof -
  obtain ch0 where ch0: "setFragmentSize 4 True (example_change 5 (replicate 11 0)) = Some ch0"
    "frag_inv ch0 {..<2} [1, 2, 3, 4, 5]" "cc_fragment_count ch0 = 2"
    using setFragmentSize_inv [of 4 "[1, 2, 3, 4, 5]" "example_change 5 (replicate 11 0)"]
    by (auto simp: example_defs good_frag_def frag_ptr_def less_Suc_eq numeral_2_eq_2)
  then have "cc_first_missing_fragment ch0 = 0" by (simp add: frag_inv_def frag_rep_def nxt_full)
  then obtain sns where "get_missing_fragments ch0 = Some sns" "br_base sns = 1"
    "br_is_set u32_items sns 2 \<longleftrightarrow>
      (\<exists>j\<in>{..<2}. 2 = (of_nat (j + 1) :: u32)) \<and> br_base sns \<le> 2 \<and> 2 \<le> br_base sns + 255"
    using get_missing_fragments_exact [OF ch0(2)] ch0(3) by auto
  moreover have "\<exists>j\<in>{..<2}. 2 = (of_nat (j + 1) :: u32)" by (intro bexI [of _ 1]) simp_all
  ultimately show ?thesis using ch0(1) by auto
qed

text \<open>
  C30. \<open>setFragmentSize\<close> writes the link of the last fragment past the end of the payload when that
  fragment is shorter than four octets: with a buffer of exactly the sample's size (what
  \<open>reserve_cache(sampleSize)\<close> guarantees) it accesses memory outside the buffer.
\<close>

theorem setFragmentSize_overruns:
  assumes "4 dvd F" "0 < F" "length orig = F * q + r" "0 < r" "r < 4"
    "length orig + F + 3 < 4294967296" "pl_length (cc_serializedPayload ch) = length orig"
    "length (cc_data ch) = length orig"
  shows "setFragmentSize F True ch = None"
proof -
  let ?n = "(length orig + F - 1) div F"
  let ?ch = "ch\<lparr>cc_fragment_size := F, cc_first_missing_fragment := 0, cc_fragment_count := ?n\<rparr>"
  have "F * q + r + F - 1 = F * (q + 1) + (r - 1)" "r - 1 < F"
    using assms(1,2,4,5) by (auto dest: dvd_imp_le)
  then have n: "?n = q + 1" unfolding assms(3) using assms(2) by (intro div_nat_eqI) simp_all
  have "frag_ptr F q = F * q" using assms(1) by (auto simp: frag_ptr_def)
  then have "create_fragment_list ?n 0 ?ch = None"
    using n assms(3,5,6,8) by (intro create_fragment_list_None) (auto simp: distrib_left)
  then show ?thesis
    using assms(2,6,7) frag_count [OF assms(2), of "length orig"] by (simp add: setFragmentSize_def Let_def)
qed

theorem setFragmentSize_overruns_witness:
  "setFragmentSize 4 True (example_change 5 [1, 2, 3, 4, 5]) = None"
  by (rule setFragmentSize_overruns [of 4 "[1, 2, 3, 4, 5]" 1 1]) (simp_all add: example_defs)

text \<open>
  C29. \<open>add_fragments\<close> does not compare the length of the incoming data with what the last fragment needs:
  a missing last fragment that arrives truncated makes \<open>memcpy\<close> read past the incoming data.
\<close>

theorem add_fragments_reads_past_input:
  assumes "frag_inv ch M orig" "cc_fragment_count ch = a + 1" "a \<in> M"
    "is_serialized_key incoming = is_serialized_key (cc_serializedPayload ch)"
    "length (pl_data incoming) < length orig - cc_fragment_size ch * a"
  shows "add_fragments incoming (a + 1) 1 ch = None"
proof -
  let ?n = "cc_fragment_count ch" and ?F = "cc_fragment_size ch" and ?L = "length orig"
  have rep: "frag_rep ch M" and Lc: "pl_length (cc_serializedPayload ch) = ?L"
    and n: "?n = (?L + ?F - 1) div ?F" using assms(1) by (auto simp: frag_inv_def)
  have F: "0 < ?F" and big: "?F * ?n + 3 < 4294967296" using rep by (auto simp: frag_rep_def good_frag_def)
  note cb = frag_count_bounds [OF F, where L = ?L, folded n]
  have Fa: "?F * a < ?L" using cb(3) [of a] assms(2) by simp
  have "?n \<le> ?F * ?n" using F by simp
  then have small: "a + 2 < 4294967296" "?L < 4294967296" "?F < 4294967296"
    using big cb(2) assms(2) by (auto simp: distrib_left)
  have w: "sub32 (a + 1) 1 = a" "w32 (a * ?F) = ?F * a" "w32 (?F * 1) = ?F"
    "sub32 (a + 1 + 1) 1 = a + 1" "sub32 ?L (?F * a) = ?L - ?F * a" "w32 (?F * a + (?L - ?F * a)) = ?L"
    using small Fa by (simp_all add: sub32_eq w32_eq mult.commute)
  have hit: "\<exists>j\<in>M. a \<le> j \<and> j < Suc a" using assms(3) by auto
  obtain ch1 where r: "received_fragments a 1 ch = Some (True, ch1)"
    using received_fragments_inv [OF assms(1), of a 1] assms(2,3) small hit by auto
  show ?thesis unfolding add_fragments_def Let_def w Lc using assms(2,4,5) w r by simp
qed

theorem add_fragments_reads_past_input_witness:
  "\<exists>ch0. setFragmentSize 4 True (example_change 6 (replicate 12 0)) = Some ch0 \<and>
     add_fragments (fst (example_msg [5] 2 1)) 2 1 ch0 = None"
proof -
  obtain ch0 where ch0: "setFragmentSize 4 True (example_change 6 (replicate 12 0)) = Some ch0"
    "frag_inv ch0 {..<2} [1, 2, 3, 4, 5, 6]" "cc_fragment_size ch0 = 4" "cc_fragment_count ch0 = 2"
    "is_serialized_key (cc_serializedPayload ch0) = False"
    using setFragmentSize_inv [of 4 "[1, 2, 3, 4, 5, 6]" "example_change 6 (replicate 12 0)"]
    by (auto simp: example_defs good_frag_def frag_ptr_def less_Suc_eq numeral_2_eq_2)
  have "add_fragments (fst (example_msg [5] 2 1)) (1 + 1) 1 ch0 = None"
    by (rule add_fragments_reads_past_input [OF ch0(2)]) (simp_all add: ch0(3-5) example_defs)
  then show ?thesis using ch0(1) unfolding one_add_one by blast
qed

lemma create_fragment_list_numeral:
  "create_fragment_list (numeral k) i ch =
     (case set_next_missing_fragment i (Suc i) ch of
        Some ch' \<Rightarrow> create_fragment_list (pred_numeral k) (Suc i) ch' | None \<Rightarrow> None)"
  by (simp only: numeral_eq_Suc create_fragment_list.simps)

lemmas fragment_eval =
  set_next_missing_fragment_def get_next_missing_fragment_def next_fragment_pointer_def set_data_def
  wr32_def rd32_def mem_put_def w32_def sub32_def create_fragment_list_numeral


end
