(* ===== verification/History.thy ===== *)
theory History
  imports CacheChange "HOL-Library.Multiset"
begin

text \<open>
  \<open>History.cpp\<close>, \<open>WriterHistory.cpp\<close> and \<open>ReaderHistory.cpp\<close> of \<open>src/cpp/rtps/history\<close>: the vector of
  changes of an endpoint. An iterator is an index, \<open>length (m_changes h)\<close> the end. The record of the base
  class is extended by the one of a writer's history, as the classes are. The calls into the endpoint
  (\<open>change_removed_by_history\<close>, \<open>unsent_change_added_to_history\<close>) are arguments that act on a state \<open>'w\<close> of
  the endpoint; the writer model supplies them. Pools and locks are left out, so is the release of a
  change to its pool.

  The lemmas show the invariant of a writer's history, what additions and removals do, and the order
  of a reader's history: it is kept when the time stamps of a writer grow with its sequence numbers.
\<close>

subsection \<open>The base class\<close>

datatype MemoryManagementPolicy_t =
  PREALLOCATED_MEMORY_MODE | PREALLOCATED_WITH_REALLOC_MEMORY_MODE |
  DYNAMIC_RESERVE_MEMORY_MODE | DYNAMIC_REUSABLE_MEMORY_MODE

record HistoryAttributes =
  memoryPolicy :: MemoryManagementPolicy_t
  payloadMaxSize :: nat
  initialReservedCaches :: int
  maximumReservedCaches :: int
  extraReservedCaches :: int

text \<open>\<open>h_attached\<close>: the pointers to the endpoint and to its mutex have been set.\<close>

record History =
  m_att :: HistoryAttributes
  m_changes :: "CacheChange_t list"
  m_isHistoryFull :: bool
  h_attached :: bool

fun find_index :: "('a \<Rightarrow> bool) \<Rightarrow> 'a list \<Rightarrow> nat" where
  "find_index p [] = 0"
| "find_index p (x # xs) = (if p x then 0 else Suc (find_index p xs))"

definition erase :: "nat \<Rightarrow> 'a list \<Rightarrow> 'a list" where
  "erase i xs = take i xs @ drop (Suc i) xs"

text \<open>The first argument is the virtual \<open>matches_change\<close>, applied to an element and the change.\<close>

definition find_change_nts ::
  "(CacheChange_t \<Rightarrow> CacheChange_t \<Rightarrow> bool) \<Rightarrow> CacheChange_t \<Rightarrow> 'h History_scheme \<Rightarrow> nat" where
  "find_change_nts matches ch h = find_index (\<lambda>chi. matches chi ch) (m_changes h)"

definition matches_change :: "CacheChange_t \<Rightarrow> CacheChange_t \<Rightarrow> bool" where
  "matches_change ch_inner ch_outer \<longleftrightarrow> cc_sequenceNumber ch_inner = cc_sequenceNumber ch_outer"

definition remove_change_nts :: "nat \<Rightarrow> 'h History_scheme \<Rightarrow> nat \<times> 'h History_scheme" where
  "remove_change_nts removal h =
     (if \<not> h_attached h then (removal, h)
      else if removal = length (m_changes h) then (length (m_changes h), h)
      else (removal, h\<lparr>m_isHistoryFull := False, m_changes := erase removal (m_changes h)\<rparr>))"

text \<open>
  \<open>remove_change(CacheChange_t*)\<close> with the virtual \<open>matches_change\<close> and \<open>remove_change_nts\<close>; the latter
  also acts on the endpoint.
\<close>

definition history_remove_change ::
  "(CacheChange_t \<Rightarrow> CacheChange_t \<Rightarrow> bool) \<Rightarrow>
   (nat \<Rightarrow> 'h History_scheme \<times> 'w \<Rightarrow> nat \<times> 'h History_scheme \<times> 'w) \<Rightarrow>
   CacheChange_t \<Rightarrow> 'h History_scheme \<times> 'w \<Rightarrow> bool \<times> 'h History_scheme \<times> 'w" where
  "history_remove_change matches remove_nts ch hw =
     (let it = find_change_nts matches ch (fst hw)
      in if it = length (m_changes (fst hw)) then (False, hw)
         else
           let found = m_changes (fst hw) ! it;
               dummy_change = change_default\<lparr>cc_writerGUID := cc_writerGUID found,
                                             cc_sequenceNumber := cc_sequenceNumber found\<rparr>;
               (history_it, hw') = remove_nts it hw
           in if history_it \<noteq> length (m_changes (fst hw')) \<and>
                 matches dummy_change (m_changes (fst hw') ! history_it)
              then (False, hw') else (True, hw'))"

text \<open>The loop of \<open>remove_all_changes\<close>; it does not end when the endpoint keeps refusing.\<close>

partial_function (option) remove_all_loop ::
  "(CacheChange_t \<Rightarrow> 'h History_scheme \<times> 'w \<Rightarrow> bool \<times> 'h History_scheme \<times> 'w) \<Rightarrow>
   'h History_scheme \<times> 'w \<Rightarrow> ('h History_scheme \<times> 'w) option" where
  "remove_all_loop remove hw =
     (if m_changes (fst hw) = [] then Some hw
      else remove_all_loop remove (snd (remove (hd (m_changes (fst hw))) hw)))"

declare remove_all_loop.simps [code]

definition remove_all_changes ::
  "(CacheChange_t \<Rightarrow> 'h History_scheme \<times> 'w \<Rightarrow> bool \<times> 'h History_scheme \<times> 'w) \<Rightarrow>
   'h History_scheme \<times> 'w \<Rightarrow> (bool \<times> 'h History_scheme \<times> 'w) option" where
  "remove_all_changes remove hw =
     (if \<not> h_attached (fst hw) then Some (False, hw)
      else if m_changes (fst hw) \<noteq> []
      then map_option (\<lambda>(h, w). (True, h\<lparr>m_changes := [], m_isHistoryFull := False\<rparr>, w))
             (remove_all_loop remove hw)
      else Some (False, hw))"

definition get_min_change :: "'h History_scheme \<Rightarrow> CacheChange_t option" where
  "get_min_change h = (if m_changes h \<noteq> [] then Some (hd (m_changes h)) else None)"

definition get_max_change :: "'h History_scheme \<Rightarrow> CacheChange_t option" where
  "get_max_change h = (if m_changes h \<noteq> [] then Some (last (m_changes h)) else None)"

text \<open>\<open>get_change_nts\<close> from the iterator \<open>hint\<close>: the iterator it stops at and the change, if found.\<close>

fun get_change_loop ::
  "int \<Rightarrow> GUID_t \<Rightarrow> nat \<Rightarrow> CacheChange_t list \<Rightarrow> nat \<times> CacheChange_t option" where
  "get_change_loop seq guid i [] = (i, None)"
| "get_change_loop seq guid i (c # cs) =
     (if guid_eq (cc_writerGUID c) guid
      then if cc_sequenceNumber c = seq then (i, Some c)
           else if cc_sequenceNumber c > seq then (i, None)
           else get_change_loop seq guid (Suc i) cs
      else get_change_loop seq guid (Suc i) cs)"

definition get_change_nts ::
  "int \<Rightarrow> GUID_t \<Rightarrow> nat \<Rightarrow> 'h History_scheme \<Rightarrow> nat \<times> CacheChange_t option" where
  "get_change_nts seq guid hint h = get_change_loop seq guid hint (drop hint (m_changes h))"

definition get_change :: "int \<Rightarrow> GUID_t \<Rightarrow> 'h History_scheme \<Rightarrow> CacheChange_t option" where
  "get_change seq guid h = (if \<not> h_attached h then None else snd (get_change_nts seq guid 0 h))"

definition get_earliest_change :: "'h History_scheme \<Rightarrow> CacheChange_t option" where
  "get_earliest_change h =
     (if \<not> h_attached h then None else if m_changes h = [] then None else Some (hd (m_changes h)))"

subsection \<open>A writer's history\<close>

record WriterHistory = History +
  m_lastCacheChangeSeqNum :: int
  high_mark_for_frag :: nat

text \<open>What the history asks its writer for.\<close>

record writer_info =
  wi_guid :: GUID_t
  wi_with_key :: bool
  wi_max_payload :: nat

text \<open>
  \<open>BaseWriter::calculate_max_payload_size\<close> and \<open>get_max_allowed_payload_size\<close>: \<open>extra\<close> is the overhead that
  security and statistics add when they are compiled in, \<open>max_data\<close> the participant's
  \<open>calculateMaxDataSize\<close>.
\<close>

definition calculate_max_data_size :: "nat \<Rightarrow> nat \<Rightarrow> nat" where
  "calculate_max_data_size extra len = (let overhead = 20 + extra in if len \<le> overhead then 0 else len - overhead)"

definition calculate_max_payload_size :: "nat \<Rightarrow> (nat \<Rightarrow> nat) \<Rightarrow> nat \<Rightarrow> nat" where
  "calculate_max_payload_size extra max_data datagram_length =
     (let max_data_size = max_data datagram_length; overhead = 16 + 12 + 36 + 32 + extra
      in if overhead + 4 > max_data_size then 4 else max_data_size - overhead)"

definition get_max_allowed_payload_size :: "nat \<Rightarrow> (nat \<Rightarrow> nat) \<Rightarrow> nat \<Rightarrow> nat \<Rightarrow> nat \<Rightarrow> nat" where
  "get_max_allowed_payload_size extra max_data flow_max part_max max_output_message_size =
     (let max_size = if flow_max > part_max then part_max else flow_max;
          max_size = if max_output_message_size < max_size then max_output_message_size else max_size
      in calculate_max_payload_size extra max_data max_size div 4 * 4)"

definition get_max_fragment_payload_size :: nat where
  "get_max_fragment_payload_size = 65535 - 28 - 32 - 3"

definition initialize_change ::
  "ChangeKind_t \<Rightarrow> InstanceHandle_t \<Rightarrow> writer_info \<Rightarrow> CacheChange_t \<Rightarrow> CacheChange_t" where
  "initialize_change change_kind handle writer reserved_change =
     reserved_change\<lparr>cc_kind := change_kind, cc_instanceHandle := handle,
       cc_writerGUID := wi_guid writer, cc_num_sent_submessages := 0, cc_vendor_id := [0x01, 0x0F]\<rparr>"

definition set_fragments ::
  "writer_info \<Rightarrow> CacheChange_t \<Rightarrow> WriterHistory \<Rightarrow> (CacheChange_t \<times> WriterHistory) option" where
  "set_fragments writer ch h =
     (let h = if high_mark_for_frag h = 0 then h\<lparr>high_mark_for_frag := wi_max_payload writer\<rparr> else h;
          final_high_mark_for_frag = high_mark_for_frag h;
          inline_qos_size = pl_length (cc_inline_qos ch) +
            (if related_sample_identity (cc_write_params ch) \<noteq> sample_identity_unknown
             then 2 * 28 else 0) +
            (if has_more_replies (cc_write_params ch) then 4 else 0) +
            (if ALIVE \<noteq> cc_kind ch \<and> wi_with_key writer then 20 + 8 else 0);
          final_high_mark_for_frag =
            (if 0 < inline_qos_size
             then (let overhead = 4 + inline_qos_size
                   in if final_high_mark_for_frag < overhead + 4 then 4
                      else final_high_mark_for_frag - overhead)
             else final_high_mark_for_frag)
      in if pl_length (cc_serializedPayload ch) > final_high_mark_for_frag
         then map_option (\<lambda>ch'. (ch', h))
                (setFragmentSize (min final_high_mark_for_frag get_max_fragment_payload_size mod 65536)
                   False ch)
         else Some (ch, h))"

text \<open>
  \<open>prepare_and_add_change\<close>: \<open>now\<close> is the clock. The result carries the change as stored, the updated
  write parameters of the caller and the flag the function returns. \<open>stamp_change\<close> and \<open>push_change\<close>
  are its assignments to the change and to the vector.
\<close>

definition stamp_change :: "Time_t \<Rightarrow> WriteParams \<Rightarrow> int \<Rightarrow> CacheChange_t \<Rightarrow> CacheChange_t" where
  "stamp_change now wparams seq a_change =
     a_change\<lparr>cc_sequenceNumber := seq,
       cc_sourceTimestamp := if sint (seconds (source_timestamp wparams)) < 0 then now
                             else source_timestamp wparams,
       cc_num_sent_submessages := 0, cc_write_params := wparams\<rparr>"

definition push_change :: "CacheChange_t \<Rightarrow> WriterHistory \<Rightarrow> WriterHistory" where
  "push_change a_change h =
     (let h = h\<lparr>m_changes := m_changes h @ [a_change]\<rparr>
      in if int (length (m_changes h)) = maximumReservedCaches (m_att h)
         then h\<lparr>m_isHistoryFull := True\<rparr> else h)"

definition prepare_and_add_change ::
  "writer_info \<Rightarrow> Time_t \<Rightarrow> CacheChange_t \<Rightarrow> WriteParams \<Rightarrow> WriterHistory \<Rightarrow>
   (bool \<times> CacheChange_t \<times> WriteParams \<times> WriterHistory) option" where
  "prepare_and_add_change writer now a_change wparams h =
     (if \<not> guid_eq (cc_writerGUID a_change) (wi_guid writer) then Some (False, a_change, wparams, h)
      else if memoryPolicy (m_att h) = PREALLOCATED_MEMORY_MODE \<and>
              pl_length (cc_serializedPayload a_change) > payloadMaxSize (m_att h)
      then Some (False, a_change, wparams, h)
      else if m_isHistoryFull h then Some (False, a_change, wparams, h)
      else
        let h = h\<lparr>m_lastCacheChangeSeqNum := m_lastCacheChangeSeqNum h + 1\<rparr>;
            a_change = stamp_change now wparams (m_lastCacheChangeSeqNum h) a_change;
            si = \<lparr>si_writer_guid = cc_writerGUID a_change,
                  si_sequence_number = cc_sequenceNumber a_change\<rparr>
        in case set_fragments writer a_change h of
             Some (a_change, h) \<Rightarrow>
               Some (True, a_change, wparams\<lparr>sample_identity := si, related_sample_identity := si\<rparr>,
                     push_change a_change h)
           | None \<Rightarrow> None)"

text \<open>\<open>add_change_\<close>, with \<open>notify\<close> for the writer's \<open>unsent_change_added_to_history\<close>.\<close>

definition wh_add_change ::
  "writer_info \<Rightarrow> Time_t \<Rightarrow> (CacheChange_t \<Rightarrow> WriterHistory \<times> 'w \<Rightarrow> WriterHistory \<times> 'w) \<Rightarrow>
   CacheChange_t \<Rightarrow> WriteParams \<Rightarrow> WriterHistory \<times> 'w \<Rightarrow>
   (bool \<times> WriteParams \<times> WriterHistory \<times> 'w) option" where
  "wh_add_change writer now notify a_change wparams hw =
     (if \<not> h_attached (fst hw) then Some (False, wparams, hw)
      else map_option
        (\<lambda>(ok, a_change, wparams, h).
          if \<not> ok then (False, wparams, h, snd hw)
          else (True, wparams, notify a_change (h, snd hw)))
        (prepare_and_add_change writer now a_change wparams (fst hw)))"

definition wh_matches_change :: "GUID_t \<Rightarrow> CacheChange_t \<Rightarrow> CacheChange_t \<Rightarrow> bool" where
  "wh_matches_change writer_guid inner_change outer_change =
     (if \<not> guid_eq (cc_writerGUID outer_change) writer_guid then False
      else cc_sequenceNumber inner_change = cc_sequenceNumber outer_change)"

definition wh_remove_change_nts ::
  "(CacheChange_t \<Rightarrow> 'w \<Rightarrow> bool \<times> 'w) \<Rightarrow> nat \<Rightarrow> WriterHistory \<times> 'w \<Rightarrow>
   nat \<times> WriterHistory \<times> 'w" where
  "wh_remove_change_nts change_removed_by_history removal hw =
     (let (h, w) = hw
      in if \<not> h_attached h then (removal, h, w)
         else if removal = length (m_changes h) then (length (m_changes h), h, w)
         else
           let change = m_changes h ! removal;
               (accepted, w) = change_removed_by_history change w
           in if accepted
              then (removal, h\<lparr>m_changes := erase removal (m_changes h), m_isHistoryFull := False\<rparr>, w)
              else (removal, h, w))"

definition wh_remove_change ::
  "GUID_t \<Rightarrow> (CacheChange_t \<Rightarrow> 'w \<Rightarrow> bool \<times> 'w) \<Rightarrow> CacheChange_t \<Rightarrow> WriterHistory \<times> 'w \<Rightarrow>
   bool \<times> WriterHistory \<times> 'w" where
  "wh_remove_change guid removed ch hw =
     history_remove_change (wh_matches_change guid) (wh_remove_change_nts removed) ch hw"

definition remove_change_g ::
  "GUID_t \<Rightarrow> (CacheChange_t \<Rightarrow> 'w \<Rightarrow> bool \<times> 'w) \<Rightarrow> CacheChange_t \<Rightarrow> WriterHistory \<times> 'w \<Rightarrow>
   bool \<times> WriterHistory \<times> 'w" where
  "remove_change_g guid removed a_change hw = wh_remove_change guid removed a_change hw"

definition remove_change_and_reuse ::
  "GUID_t \<Rightarrow> (CacheChange_t \<Rightarrow> 'w \<Rightarrow> bool \<times> 'w) \<Rightarrow> int \<Rightarrow> WriterHistory \<times> 'w \<Rightarrow>
   CacheChange_t option \<times> WriterHistory \<times> 'w" where
  "remove_change_and_reuse guid removed sequence_number hw =
     (if \<not> h_attached (fst hw) then (None, hw)
      else
        let ch = change_default\<lparr>cc_sequenceNumber := sequence_number, cc_writerGUID := guid\<rparr>;
            it = find_change_nts (wh_matches_change guid) ch (fst hw)
        in if it = length (m_changes (fst hw)) then (None, hw)
           else (Some (m_changes (fst hw) ! it), snd (wh_remove_change_nts removed it hw)))"

definition remove_change_seq ::
  "GUID_t \<Rightarrow> (CacheChange_t \<Rightarrow> 'w \<Rightarrow> bool \<times> 'w) \<Rightarrow> int \<Rightarrow> WriterHistory \<times> 'w \<Rightarrow>
   bool \<times> WriterHistory \<times> 'w" where
  "remove_change_seq guid removed sequence_number hw =
     (let (p, hw) = remove_change_and_reuse guid removed sequence_number hw
      in (p \<noteq> None, hw))"

definition remove_min_change ::
  "GUID_t \<Rightarrow> (CacheChange_t \<Rightarrow> 'w \<Rightarrow> bool \<times> 'w) \<Rightarrow> WriterHistory \<times> 'w \<Rightarrow>
   bool \<times> WriterHistory \<times> 'w" where
  "remove_min_change guid removed hw =
     (if \<not> h_attached (fst hw) then (False, hw)
      else if length (m_changes (fst hw)) > 0
      then remove_change_g guid removed (hd (m_changes (fst hw))) hw
      else (False, hw))"

definition next_sequence_number :: "WriterHistory \<Rightarrow> int" where
  "next_sequence_number h = m_lastCacheChangeSeqNum h + 1"

text \<open>\<open>BaseWriter::get_seq_num_min\<close> and \<open>get_seq_num_max\<close>; the unknown number is \<open>- 2 ^ 32\<close>.\<close>

definition get_seq_num_min :: "'h History_scheme \<Rightarrow> int" where
  "get_seq_num_min h = (case get_min_change h of Some change \<Rightarrow> cc_sequenceNumber change | None \<Rightarrow> - 4294967296)"

definition get_seq_num_max :: "'h History_scheme \<Rightarrow> int" where
  "get_seq_num_max h = (case get_max_change h of Some change \<Rightarrow> cc_sequenceNumber change | None \<Rightarrow> - 4294967296)"

subsection \<open>A reader's history\<close>

definition can_change_be_added_nts :: "GUID_t \<Rightarrow> nat \<Rightarrow> 'h History_scheme \<Rightarrow> bool \<times> bool" where
  "can_change_be_added_nts writer_guid total_payload_size h =
     (if memoryPolicy (m_att h) = PREALLOCATED_MEMORY_MODE \<and> total_payload_size > payloadMaxSize (m_att h)
      then (False, True)
      else if guid_eq writer_guid c_Guid_Unknown then (False, True)
      else (True, False))"

definition history_order_cmp :: "CacheChange_t \<Rightarrow> CacheChange_t \<Rightarrow> bool" where
  "history_order_cmp lhs rhs =
     (if guid_eq (cc_writerGUID lhs) (cc_writerGUID rhs)
      then cc_sequenceNumber lhs < cc_sequenceNumber rhs
      else time_lt (cc_sourceTimestamp lhs) (cc_sourceTimestamp rhs))"

definition sorted_vector_insert :: "('a \<Rightarrow> 'a \<Rightarrow> bool) \<Rightarrow> 'a \<Rightarrow> 'a list \<Rightarrow> 'a list" where
  "sorted_vector_insert pred item collection =
     (let it = if collection \<noteq> [] \<and> pred item (last collection)
               then lower_bound (\<lambda>x. pred x item) collection else length collection
      in take it collection @ item # drop it collection)"

definition rh_add_change :: "CacheChange_t \<Rightarrow> 'h History_scheme \<Rightarrow> bool \<times> 'h History_scheme" where
  "rh_add_change a_change h =
     (if \<not> h_attached h then (False, h)
      else if memoryPolicy (m_att h) = PREALLOCATED_MEMORY_MODE \<and>
              pl_length (cc_serializedPayload a_change) > payloadMaxSize (m_att h)
      then (False, h)
      else (True, h\<lparr>m_changes := sorted_vector_insert history_order_cmp a_change (m_changes h)\<rparr>))"

definition rh_received_change :: "CacheChange_t \<Rightarrow> 'h History_scheme \<Rightarrow> bool \<times> 'h History_scheme" where
  "rh_received_change change h = rh_add_change change h"

definition rh_matches_change :: "CacheChange_t \<Rightarrow> CacheChange_t \<Rightarrow> bool" where
  "rh_matches_change inner_change outer_change \<longleftrightarrow>
     cc_sequenceNumber inner_change = cc_sequenceNumber outer_change \<and>
     guid_eq (cc_writerGUID inner_change) (cc_writerGUID outer_change)"

text \<open>The reader's \<open>change_removed_by_history\<close> gets the change and the history without it.\<close>

definition rh_remove_change_nts ::
  "(CacheChange_t \<Rightarrow> 'h History_scheme \<Rightarrow> 'w \<Rightarrow> 'w) \<Rightarrow> nat \<Rightarrow> 'h History_scheme \<times> 'w \<Rightarrow>
   nat \<times> 'h History_scheme \<times> 'w" where
  "rh_remove_change_nts change_removed_by_history removal hw =
     (let (h, w) = hw
      in if \<not> h_attached h then (removal, h, w)
         else if removal = length (m_changes h) then (length (m_changes h), h, w)
         else
           let h' = h\<lparr>m_changes := erase removal (m_changes h), m_isHistoryFull := False\<rparr>
           in (removal, h', change_removed_by_history (m_changes h ! removal) h' w))"

definition rh_remove_change ::
  "(CacheChange_t \<Rightarrow> 'h History_scheme \<Rightarrow> 'w \<Rightarrow> 'w) \<Rightarrow> CacheChange_t \<Rightarrow> 'h History_scheme \<times> 'w \<Rightarrow>
   bool \<times> 'h History_scheme \<times> 'w" where
  "rh_remove_change removed ch hw =
     history_remove_change rh_matches_change (rh_remove_change_nts removed) ch hw"

text \<open>
  The loops of \<open>remove_changes_with_pred\<close> and \<open>remove_fragmented_changes_until\<close> from an iterator on. The
  histories they run on are attached, so every removal shortens the vector.
\<close>

function remove_changes_with_pred ::
  "(CacheChange_t \<Rightarrow> 'h History_scheme \<Rightarrow> 'w \<Rightarrow> 'w) \<Rightarrow> (CacheChange_t \<Rightarrow> bool) \<Rightarrow> nat \<Rightarrow>
   'h History_scheme \<times> 'w \<Rightarrow> 'h History_scheme \<times> 'w" where
  "remove_changes_with_pred removed pred chit hw =
     (if \<not> h_attached (fst hw) \<or> length (m_changes (fst hw)) \<le> chit then hw
      else if pred (m_changes (fst hw) ! chit)
      then let (chit', hw') = rh_remove_change_nts removed chit hw
           in remove_changes_with_pred removed pred chit' hw'
      else remove_changes_with_pred removed pred (Suc chit) hw)"
  by pat_completeness auto

termination
  by (relation "measure (\<lambda>(_, _, chit, hw). length (m_changes (fst hw)) - chit)")
    (auto simp: rh_remove_change_nts_def erase_def Let_def split: prod.splits)

function fragmented_loop ::
  "(CacheChange_t \<Rightarrow> 'h History_scheme \<Rightarrow> 'w \<Rightarrow> 'w) \<Rightarrow> int \<Rightarrow> GUID_t \<Rightarrow> nat \<Rightarrow> 'h History_scheme \<times> 'w \<Rightarrow>
   'h History_scheme \<times> 'w" where
  "fragmented_loop removed seq_num writer_guid chit hw =
     (if \<not> h_attached (fst hw) \<or> length (m_changes (fst hw)) \<le> chit then hw
      else
        let item = m_changes (fst hw) ! chit
        in if guid_eq (cc_writerGUID item) writer_guid
           then if cc_sequenceNumber item < seq_num
                then if \<not> is_fully_assembled item
                     then let (chit', hw') = rh_remove_change_nts removed chit hw
                          in fragmented_loop removed seq_num writer_guid chit' hw'
                     else fragmented_loop removed seq_num writer_guid (Suc chit) hw
                else hw
           else fragmented_loop removed seq_num writer_guid (Suc chit) hw)"
  by pat_completeness auto

termination
  by (relation "measure (\<lambda>(_, _, _, chit, hw). length (m_changes (fst hw)) - chit)")
    (auto simp: rh_remove_change_nts_def erase_def Let_def split: prod.splits)

definition writer_unmatched ::
  "(CacheChange_t \<Rightarrow> 'h History_scheme \<Rightarrow> 'w \<Rightarrow> 'w) \<Rightarrow> GUID_t \<Rightarrow> 'h History_scheme \<times> 'w \<Rightarrow> 'h History_scheme \<times> 'w" where
  "writer_unmatched removed writer_guid hw =
     remove_changes_with_pred removed (\<lambda>ch. guid_eq writer_guid (cc_writerGUID ch)) 0 hw"

definition remove_changes_with_guid ::
  "(CacheChange_t \<Rightarrow> 'h History_scheme \<Rightarrow> 'w \<Rightarrow> 'w) \<Rightarrow> GUID_t \<Rightarrow> 'h History_scheme \<times> 'w \<Rightarrow>
   bool \<times> 'h History_scheme \<times> 'w" where
  "remove_changes_with_guid removed a_guid hw =
     (if \<not> h_attached (fst hw) then (False, hw)
      else (True, remove_changes_with_pred removed (\<lambda>ch. guid_eq a_guid (cc_writerGUID ch)) 0 hw))"

definition remove_fragmented_changes_until ::
  "(CacheChange_t \<Rightarrow> 'h History_scheme \<Rightarrow> 'w \<Rightarrow> 'w) \<Rightarrow> int \<Rightarrow> GUID_t \<Rightarrow> 'h History_scheme \<times> 'w \<Rightarrow>
   bool \<times> 'h History_scheme \<times> 'w" where
  "remove_fragmented_changes_until removed seq_num writer_guid hw =
     (if \<not> h_attached (fst hw) then (False, hw)
      else (True, fragmented_loop removed seq_num writer_guid 0 hw))"

definition get_min_change_from :: "GUID_t \<Rightarrow> 'h History_scheme \<Rightarrow> CacheChange_t option" where
  "get_min_change_from writerGuid h =
     List.find (\<lambda>c. guid_eq (cc_writerGUID c) writerGuid) (m_changes h)"

subsection \<open>Abstraction and invariants\<close>

text \<open>
  A writer's history holds changes of its writer with growing numbers, none above the last one given
  out, and is full exactly when it has reached a positive limit.
\<close>

definition wh_inv :: "GUID_t \<Rightarrow> WriterHistory \<Rightarrow> bool" where
  "wh_inv guid h \<longleftrightarrow> sorted_wrt (<) (map cc_sequenceNumber (m_changes h)) \<and>
     (\<forall>c\<in>set (m_changes h). cc_writerGUID c = guid \<and> cc_sequenceNumber c \<le> m_lastCacheChangeSeqNum h) \<and>
     (0 < maximumReservedCaches (m_att h) \<longrightarrow>
        int (length (m_changes h)) \<le> maximumReservedCaches (m_att h)) \<and>
     (m_isHistoryFull h \<longleftrightarrow> m_changes h \<noteq> [] \<and> int (length (m_changes h)) = maximumReservedCaches (m_att h))"

text \<open>The states of a writer's history under any behaviour of the writer it reports to.\<close>

inductive wh_reach :: "writer_info \<Rightarrow> WriterHistory \<Rightarrow> bool" for writer where
  init: "m_changes h = [] \<Longrightarrow> \<not> m_isHistoryFull h \<Longrightarrow> h_attached h \<Longrightarrow> wh_reach writer h"
| add: "wh_reach writer h \<Longrightarrow> guid_wf (cc_writerGUID a_change) \<Longrightarrow>
    prepare_and_add_change writer now a_change wparams h = Some (ok, a_change', wparams', h') \<Longrightarrow>
    wh_reach writer h'"
| removed: "wh_reach writer h \<Longrightarrow> removal \<le> length (m_changes h) \<Longrightarrow>
    wh_remove_change_nts (\<lambda>c _. (accepts c, ())) removal (h, ()) = (it, h', w') \<Longrightarrow>
    wh_reach writer h'"

text \<open>Changes of one writer appear in the order of their numbers.\<close>

definition per_writer_sorted :: "CacheChange_t list \<Rightarrow> bool" where
  "per_writer_sorted cs \<longleftrightarrow>
     sorted_wrt (\<lambda>x y. cc_writerGUID x = cc_writerGUID y \<longrightarrow> cc_sequenceNumber x < cc_sequenceNumber y) cs"

text \<open>Time stamps that grow strictly with the sequence numbers of each writer.\<close>

definition stamps_consistent :: "CacheChange_t set \<Rightarrow> bool" where
  "stamps_consistent C \<longleftrightarrow> (\<forall>x\<in>C. \<forall>y\<in>C. cc_writerGUID x = cc_writerGUID y \<longrightarrow>
     (cc_sequenceNumber x < cc_sequenceNumber y \<longleftrightarrow>
      time_lt (cc_sourceTimestamp x) (cc_sourceTimestamp y)))"

definition stamps_sorted :: "CacheChange_t list \<Rightarrow> bool" where
  "stamps_sorted cs \<longleftrightarrow> sorted_wrt (\<lambda>x y. \<not> time_lt (cc_sourceTimestamp y) (cc_sourceTimestamp x)) cs"

definition guids_wf :: "CacheChange_t list \<Rightarrow> bool" where
  "guids_wf cs \<longleftrightarrow> (\<forall>c\<in>set cs. guid_wf (cc_writerGUID c))"

definition sample_ids_distinct :: "CacheChange_t list \<Rightarrow> bool" where
  "sample_ids_distinct cs \<longleftrightarrow> distinct (map (\<lambda>c. (cc_writerGUID c, cc_sequenceNumber c)) cs)"

text \<open>The order of a reader's history and what it needs of the samples.\<close>

definition rh_ordered :: "CacheChange_t list \<Rightarrow> bool" where
  "rh_ordered cs \<longleftrightarrow> stamps_sorted cs \<and> stamps_consistent (set cs) \<and> guids_wf cs \<and> sample_ids_distinct cs"

abbreviation stale :: "int \<Rightarrow> GUID_t \<Rightarrow> CacheChange_t \<Rightarrow> bool" where
  "stale s g c \<equiv> cc_writerGUID c = g \<and> cc_sequenceNumber c < s \<and> \<not> is_fully_assembled c"

text \<open>A writer and an empty history, for examples.\<close>

definition example_writer :: writer_info where
  "example_writer = \<lparr>wi_guid = c_Guid_Unknown, wi_with_key = False, wi_max_payload = 1000\<rparr>"

definition example_history :: "CacheChange_t list \<Rightarrow> WriterHistory" where
  "example_history cs = \<lparr>m_att = \<lparr>memoryPolicy = PREALLOCATED_WITH_REALLOC_MEMORY_MODE, payloadMaxSize = 500,
     initialReservedCaches = 500, maximumReservedCaches = 10, extraReservedCaches = 1\<rparr>,
     m_changes = cs, m_isHistoryFull = False, h_attached = True,
     m_lastCacheChangeSeqNum = 7, high_mark_for_frag = 0\<rparr>"

definition example_sample :: "u8 \<Rightarrow> int \<Rightarrow> u32 \<Rightarrow> CacheChange_t" where
  "example_sample p seq sec = change_default\<lparr>cc_writerGUID :=
       GUID_t (GuidPrefix_t [p, 0, 0, 0, 0, 0, 0, 0, 0, 0, 0, 0]) (EntityId_t [0, 0, 1, 3]),
     cc_sequenceNumber := seq, cc_sourceTimestamp := time_of sec 0\<rparr>"

subsection \<open>Laws\<close>

lemma length_erase: "i < length xs \<Longrightarrow> length (erase i xs) = length xs - 1"
  by (simp add: erase_def)

lemma set_erase: "set (erase i xs) \<subseteq> set xs"
  using set_take_subset [of i xs] set_drop_subset [of "Suc i" xs] by (auto simp: erase_def)

lemma sorted_wrt_erase: "sorted_wrt P xs \<Longrightarrow> sorted_wrt P (erase i xs)"
proof -
  assume "sorted_wrt P xs"
  then have s: "sorted_wrt P (take i xs @ drop i xs)" by simp
  show ?thesis
  proof (cases "drop i xs")
    case (Cons y ys)
    then have "drop (Suc i) xs = ys" by (metis drop_Suc list.sel(3) tl_drop)
    then show ?thesis using s Cons by (simp add: erase_def sorted_wrt_append)
  next
    case Nil
    then show ?thesis using s by (simp add: erase_def sorted_wrt_append)
  qed
qed

lemma map_erase: "map f (erase i xs) = erase i (map f xs)"
  by (simp add: erase_def take_map drop_map)

lemma find_index_le: "find_index p xs \<le> length xs"
  by (induction xs) auto

lemma find_index_less: "find_index p xs < length xs \<longleftrightarrow> (\<exists>x\<in>set xs. p x)"
  by (induction xs) auto

lemma find_index_nth: "find_index p xs < length xs \<Longrightarrow> p (xs ! find_index p xs)"
  by (induction xs) auto

lemma setFragmentSize_no_list:
  "\<exists>ch'. setFragmentSize F False ch = Some ch' \<and> cc_sequenceNumber ch' = cc_sequenceNumber ch \<and>
     cc_writerGUID ch' = cc_writerGUID ch \<and> cc_fragment_size ch' = F \<and>
     cc_serializedPayload ch' = cc_serializedPayload ch"
  by (simp add: setFragmentSize_def Let_def)

lemma set_fragments_eq:
  "\<exists>mark F. set_fragments writer ch h =
     (if mark < pl_length (cc_serializedPayload ch)
      then map_option (\<lambda>ch'. (ch', if high_mark_for_frag h = 0
             then h\<lparr>high_mark_for_frag := wi_max_payload writer\<rparr> else h)) (setFragmentSize F False ch)
      else Some (ch, if high_mark_for_frag h = 0
             then h\<lparr>high_mark_for_frag := wi_max_payload writer\<rparr> else h))"
  unfolding set_fragments_def Let_def by (intro exI) (rule refl)

lemma set_fragments_fields:
  "\<exists>ch' h'. set_fragments writer ch h = Some (ch', h') \<and> cc_sequenceNumber ch' = cc_sequenceNumber ch \<and>
     cc_writerGUID ch' = cc_writerGUID ch \<and> m_changes h' = m_changes h \<and> m_att h' = m_att h \<and>
     m_lastCacheChangeSeqNum h' = m_lastCacheChangeSeqNum h \<and> m_isHistoryFull h' = m_isHistoryFull h \<and>
     h_attached h' = h_attached h"
proof -
  obtain mark F where eq: "set_fragments writer ch h =
     (if mark < pl_length (cc_serializedPayload ch)
      then map_option (\<lambda>ch'. (ch', if high_mark_for_frag h = 0
             then h\<lparr>high_mark_for_frag := wi_max_payload writer\<rparr> else h)) (setFragmentSize F False ch)
      else Some (ch, if high_mark_for_frag h = 0
             then h\<lparr>high_mark_for_frag := wi_max_payload writer\<rparr> else h))"
    using set_fragments_eq by blast
  obtain ch' where "setFragmentSize F False ch = Some ch'" "cc_sequenceNumber ch' = cc_sequenceNumber ch"
    "cc_writerGUID ch' = cc_writerGUID ch"
    using setFragmentSize_no_list by blast
  then show ?thesis unfolding eq by auto
qed

lemma prepare_and_add_change_cases:
  assumes "prepare_and_add_change writer now ch wp h = Some (ok, ch', wp', h')"
  shows "\<not> ok \<and> h' = h \<or> ok \<and> \<not> m_isHistoryFull h \<and> guid_eq (cc_writerGUID ch) (wi_guid writer) \<and>
    cc_writerGUID ch' = cc_writerGUID ch \<and> cc_sequenceNumber ch' = m_lastCacheChangeSeqNum h + 1 \<and>
    m_lastCacheChangeSeqNum h' = m_lastCacheChangeSeqNum h + 1 \<and> m_changes h' = m_changes h @ [ch'] \<and>
    m_att h' = m_att h \<and> h_attached h' = h_attached h \<and>
    m_isHistoryFull h' = (int (length (m_changes h')) = maximumReservedCaches (m_att h))"
proof -
  let ?h0 = "h\<lparr>m_lastCacheChangeSeqNum := m_lastCacheChangeSeqNum h + 1\<rparr>"
  let ?c0 = "stamp_change now wp (m_lastCacheChangeSeqNum h + 1) ch"
  have c0: "cc_sequenceNumber ?c0 = m_lastCacheChangeSeqNum h + 1" "cc_writerGUID ?c0 = cc_writerGUID ch"
    by (simp_all add: stamp_change_def)
  obtain c1 h1 where s: "set_fragments writer ?c0 ?h0 = Some (c1, h1)"
    "cc_sequenceNumber c1 = cc_sequenceNumber ?c0" "cc_writerGUID c1 = cc_writerGUID ?c0"
    "m_changes h1 = m_changes ?h0" "m_att h1 = m_att ?h0"
    "m_lastCacheChangeSeqNum h1 = m_lastCacheChangeSeqNum ?h0" "m_isHistoryFull h1 = m_isHistoryFull ?h0"
    "h_attached h1 = h_attached ?h0"
    using set_fragments_fields by blast
  show ?thesis
    using assms s c0 unfolding prepare_and_add_change_def Let_def
    by (auto simp: push_change_def Let_def split: if_splits)
qed

lemma wh_remove_change_nts_history:
  assumes "wh_remove_change_nts removed i (h, w) = (it, h', w')"
  shows "h' = h \<or> i \<noteq> length (m_changes h) \<and>
    h' = h\<lparr>m_changes := erase i (m_changes h), m_isHistoryFull := False\<rparr>"
  using assms by (auto simp: wh_remove_change_nts_def Let_def split: if_splits prod.splits)

lemma wh_inv_erase:
  assumes "wh_inv guid h" "i < length (m_changes h)"
  shows "wh_inv guid (h\<lparr>m_changes := erase i (m_changes h), m_isHistoryFull := False\<rparr>)"
  using assms length_erase [OF assms(2)] set_erase [of i "m_changes h"] unfolding wh_inv_def
  by (auto simp: map_erase sorted_wrt_erase)

lemma wh_inv_remove:
  assumes "wh_inv guid h" "i \<le> length (m_changes h)" "wh_remove_change_nts removed i (h, w) = (it, h', w')"
  shows "wh_inv guid h'"
  using wh_remove_change_nts_history [OF assms(3)] wh_inv_erase [OF assms(1)] assms(1,2) by auto

lemma wh_inv_add:
  assumes "wh_inv (wi_guid writer) h" "guid_wf (cc_writerGUID ch)" "guid_wf (wi_guid writer)"
    "prepare_and_add_change writer now ch wp h = Some (ok, ch', wp', h')"
  shows "wh_inv (wi_guid writer) h'"
  using prepare_and_add_change_cases [OF assms(4)]
proof (elim disjE conjE)
  assume a: "guid_eq (cc_writerGUID ch) (wi_guid writer)" "cc_writerGUID ch' = cc_writerGUID ch"
    "cc_sequenceNumber ch' = m_lastCacheChangeSeqNum h + 1"
    "m_lastCacheChangeSeqNum h' = m_lastCacheChangeSeqNum h + 1" "m_changes h' = m_changes h @ [ch']"
    "m_att h' = m_att h" "\<not> m_isHistoryFull h"
    "m_isHistoryFull h' = (int (length (m_changes h')) = maximumReservedCaches (m_att h))"
  have g: "cc_writerGUID ch' = wi_guid writer" using a(1,2) guid_eq_iff assms(2,3) by metis
  have old: "sorted_wrt (<) (map cc_sequenceNumber (m_changes h))"
    "\<forall>c\<in>set (m_changes h). cc_writerGUID c = wi_guid writer \<and>
       cc_sequenceNumber c \<le> m_lastCacheChangeSeqNum h"
    "0 < maximumReservedCaches (m_att h) \<Longrightarrow>
       int (length (m_changes h)) \<le> maximumReservedCaches (m_att h)"
    "m_changes h = [] \<or> int (length (m_changes h)) \<noteq> maximumReservedCaches (m_att h)"
    using assms(1) a(7) by (auto simp: wh_inv_def)
  have "sorted_wrt (<) (map cc_sequenceNumber (m_changes h'))"
    using old(1,2) a(3) by (fastforce simp: a(5) sorted_wrt_append)
  moreover have "\<forall>c\<in>set (m_changes h'). cc_writerGUID c = wi_guid writer \<and>
      cc_sequenceNumber c \<le> m_lastCacheChangeSeqNum h'"
    using old(2) a(3,4) g by (fastforce simp: a(5))
  moreover have "int (length (m_changes h')) \<le> maximumReservedCaches (m_att h')"
    if "0 < maximumReservedCaches (m_att h')"
    using old(3,4) that by (auto simp: a(5,6))
  ultimately show ?thesis using a(8) unfolding wh_inv_def by (auto simp: a(5,6))
qed (use assms(1) in simp)

lemma wh_inv_reach: "wh_reach writer h \<Longrightarrow> guid_wf (wi_guid writer) \<Longrightarrow> wh_inv (wi_guid writer) h"
proof (induction rule: wh_reach.induct)
  case (init h)
  then show ?case by (simp add: wh_inv_def)
next
  case (add h a_change now wparams ok a_change' wparams' h')
  then show ?case using wh_inv_add by blast
next
  case (removed h removal accepts it h' w')
  show ?case by (rule wh_inv_remove [OF removed.IH [OF removed.prems] removed.hyps(2,3)])
qed

lemma get_change_loop_find:
  assumes "per_writer_sorted cs" "guids_wf cs" "guid_wf g"
  shows "snd (get_change_loop s g i cs) =
    find (\<lambda>c. cc_writerGUID c = g \<and> cc_sequenceNumber c = s) cs"
  using assms
proof (induction cs arbitrary: i)
  case (Cons c cs)
  then have ih: "snd (get_change_loop s g i cs) = find (\<lambda>c. cc_writerGUID c = g \<and> cc_sequenceNumber c = s) cs" for i
    by (simp add: per_writer_sorted_def guids_wf_def)
  have "guid_eq (cc_writerGUID c) g \<longleftrightarrow> cc_writerGUID c = g"
    using Cons.prems by (intro guid_eq_iff) (auto simp: guids_wf_def)
  moreover have "find (\<lambda>c. cc_writerGUID c = g \<and> cc_sequenceNumber c = s) cs = None"
    if "cc_writerGUID c = g" "s < cc_sequenceNumber c"
    using that Cons.prems(1) by (auto simp: find_None_iff per_writer_sorted_def)
  ultimately show ?case using ih by auto
qed simp

lemma find_unique:
  assumes "per_writer_sorted cs"
  shows "find (\<lambda>c. cc_writerGUID c = g \<and> cc_sequenceNumber c = s) cs = Some c \<longleftrightarrow>
    c \<in> set cs \<and> cc_writerGUID c = g \<and> cc_sequenceNumber c = s"
  using assms by (induction cs) (auto simp: per_writer_sorted_def)

lemma get_change_iff:
  assumes "per_writer_sorted (m_changes h)" "guids_wf (m_changes h)" "guid_wf g" "h_attached h"
  shows "get_change s g h = Some c \<longleftrightarrow>
    c \<in> set (m_changes h) \<and> cc_writerGUID c = g \<and> cc_sequenceNumber c = s"
  using assms by (simp add: get_change_def get_change_nts_def get_change_loop_find find_unique)

lemma wh_inv_sorted:
  assumes "wh_inv g h" "guid_wf g"
  shows "per_writer_sorted (m_changes h)" "guids_wf (m_changes h)"
proof -
  have "sorted_wrt (\<lambda>x y. cc_sequenceNumber x < cc_sequenceNumber y) (m_changes h)"
    using assms(1) by (simp add: wh_inv_def sorted_wrt_map)
  then show "per_writer_sorted (m_changes h)"
    unfolding per_writer_sorted_def by (rule sorted_wrt_mono_rel [rotated]) auto
  show "guids_wf (m_changes h)" using assms by (auto simp: wh_inv_def guids_wf_def)
qed

lemma wh_find_change:
  assumes "wh_inv guid h" "guid_wf guid" "ch \<in> set (m_changes h)"
  shows "find_change_nts (wh_matches_change guid) ch h < length (m_changes h)"
    "m_changes h ! find_change_nts (wh_matches_change guid) ch h = ch"
proof -
  let ?i = "find_change_nts (wh_matches_change guid) ch h"
  have g: "guid_eq (cc_writerGUID c) guid" if "c \<in> set (m_changes h)" for c
    using assms that by (simp add: wh_inv_def guid_eq_iff)
  show i: "?i < length (m_changes h)"
    using assms(3) g by (auto simp: find_change_nts_def find_index_less wh_matches_change_def)
  have "cc_sequenceNumber (m_changes h ! ?i) = cc_sequenceNumber ch"
    using find_index_nth [of "\<lambda>chi. wh_matches_change guid chi ch" "m_changes h"] i
    by (auto simp: find_change_nts_def wh_matches_change_def split: if_splits)
  moreover have "inj_on cc_sequenceNumber (set (m_changes h))"
    using assms(1) by (simp add: wh_inv_def strict_sorted_iff distinct_map)
  ultimately show "m_changes h ! ?i = ch" using i assms(3) by (meson inj_onD nth_mem)
qed

lemma erase_filter:
  assumes "distinct (map f xs)" "i < length xs"
  shows "erase i xs = filter (\<lambda>x. f x \<noteq> f (xs ! i)) xs"
proof -
  have eq: "xs = take i xs @ xs ! i # drop (Suc i) xs" by (rule id_take_nth_drop [OF assms(2)])
  have d: "distinct (map f (take i xs @ xs ! i # drop (Suc i) xs))"
    using assms(1) eq by simp
  have "filter (\<lambda>x. f x \<noteq> f (xs ! i)) (take i xs) = take i xs"
    "filter (\<lambda>x. f x \<noteq> f (xs ! i)) (drop (Suc i) xs) = drop (Suc i) xs"
    using d by (auto intro!: filter_True) (metis imageI)+
  then show ?thesis by (subst (2) eq) (simp add: erase_def)
qed

lemma wh_inv_seq_distinct: "wh_inv g h \<Longrightarrow> distinct (map cc_sequenceNumber (m_changes h))"
  by (simp add: wh_inv_def strict_sorted_iff)

lemma wh_remove_change_present:
  assumes "wh_inv guid h" "guid_wf guid" "h_attached h" "ch \<in> set (m_changes h)"
    "removed ch w = (accepted, w')"
  shows "wh_remove_change guid removed ch (h, w) =
    (accepted, (if accepted
       then h\<lparr>m_changes := filter (\<lambda>c. cc_sequenceNumber c \<noteq> cc_sequenceNumber ch) (m_changes h),
              m_isHistoryFull := False\<rparr> else h), w')"
proof -
  let ?i = "find_change_nts (wh_matches_change guid) ch h"
  have i: "?i < length (m_changes h)" "m_changes h ! ?i = ch" using wh_find_change [OF assms(1,2,4)] by auto
  have er: "erase ?i (m_changes h) = filter (\<lambda>c. cc_sequenceNumber c \<noteq> cc_sequenceNumber ch) (m_changes h)"
    using erase_filter [OF wh_inv_seq_distinct [OF assms(1)] i(1)] i(2) by simp
  let ?d = "change_default\<lparr>cc_writerGUID := cc_writerGUID ch, cc_sequenceNumber := cc_sequenceNumber ch\<rparr>"
  have nts: "wh_remove_change_nts removed ?i (h, w) = (?i, (if accepted
       then h\<lparr>m_changes := erase ?i (m_changes h), m_isHistoryFull := False\<rparr> else h), w')"
    using i assms(3,5) by (simp add: wh_remove_change_nts_def)
  have m1: "wh_matches_change guid ?d ch"
    using assms(1,2,4) by (simp add: wh_matches_change_def wh_inv_def guid_eq_iff)
  have "\<not> wh_matches_change guid ?d (erase ?i (m_changes h) ! ?i)" if "?i < length (erase ?i (m_changes h))"
    using nth_mem [OF that] by (auto simp: er wh_matches_change_def)
  moreover have "length (erase ?i (m_changes h)) = ?i \<or> ?i < length (erase ?i (m_changes h))"
    using i(1) length_erase [OF i(1)] by auto
  ultimately show ?thesis
    using nts i m1 unfolding wh_remove_change_def history_remove_change_def Let_def
    by (auto simp: er split: prod.splits)
qed

lemma wh_remove_change_absent:
  assumes "\<forall>c\<in>set (m_changes h). cc_sequenceNumber c \<noteq> cc_sequenceNumber ch"
  shows "wh_remove_change guid removed ch (h, w) = (False, h, w)"
proof -
  have "\<not> find_change_nts (wh_matches_change guid) ch h < length (m_changes h)"
    using assms by (auto simp: find_change_nts_def find_index_less wh_matches_change_def)
  moreover have "find_change_nts (wh_matches_change guid) ch h \<le> length (m_changes h)"
    by (simp add: find_change_nts_def find_index_le)
  ultimately show ?thesis by (simp add: wh_remove_change_def history_remove_change_def)
qed

lemma wh_inv_filter:
  assumes "wh_inv guid h" "ch \<in> set (m_changes h)"
  shows "wh_inv guid (h\<lparr>m_changes := filter (\<lambda>c. cc_sequenceNumber c \<noteq> cc_sequenceNumber ch) (m_changes h),
              m_isHistoryFull := False\<rparr>)"
proof -
  obtain i where i: "i < length (m_changes h)" "m_changes h ! i = ch" using assms(2) by (auto simp: in_set_conv_nth)
  show ?thesis
    using wh_inv_erase [OF assms(1) i(1)] erase_filter [OF wh_inv_seq_distinct [OF assms(1)] i(1)] i(2) by simp
qed

lemma remove_all_loop_accepts:
  assumes "wh_inv guid h" "guid_wf guid" "h_attached h" "\<And>c w. fst (removed c w)"
  shows "\<exists>h' w'. remove_all_loop (wh_remove_change guid removed) (h, w) = Some (h', w') \<and> m_changes h' = []"
  using assms(1,3)
proof (induction "length (m_changes h)" arbitrary: h w rule: less_induct)
  case less
  show ?case
  proof (cases "m_changes h")
    case Nil
    then show ?thesis by (simp add: remove_all_loop.simps)
  next
    case (Cons c cs)
    obtain w1 where r: "removed c w = (True, w1)" using assms(4) by (metis prod.collapse)
    let ?h = "h\<lparr>m_changes := filter (\<lambda>x. cc_sequenceNumber x \<noteq> cc_sequenceNumber c) (m_changes h),
              m_isHistoryFull := False\<rparr>"
    have c: "c \<in> set (m_changes h)" using Cons by simp
    have st: "wh_remove_change guid removed c (h, w) = (True, ?h, w1)"
      using wh_remove_change_present [where removed = removed, OF less(2) assms(2) less(3) c r] by simp
    have "length (m_changes ?h) < length (m_changes h)" using c by (auto intro!: length_filter_less)
    moreover have "wh_inv guid ?h" by (rule wh_inv_filter [OF less(2) c])
    moreover have "h_attached ?h" using less(3) by simp
    ultimately have "\<exists>h' w'. remove_all_loop (wh_remove_change guid removed) (?h, w1) = Some (h', w') \<and> m_changes h' = []"
      by (rule less(1))
    then show ?thesis by (subst remove_all_loop.simps) (use st Cons in simp)
  qed
qed

lemma history_order_cmp_time:
  assumes "stamps_consistent C" "x \<in> C" "y \<in> C" "guid_wf (cc_writerGUID x)" "guid_wf (cc_writerGUID y)"
  shows "history_order_cmp x y \<longleftrightarrow> time_lt (cc_sourceTimestamp x) (cc_sourceTimestamp y)"
  using assms by (auto simp: history_order_cmp_def guid_eq_iff stamps_consistent_def)

lemma sorted_wrt_dropWhile:
  assumes "sorted_wrt (\<lambda>x y. p y \<longrightarrow> p x) xs" "y \<in> set (dropWhile p xs)"
  shows "\<not> p y"
  using assms
proof (induction xs)
  case (Cons x xs)
  then show ?case by (cases "p x") auto
qed simp

lemma sorted_vector_insert_stamps:
  assumes "stamps_sorted cs" "stamps_consistent (insert a (set cs))" "guids_wf (a # cs)"
  shows "stamps_sorted (sorted_vector_insert history_order_cmp a cs)"
    "set (sorted_vector_insert history_order_cmp a cs) = insert a (set cs)"
    "mset (sorted_vector_insert history_order_cmp a cs) = add_mset a (mset cs)"
proof -
  let ?t = "\<lambda>c. time_val (cc_sourceTimestamp c)" and ?p = "\<lambda>x. history_order_cmp x a"
  have cmp: "history_order_cmp x y \<longleftrightarrow> ?t x < ?t y" if "x \<in> insert a (set cs)" "y \<in> insert a (set cs)" for x y
    using history_order_cmp_time [OF assms(2) that] that assms(3) by (auto simp: time_lt_val guids_wf_def)
  have srt: "sorted_wrt (\<lambda>x y. ?t x \<le> ?t y) cs"
    using assms(1) by (simp add: stamps_sorted_def time_lt_val not_less)
  have "sorted_wrt (\<lambda>x y. ?p y \<longrightarrow> ?p x) cs"
    by (rule sorted_wrt_mono_rel [OF _ srt]) (auto simp: cmp)
  note lb = lower_bound_takeWhile [OF this] and dw = sorted_wrt_dropWhile [OF this]
  define k where "k = (if cs \<noteq> [] \<and> history_order_cmp a (last cs) then lower_bound ?p cs else length cs)"
  have ins: "sorted_vector_insert history_order_cmp a cs = take k cs @ a # drop k cs"
    unfolding sorted_vector_insert_def k_def Let_def by (rule refl)
  have le: "?t x \<le> ?t a" if "x \<in> set (take k cs)" for x
  proof (cases "cs \<noteq> [] \<and> history_order_cmp a (last cs)")
    case True
    then have "take k cs = takeWhile ?p cs" by (simp add: k_def lb flip: takeWhile_eq_take)
    then have "x \<in> set (takeWhile ?p cs)" using that by simp
    then have "x \<in> set cs \<and> ?p x" by (rule set_takeWhileD)
    then show ?thesis using cmp [of x a] by simp
  next
    case False
    then have x: "x \<in> set cs" "cs \<noteq> []" using that by (auto simp: k_def)
    then have "?t (last cs) \<le> ?t a" using False cmp [of a "last cs"] by auto
    moreover have "?t x \<le> ?t (last cs)"
    proof -
      obtain i where i: "i < length cs" "x = cs ! i" using x(1) by (auto simp: in_set_conv_nth)
      show ?thesis
        using sorted_wrt_nth_less [OF srt, of i "length cs - 1"] i x(2)
        by (cases "i = length cs - 1") (auto simp: last_conv_nth)
    qed
    ultimately show ?thesis by simp
  qed
  have ge: "?t a \<le> ?t x" if "x \<in> set (drop k cs)" for x
  proof (cases "cs \<noteq> [] \<and> history_order_cmp a (last cs)")
    case True
    then have "drop k cs = dropWhile ?p cs" by (simp add: k_def lb flip: dropWhile_eq_drop)
    then have "x \<in> set (dropWhile ?p cs)" using that by simp
    moreover have "x \<in> set cs" using that by (rule in_set_dropD)
    ultimately show ?thesis using dw [of x] cmp [of x a] by auto
  qed (use that in \<open>auto simp: k_def\<close>)
  have "?t x \<le> ?t y" if "x \<in> set (take k cs)" "y \<in> set (drop k cs)" for x y
    using le [OF that(1)] ge [OF that(2)] by simp
  then have "sorted_wrt (\<lambda>x y. ?t x \<le> ?t y) (take k cs @ a # drop k cs)"
    using le ge srt by (simp add: sorted_wrt_append sorted_wrt_take sorted_wrt_drop)
  then show "stamps_sorted (sorted_vector_insert history_order_cmp a cs)"
    unfolding ins by (simp add: stamps_sorted_def time_lt_val not_less)
  show m: "mset (sorted_vector_insert history_order_cmp a cs) = add_mset a (mset cs)"
    unfolding ins using arg_cong [OF append_take_drop_id [of k cs], of mset]
    by (simp only: mset_append mset.simps union_mset_add_mset_right)
  show "set (sorted_vector_insert history_order_cmp a cs) = insert a (set cs)"
    using arg_cong [OF m, of set_mset] by simp
qed

lemma rh_ordered_per_writer:
  assumes "rh_ordered cs"
  shows "per_writer_sorted cs"
proof -
  have "cc_sequenceNumber (cs ! i) < cc_sequenceNumber (cs ! j)"
    if "i < j" "j < length cs" "cc_writerGUID (cs ! i) = cc_writerGUID (cs ! j)" for i j
  proof -
    have "\<not> time_lt (cc_sourceTimestamp (cs ! j)) (cc_sourceTimestamp (cs ! i))"
      using assms that(1,2) by (simp add: rh_ordered_def stamps_sorted_def sorted_wrt_iff_nth_less)
    then have "\<not> cc_sequenceNumber (cs ! j) < cc_sequenceNumber (cs ! i)"
      using assms that nth_mem [of i cs] nth_mem [of j cs]
      by (auto simp: rh_ordered_def stamps_consistent_def)
    moreover have "cc_sequenceNumber (cs ! i) \<noteq> cc_sequenceNumber (cs ! j)"
      using assms that nth_eq_iff_index_eq [of "map (\<lambda>c. (cc_writerGUID c, cc_sequenceNumber c)) cs" i j]
      by (auto simp: rh_ordered_def sample_ids_distinct_def)
    ultimately show ?thesis by simp
  qed
  then show ?thesis by (simp add: per_writer_sorted_def sorted_wrt_iff_nth_less)
qed

lemma rh_ordered_insert:
  assumes "rh_ordered cs" "stamps_consistent (insert a (set cs))" "guid_wf (cc_writerGUID a)"
    "(cc_writerGUID a, cc_sequenceNumber a) \<notin> (\<lambda>c. (cc_writerGUID c, cc_sequenceNumber c)) ` set cs"
  shows "rh_ordered (sorted_vector_insert history_order_cmp a cs)"
proof -
  have g: "guids_wf (a # cs)" using assms(1,3) by (simp add: rh_ordered_def guids_wf_def)
  note ins = sorted_vector_insert_stamps [OF _ assms(2) g]
  have s: "stamps_sorted cs" using assms(1) by (simp add: rh_ordered_def)
  have "mset (map (\<lambda>c. (cc_writerGUID c, cc_sequenceNumber c)) (sorted_vector_insert history_order_cmp a cs)) =
    mset (map (\<lambda>c. (cc_writerGUID c, cc_sequenceNumber c)) (a # cs))"
    using ins(3) [OF s] by simp
  then have "distinct (map (\<lambda>c. (cc_writerGUID c, cc_sequenceNumber c)) (sorted_vector_insert history_order_cmp a cs)) \<longleftrightarrow>
    distinct (map (\<lambda>c. (cc_writerGUID c, cc_sequenceNumber c)) (a # cs))"
    by (rule mset_eq_imp_distinct_iff)
  then show ?thesis
    using ins(1,2) [OF s] assms(1,2,4) g by (auto simp: rh_ordered_def sample_ids_distinct_def guids_wf_def)
qed

declare remove_changes_with_pred.simps [simp del] fragmented_loop.simps [simp del]

lemma erase_parts:
  assumes "i < length xs"
  shows "take i (erase i xs) = take i xs" "drop i (erase i xs) = drop (Suc i) xs"
  using assms by (simp_all add: erase_def)

lemma fragmented_loop_step:
  assumes "h_attached h" "i < length (m_changes h)" "guid_eq (cc_writerGUID (m_changes h ! i)) g \<longleftrightarrow> cc_writerGUID (m_changes h ! i) = g"
  shows "fragmented_loop removed s g i (h, w) =
    (if stale s g (m_changes h ! i)
     then let h' = h\<lparr>m_changes := erase i (m_changes h), m_isHistoryFull := False\<rparr>
          in fragmented_loop removed s g i (h', removed (m_changes h ! i) h' w)
     else if cc_writerGUID (m_changes h ! i) = g \<and> \<not> cc_sequenceNumber (m_changes h ! i) < s then (h, w)
     else fragmented_loop removed s g (Suc i) (h, w))"
  using assms by (subst fragmented_loop.simps) (auto simp: rh_remove_change_nts_def Let_def)

lemma fragmented_loop_filter:
  assumes "h_attached h" "per_writer_sorted (m_changes h)" "guids_wf (m_changes h)" "guid_wf g" "i \<le> length (m_changes h)"
  shows "m_changes (fst (fragmented_loop removed s g i (h, w))) =
    take i (m_changes h) @ filter (\<lambda>c. \<not> stale s g c) (drop i (m_changes h))"
  using assms
proof (induction "length (m_changes h) - i" arbitrary: h w i rule: less_induct)
  case less
  show ?case
  proof (cases "i < length (m_changes h)")
    case False
    then show ?thesis using less(6) by (simp add: fragmented_loop.simps)
  next
    case True
    let ?c = "m_changes h ! i"
    have d: "drop i (m_changes h) = ?c # drop (Suc i) (m_changes h)"
      by (rule Cons_nth_drop_Suc [OF True, symmetric])
    have t: "take (Suc i) (m_changes h) = take i (m_changes h) @ [?c]"
      by (rule take_Suc_conv_app_nth [OF True])
    have "guid_eq (cc_writerGUID ?c) g \<longleftrightarrow> cc_writerGUID ?c = g"
      using less(4,5) True by (intro guid_eq_iff) (auto simp: guids_wf_def)
    note step = fragmented_loop_step [OF less(2) True this, of removed s w]
    consider (stale) "stale s g ?c" | (stop) "cc_writerGUID ?c = g" "\<not> cc_sequenceNumber ?c < s"
      | (keep) "\<not> stale s g ?c" "\<not> (cc_writerGUID ?c = g \<and> \<not> cc_sequenceNumber ?c < s)" by blast
    then show ?thesis
    proof cases
      case stale
      let ?h = "h\<lparr>m_changes := erase i (m_changes h), m_isHistoryFull := False\<rparr>"
      have "m_changes (fst (fragmented_loop removed s g i (?h, removed ?c ?h w))) =
        take i (m_changes ?h) @ filter (\<lambda>c. \<not> stale s g c) (drop i (m_changes ?h))"
        using less(2-5) True length_erase [OF True] set_erase [of i "m_changes h"]
        by (intro less(1)) (auto simp: per_writer_sorted_def guids_wf_def sorted_wrt_erase)
      then show ?thesis using stale step d erase_parts [OF True] by (simp add: Let_def)
    next
      case stop
      have "sorted_wrt (\<lambda>x y. cc_writerGUID x = cc_writerGUID y \<longrightarrow> cc_sequenceNumber x < cc_sequenceNumber y)
          (drop i (m_changes h))"
        using less(3) by (simp add: per_writer_sorted_def sorted_wrt_drop)
      then have "filter (\<lambda>c. \<not> stale s g c) (drop i (m_changes h)) = drop i (m_changes h)"
        using stop unfolding d by (auto intro!: filter_True)
      then show ?thesis using stop step by simp
    next
      case keep
      have "m_changes (fst (fragmented_loop removed s g (Suc i) (h, w))) =
        take (Suc i) (m_changes h) @ filter (\<lambda>c. \<not> stale s g c) (drop (Suc i) (m_changes h))"
        using less(2-5) True by (intro less(1)) auto
      moreover have "fragmented_loop removed s g i (h, w) = fragmented_loop removed s g (Suc i) (h, w)"
        by (subst step) (use keep in auto)
      ultimately show ?thesis using keep t d by simp
    qed
  qed
qed

lemma set_fragments_multiple:
  assumes "4 dvd wi_max_payload writer" "4 \<le> wi_max_payload writer"
    "high_mark_for_frag h = 0 \<or> 4 dvd high_mark_for_frag h" "4 dvd pl_length (cc_inline_qos ch)"
    "set_fragments writer ch h = Some (ch', h')"
  shows "(ch' = ch \<or> 4 dvd cc_fragment_size ch' \<and> 4 \<le> cc_fragment_size ch' \<and>
      cc_fragment_size ch' \<le> 65472 \<and> cc_fragment_size ch' < pl_length (cc_serializedPayload ch)) \<and>
    4 dvd high_mark_for_frag h' \<and> 4 \<le> high_mark_for_frag h'"
proof -
  define hm where "hm = (if high_mark_for_frag h = 0 then wi_max_payload writer else high_mark_for_frag h)"
  define q where "q = pl_length (cc_inline_qos ch) +
            (if related_sample_identity (cc_write_params ch) \<noteq> sample_identity_unknown
             then 2 * 28 else 0) +
            (if has_more_replies (cc_write_params ch) then 4 else 0) +
            (if ALIVE \<noteq> cc_kind ch \<and> wi_with_key writer then 20 + 8 else 0)"
  define m where "m = (if 0 < q then if hm < 4 + q + 4 then 4 else hm - (4 + q) else hm)"
  have hm: "4 dvd hm" "4 \<le> hm" using assms(1-3) by (auto simp: hm_def dest: dvd_imp_le)
  have q: "4 dvd q" using assms(4) by (auto simp: q_def intro!: dvd_add)
  have m: "4 dvd m" "4 \<le> m" using hm q by (auto simp: m_def intro!: dvd_diff_nat dvd_add)
  have h: "(if high_mark_for_frag h = 0 then h\<lparr>high_mark_for_frag := wi_max_payload writer\<rparr> else h) =
      h\<lparr>high_mark_for_frag := hm\<rparr>" by (simp add: hm_def)
  have hh: "high_mark_for_frag (h\<lparr>high_mark_for_frag := hm\<rparr>) = hm" by simp
  have s: "set_fragments writer ch h = (if m < pl_length (cc_serializedPayload ch)
      then map_option (\<lambda>ch'. (ch', h\<lparr>high_mark_for_frag := hm\<rparr>))
        (setFragmentSize (min m get_max_fragment_payload_size mod 65536) False ch)
      else Some (ch, h\<lparr>high_mark_for_frag := hm\<rparr>))"
    unfolding set_fragments_def Let_def h by (simp only: hh q_def [symmetric] m_def [symmetric])
  have "4 dvd min m 65472" using m by (simp add: min_def)
  moreover have "min m 65472 mod 65536 = min m 65472" by simp
  ultimately show ?thesis
    using assms(5) m hm setFragmentSize_no_list [of "min m 65472 mod 65536" ch] unfolding s
    by (auto simp: get_max_fragment_payload_size_def split: if_splits)
qed

lemma calculate_max_payload_size_min: "4 \<le> calculate_max_payload_size extra max_data n"
  unfolding calculate_max_payload_size_def Let_def by (simp split: if_split) linarith

lemma get_max_allowed_payload_size_multiple:
  "4 dvd get_max_allowed_payload_size extra max_data flow_max part_max out_max \<and>
   4 \<le> get_max_allowed_payload_size extra max_data flow_max part_max out_max"
proof -
  obtain n where n: "get_max_allowed_payload_size extra max_data flow_max part_max out_max =
      calculate_max_payload_size extra max_data n div 4 * 4"
    unfolding get_max_allowed_payload_size_def Let_def by blast
  have "1 \<le> calculate_max_payload_size extra max_data n div 4"
    using div_le_mono [OF calculate_max_payload_size_min [of extra max_data n], of 4] by simp
  then show ?thesis unfolding n by simp
qed

subsection \<open>Properties\<close>

text \<open>
  C9. Every history of a writer, whatever additions and removals have happened and whatever the writer
  answered, holds changes of this writer with strictly growing numbers up to the last one given out,
  never more than its limit, reports full exactly at the limit, and looks up exactly what it holds.
\<close>

theorem WriterHistory_invariant:
  assumes "wh_reach writer h" "guid_wf (wi_guid writer)" "h_attached h"
  shows "wh_inv (wi_guid writer) h \<and>
    (get_change s (wi_guid writer) h = Some c \<longleftrightarrow> c \<in> set (m_changes h) \<and> cc_sequenceNumber c = s)"
proof -
  have inv: "wh_inv (wi_guid writer) h" by (rule wh_inv_reach [OF assms(1,2)])
  then have "\<forall>c\<in>set (m_changes h). cc_writerGUID c = wi_guid writer" by (simp add: wh_inv_def)
  then show ?thesis using inv get_change_iff [OF wh_inv_sorted [OF inv assms(2)] assms(2,3)] by auto
qed

lemma example_sample_simps [simp]:
  "cc_writerGUID (example_sample p seq sec) =
     GUID_t (GuidPrefix_t [p, 0, 0, 0, 0, 0, 0, 0, 0, 0, 0, 0]) (EntityId_t [0, 0, 1, 3])"
  "cc_sequenceNumber (example_sample p seq sec) = seq"
  "cc_sourceTimestamp (example_sample p seq sec) = time_of sec 0"
  by (simp_all add: example_sample_def)

lemma example_history_simps [simp]:
  "m_changes (example_history cs) = cs" "h_attached (example_history cs)"
  "memoryPolicy (m_att (example_history cs)) = PREALLOCATED_WITH_REALLOC_MEMORY_MODE"
  "high_mark_for_frag (example_history cs) = 0"
  by (simp_all add: example_history_def)

lemma example_history_inv:
  "wh_inv c_Guid_Unknown (example_history [change_default])" "guid_wf c_Guid_Unknown"
  by (simp_all add: wh_inv_def example_history_def change_default_def guid_wf_def c_Guid_Unknown_def
      c_GuidPrefix_Unknown_def c_EntityId_Unknown_def eid_of_u32_value)

theorem WriterHistory_invariant_witness:
  "wh_inv c_Guid_Unknown (example_history []) \<and> get_change 1 c_Guid_Unknown (example_history []) = None"
proof -
  have "wh_reach example_writer (example_history [])" by (rule wh_reach.init) (simp_all add: example_history_def)
  note inv = WriterHistory_invariant [OF this, of 1]
  have "wi_guid example_writer = c_Guid_Unknown" "h_attached (example_history [])" "m_changes (example_history []) = []"
    by (simp_all add: example_writer_def example_history_def)
  then show ?thesis using inv example_history_inv(2) by (metis empty_iff list.set(1) option.exhaust)
qed

text \<open>
  C19. Removing a stored change asks the writer: when it accepts, exactly this change leaves the history
  and the call succeeds; when it refuses, nothing changes and the call fails. A change that is not
  stored is not removed and the writer is not asked.
\<close>

theorem remove_change_exact:
  assumes "wh_inv guid h" "guid_wf guid" "h_attached h" "removed ch w = (accepted, w')"
    "ch \<in> set (m_changes h) \<or> (\<forall>c\<in>set (m_changes h). cc_sequenceNumber c \<noteq> cc_sequenceNumber ch)"
  shows "wh_remove_change guid removed ch (h, w) =
    (if ch \<in> set (m_changes h)
     then (accepted, (if accepted
       then h\<lparr>m_changes := filter (\<lambda>c. cc_sequenceNumber c \<noteq> cc_sequenceNumber ch) (m_changes h),
              m_isHistoryFull := False\<rparr> else h), w')
     else (False, h, w))"
  using wh_remove_change_present [where removed = removed, OF assms(1-3) _ assms(4)]
    wh_remove_change_absent assms(5) by auto

theorem remove_change_exact_witness:
  "wh_remove_change c_Guid_Unknown (\<lambda>c w. (True, w + 1)) change_default (example_history [change_default], 0 :: nat) =
     (True, example_history [], 1)"
  using remove_change_exact [OF example_history_inv, of "\<lambda>c w. (True, w + 1)" change_default "0 :: nat" True 1]
  by (simp add: example_history_def)

text \<open>
  \<open>remove_change(sequence_number)\<close> ignores a refusal of the writer: it reports success, and releases
  the change, while the change stays in the history.
\<close>

theorem remove_change_seq_ignores_refusal:
  assumes "wh_inv guid h" "guid_wf guid" "h_attached h" "ch \<in> set (m_changes h)" "removed ch w = (False, w')"
  shows "remove_change_seq guid removed (cc_sequenceNumber ch) (h, w) = (True, h, w')"
proof -
  let ?d = "change_default\<lparr>cc_sequenceNumber := cc_sequenceNumber ch, cc_writerGUID := guid\<rparr>"
  have g: "guid_eq guid guid" "guid_eq (cc_writerGUID ch) guid" using assms(1,2,4) by (simp_all add: wh_inv_def guid_eq_iff)
  then have "wh_matches_change guid c ?d = wh_matches_change guid c ch" for c by (simp add: wh_matches_change_def)
  then have "find_change_nts (wh_matches_change guid) ?d h = find_change_nts (wh_matches_change guid) ch h"
    by (simp add: find_change_nts_def)
  then show ?thesis
    using wh_find_change [OF assms(1,2,4)] assms(3,5)
    by (simp add: remove_change_seq_def remove_change_and_reuse_def wh_remove_change_nts_def Let_def)
qed

theorem remove_change_seq_ignores_refusal_witness:
  "remove_change_seq c_Guid_Unknown (\<lambda>c w. (False, w)) 0 (example_history [change_default], ()) =
     (True, example_history [change_default], ())"
  using remove_change_seq_ignores_refusal [OF example_history_inv, of change_default "\<lambda>c w. (False, w)" "()" "()"]
  by (simp add: example_history_def change_default_def)

text \<open>
  C34. \<open>remove_all_changes\<close> ends with an empty history, which is not full, when the writer accepts the removals.
\<close>

theorem remove_all_changes_ends:
  assumes "wh_inv guid h" "guid_wf guid" "h_attached h" "\<And>c w. fst (removed c w)" "m_changes h \<noteq> []"
  shows "\<exists>h' w'. remove_all_changes (wh_remove_change guid removed) (h, w) = Some (True, h', w') \<and>
    m_changes h' = [] \<and> \<not> m_isHistoryFull h'"
  using remove_all_loop_accepts [where removed = removed, OF assms(1-4)] assms(3,5)
  by (fastforce simp: remove_all_changes_def)

theorem remove_all_changes_ends_witness:
  "\<exists>h' w'. remove_all_changes (wh_remove_change c_Guid_Unknown (\<lambda>c w. (True, w)))
     (example_history [change_default], ()) = Some (True, h', w') \<and> m_changes h' = []"
  using remove_all_changes_ends [OF example_history_inv, of "\<lambda>c w. (True, w)" "()"]
  by (auto simp: example_history_def)

text \<open>
  C18. A sample with a new identity whose time stamp agrees with the numbers of its writer enters a
  reader's history at its place: the history stays ordered by time and, for each writer, by number,
  and every stored sample is found again by \<open>get_change\<close>.
\<close>

theorem rh_add_change_ordered:
  assumes "rh_ordered (m_changes h)" "stamps_consistent (insert a (set (m_changes h)))"
    "guid_wf (cc_writerGUID a)" "h_attached h"
    "memoryPolicy (m_att h) \<noteq> PREALLOCATED_MEMORY_MODE \<or> pl_length (cc_serializedPayload a) \<le> payloadMaxSize (m_att h)"
    "\<forall>c\<in>set (m_changes h). (cc_writerGUID c, cc_sequenceNumber c) \<noteq> (cc_writerGUID a, cc_sequenceNumber a)"
    "guid_wf g" "rh_add_change a h = (ok, h')"
  shows "ok \<and> rh_ordered (m_changes h') \<and> set (m_changes h') = insert a (set (m_changes h)) \<and>
    (get_change s g h' = Some c \<longleftrightarrow>
      c \<in> set (m_changes h') \<and> cc_writerGUID c = g \<and> cc_sequenceNumber c = s)"
proof -
  have h': "ok" "h' = h\<lparr>m_changes := sorted_vector_insert history_order_cmp a (m_changes h)\<rparr>"
    using assms(4,5,8) by (auto simp: rh_add_change_def split: if_splits)
  have new: "(cc_writerGUID a, cc_sequenceNumber a) \<notin>
      (\<lambda>c. (cc_writerGUID c, cc_sequenceNumber c)) ` set (m_changes h)"
    using assms(6) by force
  have o: "rh_ordered (m_changes h')"
    using rh_ordered_insert [OF assms(1-3)] new unfolding h' by simp
  then have "guids_wf (m_changes h')" "h_attached h'" using assms(4) by (simp_all add: rh_ordered_def h')
  then have "get_change s g h' = Some c \<longleftrightarrow>
      c \<in> set (m_changes h') \<and> cc_writerGUID c = g \<and> cc_sequenceNumber c = s"
    using get_change_iff [OF rh_ordered_per_writer [OF o] _ assms(7)] by blast
  moreover have "guids_wf (a # m_changes h)" "stamps_sorted (m_changes h)"
    using assms(1,3) by (simp_all add: rh_ordered_def guids_wf_def)
  ultimately show ?thesis
    using h'(1) o sorted_vector_insert_stamps(2) [OF _ assms(2)] by (simp add: h'(2))
qed

theorem rh_add_change_ordered_witness:
  "rh_ordered (m_changes (snd (rh_add_change (example_sample 1 1 10)
     (example_history [example_sample 1 2 20]))))"
proof -
  let ?h = "example_history [example_sample 1 2 20]" and ?a = "example_sample 1 1 10"
  obtain ok h' where r: "rh_add_change ?a ?h = (ok, h')" by fastforce
  have "rh_ordered (m_changes ?h)" "stamps_consistent (insert ?a (set (m_changes ?h)))"
    by (simp_all add: rh_ordered_def stamps_sorted_def stamps_consistent_def guids_wf_def
        sample_ids_distinct_def guid_wf_def time_lt_def)
  then have "rh_ordered (m_changes h')"
    by (rule rh_add_change_ordered [OF _ _ _ _ _ _ example_history_inv(2) r, THEN conjunct2, THEN conjunct1])
      (simp_all add: guid_wf_def)
  then show ?thesis unfolding r by (simp only: snd_conv)
qed


text \<open>
  \<open>remove_fragmented_changes_until\<close> removes exactly the incomplete samples of the writer below the given
  number, keeping the others in their order, when samples of each writer are in order.
\<close>

theorem remove_fragmented_exact:
  assumes "h_attached h" "per_writer_sorted (m_changes h)" "guids_wf (m_changes h)" "guid_wf g"
  shows "case remove_fragmented_changes_until removed s g (h, w) of
      (ok, h', w') \<Rightarrow> ok \<and> m_changes h' = filter (\<lambda>c. \<not> (cc_writerGUID c = g \<and> cc_sequenceNumber c < s \<and>
                                                     \<not> is_fully_assembled c)) (m_changes h)"
  using fragmented_loop_filter [OF assms, of 0 removed s w] assms(1)
  by (cases "fragmented_loop removed s g 0 (h, w)") (simp add: remove_fragmented_changes_until_def)

theorem remove_fragmented_exact_witness:
  "case remove_fragmented_changes_until (\<lambda>c h w. w) 2 c_Guid_Unknown
     (example_history [change_default\<lparr>cc_fragment_count := 1\<rparr>], ()) of (ok, h', w') \<Rightarrow> m_changes h' = []"
proof -
  let ?c = "change_default\<lparr>cc_fragment_count := 1\<rparr>"
  have "per_writer_sorted [?c]" by (simp add: per_writer_sorted_def)
  moreover have "guids_wf [?c]" "cc_writerGUID ?c = c_Guid_Unknown" "cc_sequenceNumber ?c = 0"
    "\<not> is_fully_assembled ?c"
    using example_history_inv(2) by (simp_all add: guids_wf_def change_default_def is_fully_assembled_def)
  ultimately show ?thesis
    using remove_fragmented_exact [of "example_history [?c]" c_Guid_Unknown 2 "\<lambda>c h w. w" "()"]
      example_history_inv(2) by (auto simp del: One_nat_def split: prod.splits)
qed



end
