(* ===== verification/BaseReader.thy ===== *)
theory BaseReader
  imports History WriterProxy "HOL-Library.Monad_Syntax"
begin

text \<open>
  \<open>src/cpp/rtps/reader/BaseReader.cpp\<close>, \<open>ReaderHistoryState.hpp\<close> and \<open>reader_utils.cpp\<close>: what reliable and
  best-effort readers share. The record holds the fields of the class; the maps of the history state
  are partial functions. Calls that leave the reader (messages to writers, the listener, the
  liveliness manager, the data sharing listener, the network) are collected in order in \<open>rd_out\<close>.
  What lies outside (the virtual methods of the history, the pools, the filter, the listener, the
  clock) is a record of functions, \<open>reader_env\<close>, on the state of history and reader.

  The lemmas show what the record of notified numbers remembers over matching and unmatching.
\<close>

subsection \<open>State\<close>

datatype SampleRejectedStatusKind =
  NOT_REJECTED | REJECTED_BY_INSTANCES_LIMIT | REJECTED_BY_SAMPLES_LIMIT |
  REJECTED_BY_SAMPLES_PER_INSTANCE_LIMIT

datatype WriterDiscoveryStatus = DISCOVERED_WRITER | CHANGED_QOS_WRITER | REMOVED_WRITER | IGNORED_WRITER

datatype WriterStatus = NOT_ASSERTED | WRITER_ALIVE | WRITER_NOT_ALIVE

record LivelinessChangedStatus =
  alive_count :: int
  not_alive_count :: int
  alive_count_change :: int
  not_alive_count_change :: int
  last_publication_handle :: GUID_t

datatype reader_event =
  Acknack "GUID_t list" "int BitmapRange" nat bool
| Nackfrag "GUID_t list" int "u32 BitmapRange" nat
| Local_acknack GUID_t nat "int BitmapRange"
| On_data_available GUID_t int int
| On_new_cache_change_added CacheChange_t
| On_sample_lost int
| On_sample_rejected SampleRejectedStatusKind CacheChange_t
| On_writer_discovery WriterDiscoveryStatus GUID_t
| On_liveliness_changed LivelinessChangedStatus
| Liveliness_add GUID_t
| Liveliness_assert GUID_t
| Liveliness_remove GUID_t
| Create_sender_resources GUID_t
| Datasharing_add GUID_t
| Datasharing_remove GUID_t
| Datasharing_wake

record BaseReader =
  rd_guid :: GUID_t
  accept_messages_from_unknown_writers :: bool
  trusted_writer_entity_id :: EntityId_t
  rd_exclusive_ownership :: bool
  rd_volatile :: bool
  is_datasharing_compatible :: bool
  fixed_payload_size :: nat
  finite_lease :: bool
  rd_liveliness_kind :: nat
  total_unread :: nat
  persistence_guid_map :: "GUID_t \<rightharpoonup> GUID_t"
  persistence_guid_count :: "GUID_t \<rightharpoonup> nat"
  history_record :: "GUID_t \<rightharpoonup> int"
  liveliness_changed_status :: LivelinessChangedStatus
  rd_out :: "reader_event list"

text \<open>
  The outside of a reader whose record has type \<open>'r\<close>. \<open>re_can_add\<close>, \<open>re_received\<close> and \<open>re_completed\<close> are the
  virtual methods of the history; \<open>re_reserve\<close> is the pool of changes, \<open>re_get_payload\<close> and
  \<open>re_copy_payload\<close> the two methods of the pool of payloads. The listener's first method answers whether it
  wants to hear of each change; both may act on the reader and its history. The rest stands for
  data sharing, the liveliness manager and the clock.
\<close>

type_synonym 'r reader_state = "History \<times> 'r"

record 'r reader_listener =
  rl_data_available :: "GUID_t \<Rightarrow> int \<Rightarrow> int \<Rightarrow> 'r reader_state \<Rightarrow> bool \<times> 'r reader_state"
  rl_new_change :: "CacheChange_t \<Rightarrow> 'r reader_state \<Rightarrow> 'r reader_state"

record 'r reader_env =
  re_can_add :: "GUID_t \<Rightarrow> nat \<Rightarrow> int \<Rightarrow> History \<Rightarrow> bool \<times> bool"
  re_received :: "CacheChange_t \<Rightarrow> int \<Rightarrow> 'r reader_state \<Rightarrow> bool \<times> SampleRejectedStatusKind \<times> 'r reader_state"
  re_completed :: "CacheChange_t \<Rightarrow> int \<Rightarrow> 'r reader_state \<Rightarrow> bool \<times> SampleRejectedStatusKind \<times> 'r reader_state"
  re_update_strength :: "GUID_t \<Rightarrow> nat \<Rightarrow> 'r reader_state \<Rightarrow> 'r reader_state"
  re_reserve :: "'r reader_state \<Rightarrow> CacheChange_t option"
  re_get_payload :: "nat \<Rightarrow> SerializedPayload_t \<Rightarrow> SerializedPayload_t option"
  re_copy_payload :: "SerializedPayload_t \<Rightarrow> SerializedPayload_t \<Rightarrow> SerializedPayload_t option"
  re_filter :: "(CacheChange_t \<Rightarrow> bool) option"
  re_listener :: "'r reader_listener option"
  re_now :: Time_t
  re_writer_status :: "GUID_t \<Rightarrow> WriterStatus"
  re_shm_matched :: "GUID_t \<Rightarrow> bool"
  re_shm_compatible :: "GUID_t \<Rightarrow> bool"
  re_shm_change :: "CacheChange_t \<Rightarrow> CacheChange_t \<Rightarrow> CacheChange_t option"
  re_shm_add :: "GUID_t \<Rightarrow> bool"
  re_shm_last_read :: "GUID_t \<Rightarrow> int"

definition rd_emit :: "reader_event list \<Rightarrow> 'a BaseReader_scheme \<Rightarrow> 'a BaseReader_scheme" where
  "rd_emit es r = r\<lparr>rd_out := rd_out r @ es\<rparr>"

subsection \<open>The record of notified numbers\<close>

definition guid_to_look :: "GUID_t \<Rightarrow> 'a BaseReader_scheme \<Rightarrow> GUID_t" where
  "guid_to_look guid r = (case persistence_guid_map r guid of Some p_guid \<Rightarrow> p_guid | None \<Rightarrow> guid)"

definition get_last_notified :: "GUID_t \<Rightarrow> 'a BaseReader_scheme \<Rightarrow> int" where
  "get_last_notified guid r =
     (case history_record r (guid_to_look guid r) of Some p_seq \<Rightarrow> p_seq | None \<Rightarrow> 0)"

definition update_last_notified ::
  "GUID_t \<Rightarrow> int \<Rightarrow> 'a BaseReader_scheme \<Rightarrow> int \<times> 'a BaseReader_scheme" where
  "update_last_notified guid seq r =
     (let ret_val = get_last_notified guid r
      in (ret_val, if ret_val < seq
                   then r\<lparr>history_record := (history_record r)(guid_to_look guid r \<mapsto> seq)\<rparr> else r))"

text \<open>\<open>operator[]\<close> of a map of \<open>uint16_t\<close> counters: a missing entry is zero; increments wrap.\<close>

definition count_of :: "GUID_t \<Rightarrow> 'a BaseReader_scheme \<Rightarrow> nat" where
  "count_of guid r = (case persistence_guid_count r guid of Some n \<Rightarrow> n | None \<Rightarrow> 0)"

definition add_persistence_guid ::
  "GUID_t \<Rightarrow> GUID_t \<Rightarrow> 'a BaseReader_scheme \<Rightarrow> 'a BaseReader_scheme" where
  "add_persistence_guid guid p_guid r =
     (if guid_eq c_Guid_Unknown p_guid \<or> guid_eq p_guid guid
      then r\<lparr>persistence_guid_map := (persistence_guid_map r)(guid \<mapsto> guid),
             persistence_guid_count := (persistence_guid_count r)(guid \<mapsto> (count_of guid r + 1) mod 65536)\<rparr>
      else
        let r = r\<lparr>persistence_guid_map := (persistence_guid_map r)(guid \<mapsto> p_guid),
                  persistence_guid_count :=
                    (persistence_guid_count r)(p_guid \<mapsto> (count_of p_guid r + 1) mod 65536)\<rparr>
        in case history_record r guid of
             Some spurious \<Rightarrow>
               let r = snd (update_last_notified guid spurious r)
               in r\<lparr>history_record := (history_record r)(guid := None)\<rparr>
           | None \<Rightarrow> r)"

definition may_remove_history_record :: "bool \<Rightarrow> bool" where
  "may_remove_history_record removed_by_lease = (\<not> removed_by_lease)"

definition remove_persistence_guid ::
  "GUID_t \<Rightarrow> GUID_t \<Rightarrow> bool \<Rightarrow> 'a BaseReader_scheme \<Rightarrow> 'a BaseReader_scheme" where
  "remove_persistence_guid guid p_guid removed_by_lease r =
     (let stored = (if guid_eq c_Guid_Unknown p_guid then guid else p_guid);
          r = r\<lparr>persistence_guid_map := (persistence_guid_map r)(guid := None)\<rparr>;
          count = (count_of stored r + 65535) mod 65536;
          r = r\<lparr>persistence_guid_count := (persistence_guid_count r)(stored \<mapsto> count)\<rparr>
      in if count \<le> 0 \<and> may_remove_history_record removed_by_lease
         then r\<lparr>history_record := (history_record r)(stored := None),
                persistence_guid_count := (persistence_guid_count r)(stored := None)\<rparr>
         else r)"

subsection \<open>Changes, filter and counters\<close>

definition change_is_relevant_for_filter :: "(CacheChange_t \<Rightarrow> bool) option \<Rightarrow> CacheChange_t \<Rightarrow> bool" where
  "change_is_relevant_for_filter data_filter change =
     (if is_serialized_key (cc_serializedPayload change) then True
      else
        let ret = \<not> (cc_data change = [] \<and>
                     (cc_kind change = ALIVE \<or> \<not> ih_isDefined (cc_instanceHandle change)))
        in case data_filter of
             Some is_relevant \<Rightarrow> if cc_kind change = ALIVE \<and> \<not> is_relevant change then False else ret
           | None \<Rightarrow> ret)"

definition reserve_cache :: "'r reader_env \<Rightarrow> nat \<Rightarrow> nat \<Rightarrow> 'r reader_state \<Rightarrow> CacheChange_t option" where
  "reserve_cache env fixed cdr_payload_size s =
     do {
       reserved_change \<leftarrow> re_reserve env s;
       let payload_size = (if fixed \<noteq> 0 then fixed else cdr_payload_size);
       p \<leftarrow> re_get_payload env payload_size (cc_serializedPayload reserved_change);
       Some (reserved_change\<lparr>cc_serializedPayload := p\<rparr>) }"

text \<open>\<open>get_unread_count(true)\<close>: the loop runs while the counter is positive.\<close>

fun mark_read ::
  "(GUID_t \<Rightarrow> int) \<Rightarrow> nat \<Rightarrow> CacheChange_t list \<Rightarrow> nat \<times> CacheChange_t list" where
  "mark_read notified unread [] = (unread, [])"
| "mark_read notified unread (c # cs) =
     (if 0 < unread
      then
        let (unread, c) = (if \<not> cc_isRead c \<and> notified (cc_writerGUID c) \<ge> cc_sequenceNumber c
                           then (unread - 1, c\<lparr>cc_isRead := True\<rparr>) else (unread, c));
            (unread, cs) = mark_read notified unread cs
        in (unread, c # cs)
      else (unread, c # cs))"

definition get_unread_count ::
  "bool \<Rightarrow> 'a BaseReader_scheme reader_state \<Rightarrow> nat \<times> 'a BaseReader_scheme reader_state" where
  "get_unread_count mark_as_read s =
     (let (h, r) = s; ret_val = total_unread r
      in if mark_as_read
         then
           let (unread, cs) = mark_read (\<lambda>g. get_last_notified g r) (total_unread r) (m_changes h)
           in (ret_val, h\<lparr>m_changes := cs\<rparr>, r\<lparr>total_unread := unread\<rparr>)
         else (ret_val, s))"

definition update_liveliness_changed_status ::
  "bool \<Rightarrow> GUID_t \<Rightarrow> int \<Rightarrow> int \<Rightarrow> 'a BaseReader_scheme \<Rightarrow> 'a BaseReader_scheme" where
  "update_liveliness_changed_status has_listener writer alive_change not_alive_change r =
     (let st = liveliness_changed_status r;
          st = st\<lparr>alive_count := alive_count st + alive_change,
                  alive_count_change := alive_count_change st + alive_change,
                  not_alive_count := not_alive_count st + not_alive_change,
                  not_alive_count_change := not_alive_count_change st + not_alive_change,
                  last_publication_handle := writer\<rparr>
      in if has_listener
         then (rd_emit [On_liveliness_changed st] r)
                \<lparr>liveliness_changed_status := st\<lparr>alive_count_change := 0, not_alive_count_change := 0\<rparr>\<rparr>
         else r\<lparr>liveliness_changed_status := st\<rparr>)"

text \<open>
  The \<open>assert(0 == total_unread_)\<close> after the loop of \<open>get_unread_count\<close> holds when the counter is the
  number of samples that have been notified and not read.
\<close>

definition unread_samples :: "'a BaseReader_scheme \<Rightarrow> CacheChange_t list \<Rightarrow> nat" where
  "unread_samples r cs =
     length (filter (\<lambda>c. \<not> cc_isRead c \<and> get_last_notified (cc_writerGUID c) r \<ge> cc_sequenceNumber c) cs)"

text \<open>A reader that has notified the samples up to 7 of a writer with a persistence GUID, for examples.\<close>

definition example_guid :: "u8 \<Rightarrow> GUID_t" where
  "example_guid k = GUID_t (GuidPrefix_t [k, 0, 0, 0, 0, 0, 0, 0, 0, 0, 0, 0]) (EntityId_t [0, 0, 1, 3])"

definition example_base_reader :: BaseReader where
  "example_base_reader = \<lparr>rd_guid = example_guid 9, accept_messages_from_unknown_writers = False,
     trusted_writer_entity_id = EntityId_t [0, 0, 0, 0], rd_exclusive_ownership = False, rd_volatile = False,
     is_datasharing_compatible = False, fixed_payload_size = 0, finite_lease = False, rd_liveliness_kind = 0,
     total_unread = 0, persistence_guid_map = [example_guid 1 \<mapsto> example_guid 3],
     persistence_guid_count = [example_guid 3 \<mapsto> 1], history_record = [example_guid 3 \<mapsto> 7],
     liveliness_changed_status = \<lparr>alive_count = 0, not_alive_count = 0, alive_count_change = 0,
       not_alive_count_change = 0, last_publication_handle = example_guid 1\<rparr>, rd_out = []\<rparr>"

subsection \<open>Laws\<close>

lemma mark_read_all:
  "n = length (filter (\<lambda>c. \<not> cc_isRead c \<and> f (cc_writerGUID c) \<ge> cc_sequenceNumber c) cs) \<Longrightarrow>
   fst (mark_read f n cs) = 0"
  by (induction f n cs rule: mark_read.induct) (auto simp: Let_def split: prod.splits)

lemma get_unread_count_zero:
  "total_unread r = unread_samples r (m_changes h) \<Longrightarrow> total_unread (snd (snd (get_unread_count True (h, r)))) = 0"
  using mark_read_all [of "total_unread r" "\<lambda>g. get_last_notified g r" "m_changes h"]
  by (auto simp: get_unread_count_def unread_samples_def Let_def split: prod.splits)

lemma guid_to_look_update [simp]: "guid_to_look g (snd (update_last_notified g' seq r)) = guid_to_look g r"
  by (simp add: guid_to_look_def update_last_notified_def Let_def)

lemma update_last_notified_lookup:
  "get_last_notified g (snd (update_last_notified g' seq r)) =
     (if guid_to_look g r = guid_to_look g' r then max (get_last_notified g r) seq else get_last_notified g r)"
proof -
  have "guid_to_look g r = guid_to_look g' r \<Longrightarrow> get_last_notified g r = get_last_notified g' r"
    by (simp add: get_last_notified_def)
  then show ?thesis
    unfolding get_last_notified_def [of g "snd _"] guid_to_look_update
    by (auto simp: update_last_notified_def Let_def get_last_notified_def max_def)
qed

text \<open>What is known of a persistence GUID before its writer is matched.\<close>

lemma add_persistence_guid_own:
  assumes "guid_eq c_Guid_Unknown p \<or> guid_eq p g"
  shows "get_last_notified g (add_persistence_guid g p r) = (case history_record r g of Some n \<Rightarrow> n | None \<Rightarrow> 0)"
  using assms by (simp add: add_persistence_guid_def get_last_notified_def guid_to_look_def)

lemma add_persistence_guid_other:
  assumes "\<not> guid_eq c_Guid_Unknown p" "\<not> guid_eq p g" "p \<noteq> g"
  shows "get_last_notified g (add_persistence_guid g p r) =
    (let known = (case history_record r p of Some n \<Rightarrow> n | None \<Rightarrow> 0)
     in case history_record r g of Some spurious \<Rightarrow> max known spurious | None \<Rightarrow> known)"
proof -
  let ?r = "r\<lparr>persistence_guid_map := (persistence_guid_map r)(g \<mapsto> p),
              persistence_guid_count := (persistence_guid_count r)(p \<mapsto> (count_of p r + 1) mod 65536)\<rparr>"
  have look: "guid_to_look g ?r = p" by (simp add: guid_to_look_def)
  show ?thesis
  proof (cases "history_record r g")
    case None
    then show ?thesis using assms
      by (simp add: add_persistence_guid_def get_last_notified_def guid_to_look_def Let_def)
  next
    case (Some spurious)
    let ?r' = "snd (update_last_notified g spurious ?r)"
    have "add_persistence_guid g p r = ?r'\<lparr>history_record := (history_record ?r')(g := None)\<rparr>"
      using assms Some by (simp add: add_persistence_guid_def Let_def)
    moreover have "guid_to_look g (?r'\<lparr>history_record := m\<rparr>) = p" for m
      using guid_to_look_update [of g g spurious ?r] look by (simp add: guid_to_look_def)
    ultimately have "get_last_notified g (add_persistence_guid g p r) = get_last_notified g ?r'"
      using look assms(3) by (simp add: get_last_notified_def)
    also have "\<dots> = max (get_last_notified g ?r) spurious" by (simp add: update_last_notified_lookup)
    finally show ?thesis using Some look by (simp add: get_last_notified_def)
  qed
qed

lemma remove_persistence_guid_record:
  "history_record (remove_persistence_guid g p removed_by_lease r) =
     (let stored = (if guid_eq c_Guid_Unknown p then g else p)
      in if (count_of stored r + 65535) mod 65536 = 0 \<and> \<not> removed_by_lease
         then (history_record r)(stored := None) else history_record r)"
  by (simp add: remove_persistence_guid_def may_remove_history_record_def count_of_def Let_def)

text \<open>
  C40. When the lease of a writer with a persistence GUID runs out and the writer comes back, under its
  old or a new GUID, the reader goes on from the number it had notified; when it was unmatched
  and no other writer shares the persistence GUID, the reader starts from zero.
\<close>

theorem notified_record_rematched:
  assumes "\<not> guid_eq c_Guid_Unknown p" "\<not> guid_eq p g'" "p \<noteq> g'" "history_record r g' = None"
    "persistence_guid_map r g = Some p"
  shows "get_last_notified g' (add_persistence_guid g' p (remove_persistence_guid g p True r)) = get_last_notified g r \<and>
    (count_of p r = 1 \<longrightarrow>
       get_last_notified g' (add_persistence_guid g' p (remove_persistence_guid g p False r)) = 0)"
proof -
  have "get_last_notified g r = (case history_record r p of Some n \<Rightarrow> n | None \<Rightarrow> 0)"
    using assms(5) by (simp add: get_last_notified_def guid_to_look_def)
  then show ?thesis
    using assms by (simp add: add_persistence_guid_other remove_persistence_guid_record Let_def)
qed

theorem notified_record_rematched_witness:
  "get_last_notified (example_guid 2) (add_persistence_guid (example_guid 2) (example_guid 3)
     (remove_persistence_guid (example_guid 1) (example_guid 3) True example_base_reader)) = 7 \<and>
   get_last_notified (example_guid 2) (add_persistence_guid (example_guid 2) (example_guid 3)
     (remove_persistence_guid (example_guid 1) (example_guid 3) False example_base_reader)) = 0"
proof -
  have "\<not> guid_eq c_Guid_Unknown (example_guid 3)" "\<not> guid_eq (example_guid 3) (example_guid 2)"
    by code_simp+
  moreover have ne: "example_guid 3 \<noteq> example_guid 2" "example_guid 1 \<noteq> example_guid 2" "example_guid 1 \<noteq> example_guid 3"
    by (simp_all add: example_guid_def)
  ultimately show ?thesis
    using notified_record_rematched [of "example_guid 3" "example_guid 2" example_base_reader "example_guid 1"]
    by (simp add: example_base_reader_def count_of_def get_last_notified_def guid_to_look_def)
qed

end
