(* ===== verification/ReaderProxy.thy ===== *)
theory ReaderProxy
  imports WriterProxy History
begin

text \<open>
  What a writer knows of a matched reader: \<open>ChangeForReader.hpp\<close> (the status and the unsent fragments of one
  sample), \<open>RTPSGapBuilder.cpp\<close> (collecting irrelevant numbers into GAP messages), \<open>ReaderLocator.cpp\<close> (where
  the reader is) and \<open>ReaderProxy.cpp\<close> of \<open>src/cpp/rtps/writer\<close> and \<open>messages\<close>. A proxy is a record; the
  writer's history is an argument of the operations that consult it. Timers are as in the writer
  proxy, a null pointer is \<open>None\<close>. The \<open>assert\<close>s of the source are premises of the lemmas.

  The lemmas show the invariant of a proxy, what acknowledgements and requests do to the status of
  every sample, that a gap builder sends exactly the numbers it was given, and that sending the next
  unsent fragment over and over sends every fragment once, in order.
\<close>

subsection \<open>The state of a sample for a reader\<close>

datatype ChangeForReaderStatus_t = UNSENT | REQUESTED | UNACKNOWLEDGED | ACKNOWLEDGED | UNDERWAY

fun status_code :: "ChangeForReaderStatus_t \<Rightarrow> nat" where
  "status_code UNSENT = 0"
| "status_code REQUESTED = 1"
| "status_code UNACKNOWLEDGED = 2"
| "status_code ACKNOWLEDGED = 3"
| "status_code UNDERWAY = 4"

record ChangeForReader_t =
  cfr_status :: ChangeForReaderStatus_t
  cfr_seq_num :: int
  cfr_change :: CacheChange_t
  cfr_unsent_fragments :: "u32 BitmapRange"
  cfr_delivered :: bool

definition markAllFragmentsAsUnsent :: "ChangeForReader_t \<Rightarrow> ChangeForReader_t" where
  "markAllFragmentsAsUnsent c =
     (if cc_fragment_size (cfr_change c) \<noteq> 0
      then c\<lparr>cfr_unsent_fragments := br_add_range u32_items 1
               (of_nat (cc_fragment_count (cfr_change c)) + 1)
               (br_set_base u32_items 1 (cfr_unsent_fragments c))\<rparr>
      else c)"

definition ChangeForReader :: "CacheChange_t \<Rightarrow> ChangeForReader_t" where
  "ChangeForReader change =
     markAllFragmentsAsUnsent \<lparr>cfr_status = UNSENT, cfr_seq_num = cc_sequenceNumber change,
       cfr_change = change, cfr_unsent_fragments = br_default u32_items, cfr_delivered = False\<rparr>"

definition get_next_unsent_fragment :: "ChangeForReader_t \<Rightarrow> u32" where
  "get_next_unsent_fragment c =
     (if br_empty (cfr_unsent_fragments c) then of_nat (cc_fragment_count (cfr_change c)) + 1
      else br_min u32_items (cfr_unsent_fragments c))"

text \<open>\<open>None\<close> is the access outside the bitmap that \<open>remove\<close> can make.\<close>

definition markFragmentsAsSent :: "u32 \<Rightarrow> ChangeForReader_t \<Rightarrow> ChangeForReader_t option" where
  "markFragmentsAsSent sentFragment c =
     map_option
       (\<lambda>uf. if \<not> cfr_delivered c \<and> \<not> br_empty uf \<and>
                 br_max u32_items uf < of_nat (cc_fragment_count (cfr_change c))
             then (let mx = br_max u32_items uf; base = br_min u32_items uf;
                       uf = bitmap_base_update u32_items base uf
                   in c\<lparr>cfr_unsent_fragments := br_add_range u32_items (mx + 1)
                          (of_nat (cc_fragment_count (cfr_change c)) + 1) uf\<rparr>)
             else c\<lparr>cfr_unsent_fragments := uf\<rparr>)
       (br_remove u32_items sentFragment (cfr_unsent_fragments c))"

definition markFragmentsAsUnsent :: "u32 BitmapRange \<Rightarrow> ChangeForReader_t \<Rightarrow> ChangeForReader_t" where
  "markFragmentsAsUnsent unsentFragments c =
     (if cfr_delivered c
      then if br_empty (cfr_unsent_fragments c) then c\<lparr>cfr_unsent_fragments := unsentFragments\<rparr>
           else
             let other_base = br_base unsentFragments;
                 uf = if other_base < br_base (cfr_unsent_fragments c)
                      then bitmap_base_update u32_items other_base (cfr_unsent_fragments c)
                      else cfr_unsent_fragments c
             in c\<lparr>cfr_unsent_fragments :=
                    fold (\<lambda>element uf. snd (br_add u32_items element uf))
                      (br_for_each u32_items unsentFragments) uf\<rparr>
      else c)"

subsection \<open>Gap builder\<close>

text \<open>
  \<open>send\<close> says whether the message group accepts a GAP; \<open>gb_sent\<close> collects the accepted ones, each
  a first number and a set.
\<close>

type_synonym gap_msg = "int \<times> int BitmapRange"

record RTPSGapBuilder =
  is_gap_pending :: bool
  initial_sequence :: int
  gap_bitmap :: "int BitmapRange"
  gb_sent :: "gap_msg list"

definition gap_builder_init :: RTPSGapBuilder where
  "gap_builder_init = \<lparr>is_gap_pending = False, initial_sequence = 0, gap_bitmap = br_default int_items,
     gb_sent = []\<rparr>"

definition gap_flush :: "(gap_msg \<Rightarrow> bool) \<Rightarrow> RTPSGapBuilder \<Rightarrow> bool \<times> RTPSGapBuilder" where
  "gap_flush send g =
     (if is_gap_pending g
      then let msg = (initial_sequence g, gap_bitmap g)
           in if send msg then (True, g\<lparr>gb_sent := gb_sent g @ [msg], is_gap_pending := False\<rparr>)
              else (False, g)
      else (True, g\<lparr>is_gap_pending := False\<rparr>))"

definition gap_restart :: "int \<Rightarrow> RTPSGapBuilder \<Rightarrow> RTPSGapBuilder" where
  "gap_restart gap_sequence g =
     g\<lparr>is_gap_pending := True, initial_sequence := gap_sequence,
       gap_bitmap := br_set_base int_items (gap_sequence + 1) (gap_bitmap g)\<rparr>"

definition gap_add :: "(gap_msg \<Rightarrow> bool) \<Rightarrow> int \<Rightarrow> RTPSGapBuilder \<Rightarrow> bool \<times> RTPSGapBuilder" where
  "gap_add send gap_sequence g =
     (if \<not> is_gap_pending g then (True, gap_restart gap_sequence g)
      else if gap_sequence = br_base (gap_bitmap g)
      then (True, g\<lparr>gap_bitmap := br_set_base int_items (gap_sequence + 1) (gap_bitmap g)\<rparr>)
      else
        let (added, bm) = br_add int_items gap_sequence (gap_bitmap g)
        in if added then (True, g\<lparr>gap_bitmap := bm\<rparr>)
           else
             let (ret_val, g) = gap_flush send g
             in (ret_val, gap_restart gap_sequence g))"

subsection \<open>Reader locators\<close>

datatype DurabilityKind_t = VOLATILE | TRANSIENT_LOCAL | TRANSIENT | PERSISTENT

record 'loc ReaderProxyData =
  rd_guid :: GUID_t
  rd_unicast :: "'loc list"
  rd_multicast :: "'loc list"
  rd_expects_inline_qos :: bool
  rd_durability :: DurabilityKind_t
  rd_reliable :: bool
  rd_disable_positive_acks :: bool

text \<open>
  The general and the asynchronous entry of the locator selector always receive the same values: one
  copy is kept. \<open>rl_notifier\<close> is the data sharing notifier, if the writer has one, and whether it is enabled.
\<close>

record 'loc ReaderLocator =
  rl_remote_guid :: GUID_t
  rl_unicast :: "'loc list"
  rl_multicast :: "'loc list"
  rl_enabled :: bool
  rl_expects_inline_qos :: bool
  rl_is_local_reader :: bool
  rl_notifier :: "bool option"

definition is_datasharing_reader :: "'loc ReaderLocator \<Rightarrow> bool" where
  "is_datasharing_reader l \<longleftrightarrow> rl_notifier l = Some True"

definition locator_start ::
  "IntraprocessDeliveryType \<Rightarrow> GUID_t \<Rightarrow> GUID_t \<Rightarrow> 'loc list \<Rightarrow> 'loc list \<Rightarrow> bool \<Rightarrow> bool \<Rightarrow>
   'loc ReaderLocator \<Rightarrow> bool \<times> 'loc ReaderLocator" where
  "locator_start setting owner_guid r_guid unicast_locators multicast_locators
     expects_inline_qos is_datasharing l =
     (if guid_eq (rl_remote_guid l) c_Guid_Unknown
      then
        let l = l\<lparr>rl_expects_inline_qos := expects_inline_qos, rl_remote_guid := r_guid,
                  rl_is_local_reader := should_intraprocess_between setting owner_guid r_guid\<rparr>;
            is_datasharing = (is_datasharing \<and> \<not> rl_is_local_reader l);
            l = if \<not> rl_is_local_reader l \<and> \<not> is_datasharing
                then l\<lparr>rl_unicast := unicast_locators, rl_multicast := multicast_locators\<rparr> else l;
            l = l\<lparr>rl_enabled := \<not> guid_eq (rl_remote_guid l) c_Guid_Unknown\<rparr>
        in (True, if is_datasharing then l\<lparr>rl_notifier := Some True\<rparr> else l)
      else (False, l))"

definition locator_update ::
  "'loc list \<Rightarrow> 'loc list \<Rightarrow> bool \<Rightarrow> 'loc ReaderLocator \<Rightarrow> bool \<times> 'loc ReaderLocator" where
  "locator_update unicast_locators multicast_locators expects_inline_qos l =
     (let (ret_val, l) = (if rl_expects_inline_qos l \<noteq> expects_inline_qos
                          then (True, l\<lparr>rl_expects_inline_qos := expects_inline_qos\<rparr>) else (False, l))
      in if rl_unicast l \<noteq> unicast_locators \<or> rl_multicast l \<noteq> multicast_locators
         then let l = if \<not> rl_is_local_reader l \<and> \<not> is_datasharing_reader l
                      then l\<lparr>rl_unicast := unicast_locators, rl_multicast := multicast_locators\<rparr> else l
              in (True, l\<lparr>rl_enabled := \<not> guid_eq (rl_remote_guid l) c_Guid_Unknown\<rparr>)
         else (ret_val, l))"

definition locator_stop :: "'loc ReaderLocator \<Rightarrow> 'loc ReaderLocator" where
  "locator_stop l =
     l\<lparr>rl_notifier := map_option (\<lambda>_. False) (rl_notifier l), rl_enabled := False, rl_multicast := [],
       rl_unicast := [], rl_remote_guid := c_Guid_Unknown, rl_expects_inline_qos := False,
       rl_is_local_reader := False\<rparr>"

definition locator_stop_guid :: "GUID_t \<Rightarrow> 'loc ReaderLocator \<Rightarrow> bool \<times> 'loc ReaderLocator" where
  "locator_stop_guid r_guid l =
     (if guid_eq (rl_remote_guid l) r_guid then (True, locator_stop l) else (False, l))"

subsection \<open>Reader proxies\<close>

record 'loc ReaderProxy =
  rp_is_active :: bool
  locator_info :: "'loc ReaderLocator"
  durability_kind :: DurabilityKind_t
  rp_expects_inline_qos :: bool
  rp_is_reliable :: bool
  rp_disable_positive_acks :: bool
  changes_for_reader :: "ChangeForReader_t list"
  nack_supression_event :: "TimedEvent option"
  initial_heartbeat_event :: "TimedEvent option"
  timers_enabled :: bool
  next_expected_acknack_count :: nat
  last_nackfrag_count :: nat
  changes_low_mark :: int

abbreviation is_local_reader :: "'loc ReaderProxy \<Rightarrow> bool" where
  "is_local_reader rp \<equiv> rl_is_local_reader (locator_info rp)"

definition is_remote_and_reliable :: "'loc ReaderProxy \<Rightarrow> bool" where
  "is_remote_and_reliable rp \<longleftrightarrow>
     \<not> is_local_reader rp \<and> \<not> is_datasharing_reader (locator_info rp) \<and> rp_is_reliable rp"

definition disable_timers :: "'loc ReaderProxy \<Rightarrow> 'loc ReaderProxy" where
  "disable_timers rp =
     rp\<lparr>nack_supression_event := if timers_enabled rp then map_option cancel_timer (nack_supression_event rp)
                                 else nack_supression_event rp,
        timers_enabled := False,
        initial_heartbeat_event := map_option cancel_timer (initial_heartbeat_event rp)\<rparr>"

definition rp_stop :: "'loc ReaderProxy \<Rightarrow> 'loc ReaderProxy" where
  "rp_stop rp =
     (disable_timers (rp\<lparr>locator_info := locator_stop (locator_info rp), rp_is_active := False\<rparr>))
       \<lparr>changes_for_reader := [], next_expected_acknack_count := 0, last_nackfrag_count := 0,
        changes_low_mark := 0\<rparr>"

text \<open>The constructor; \<open>nack_interval\<close> is \<open>Some\<close> when the writer has a participant.\<close>

definition rp_init :: "int option \<Rightarrow> bool option \<Rightarrow> 'loc ReaderProxy" where
  "rp_init nack_interval notifier = rp_stop
     \<lparr>rp_is_active = False,
      locator_info = \<lparr>rl_remote_guid = c_Guid_Unknown, rl_unicast = [], rl_multicast = [],
        rl_enabled = False, rl_expects_inline_qos = False, rl_is_local_reader = False,
        rl_notifier = notifier\<rparr>,
      durability_kind = VOLATILE, rp_expects_inline_qos = False, rp_is_reliable = False,
      rp_disable_positive_acks = False, changes_for_reader = [],
      nack_supression_event = map_option (\<lambda>i. \<lparr>te_interval = i, te_armed = False\<rparr>) nack_interval,
      initial_heartbeat_event = map_option (\<lambda>i. \<lparr>te_interval = 0, te_armed = False\<rparr>) nack_interval,
      timers_enabled = False, next_expected_acknack_count = 0, last_nackfrag_count = 0,
      changes_low_mark = 0\<rparr>"

text \<open>\<open>find_change\<close> as an index, with and without the demand of an exact match.\<close>

definition find_change_lb :: "int \<Rightarrow> ChangeForReader_t list \<Rightarrow> nat" where
  "find_change_lb seq_num cs = lower_bound (\<lambda>c. cfr_seq_num c < seq_num) cs"

definition find_change :: "int \<Rightarrow> ChangeForReader_t list \<Rightarrow> nat" where
  "find_change seq_num cs =
     (let it = find_change_lb seq_num cs
      in if it = length cs then it
         else if cfr_seq_num (cs ! it) = seq_num then it else length cs)"

text \<open>The loops of \<open>acked_changes_set\<close>.\<close>

fun acked_run :: "int \<Rightarrow> ChangeForReader_t list \<Rightarrow> int \<times> ChangeForReader_t list" where
  "acked_run future_low_mark [] = (future_low_mark, [])"
| "acked_run future_low_mark (c # cs) =
     (if cfr_seq_num c = future_low_mark \<and> cfr_status c = ACKNOWLEDGED
      then acked_run (future_low_mark + 1) cs else (future_low_mark, c # cs))"

fun skip_present :: "int \<Rightarrow> int \<Rightarrow> ChangeForReader_t list \<Rightarrow> int" where
  "skip_present lowm current [] = current"
| "skip_present lowm current (c # cs) =
     (if current \<le> lowm \<and> cfr_seq_num c = current then skip_present lowm (current + 1) cs else current)"

function resend_loop ::
  "(int \<Rightarrow> CacheChange_t option) \<Rightarrow> int \<Rightarrow> int \<Rightarrow> bool \<times> ChangeForReader_t list \<Rightarrow>
   bool \<times> ChangeForReader_t list" where
  "resend_loop lookup lowm current sc =
     (if current \<le> lowm
      then
        let current' = skip_present lowm current (drop (find_change current (snd sc)) (snd sc))
        in if current' \<le> lowm
           then resend_loop lookup lowm (current' + 1)
                  (case lookup current' of
                     Some change \<Rightarrow> (True, snd sc @ [(ChangeForReader change)\<lparr>cfr_status := UNACKNOWLEDGED\<rparr>])
                   | None \<Rightarrow> sc)
           else sc
      else sc)"
  by pat_completeness auto

termination
proof (relation "measure (\<lambda>(_, lowm, current, _). nat (lowm - current + 1))", goal_cases)
  case (2 lookup lowm current sc x)
  have "cur \<le> skip_present l cur cs" for l cur cs
    by (induction l cur cs rule: skip_present.induct) (auto intro: order_trans)
  from this [of current lowm "drop (find_change current (snd sc)) (snd sc)"] show ?case using 2 by auto
qed simp

definition acked_changes_set ::
  "WriterHistory \<Rightarrow> GUID_t \<Rightarrow> int \<Rightarrow> 'loc ReaderProxy \<Rightarrow> 'loc ReaderProxy" where
  "acked_changes_set h writer_guid seq_num rp =
     (if seq_num > changes_low_mark rp
      then
        let (future_low_mark, cs) =
              acked_run seq_num (drop (find_change_lb seq_num (changes_for_reader rp)) (changes_for_reader rp))
        in rp\<lparr>changes_for_reader := cs, changes_low_mark := future_low_mark - 1\<rparr>
      else if seq_num = 0 \<and> durability_kind rp \<noteq> VOLATILE
      then
        let min_sequence = get_seq_num_min h
        in if min_sequence \<noteq> SN_UNKNOWN
           then
             let current = if seq_num < min_sequence then min_sequence else seq_num;
                 (should_sort, cs) = resend_loop (\<lambda>s. get_change s writer_guid h) (changes_low_mark rp)
                                       current (False, changes_for_reader rp)
             in rp\<lparr>changes_for_reader := if should_sort then sort_key cfr_seq_num cs else cs,
                   changes_low_mark := current - 1\<rparr>
           else if \<not> is_local_reader rp
           then rp\<lparr>changes_low_mark := next_sequence_number h - 1\<rparr>
           else rp\<lparr>changes_low_mark := changes_low_mark rp + 1 - 1\<rparr>
      else rp\<lparr>changes_low_mark := changes_low_mark rp + 1 - 1\<rparr>)"

definition rp_start ::
  "WriterHistory \<Rightarrow> GUID_t \<Rightarrow> IntraprocessDeliveryType \<Rightarrow> 'loc ReaderProxyData \<Rightarrow> bool \<Rightarrow>
   'loc ReaderProxy \<Rightarrow> 'loc ReaderProxy" where
  "rp_start h writer_guid setting reader_attributes is_datasharing rp =
     (let rp = rp\<lparr>locator_info := snd (locator_start setting writer_guid (rd_guid reader_attributes)
                    (rd_unicast reader_attributes) (rd_multicast reader_attributes)
                    (rd_expects_inline_qos reader_attributes) is_datasharing (locator_info rp)),
                  rp_is_active := True, durability_kind := rd_durability reader_attributes,
                  rp_expects_inline_qos := rd_expects_inline_qos reader_attributes,
                  rp_is_reliable := rd_reliable reader_attributes,
                  rp_disable_positive_acks := rd_disable_positive_acks reader_attributes\<rparr>;
          rp = (if durability_kind rp = VOLATILE
                then let min_sequence = get_seq_num_min h
                     in rp\<lparr>changes_low_mark := if min_sequence = SN_UNKNOWN then next_sequence_number h - 1
                                                else min_sequence - 1\<rparr>
                else acked_changes_set h writer_guid 0 rp);
          rp = rp\<lparr>timers_enabled := is_remote_and_reliable rp\<rparr>
      in if is_local_reader rp
         then rp\<lparr>initial_heartbeat_event := map_option restart_timer (initial_heartbeat_event rp)\<rparr>
         else rp)"

definition rp_update :: "'loc ReaderProxyData \<Rightarrow> 'loc ReaderProxy \<Rightarrow> bool \<times> 'loc ReaderProxy" where
  "rp_update reader_attributes rp =
     (True, rp\<lparr>durability_kind := rd_durability reader_attributes,
               rp_expects_inline_qos := rd_expects_inline_qos reader_attributes,
               rp_is_reliable := rd_reliable reader_attributes,
               rp_disable_positive_acks := rd_disable_positive_acks reader_attributes,
               locator_info := snd (locator_update (rd_unicast reader_attributes)
                 (rd_multicast reader_attributes) (rd_expects_inline_qos reader_attributes)
                 (locator_info rp))\<rparr>)"

definition update_nack_supression_interval :: "int \<Rightarrow> 'loc ReaderProxy \<Rightarrow> 'loc ReaderProxy" where
  "update_nack_supression_interval interval rp =
     rp\<lparr>nack_supression_event := map_option (\<lambda>t. t\<lparr>te_interval := interval\<rparr>) (nack_supression_event rp)\<rparr>"

text \<open>
  \<open>push_back\<close> fails when the vector may not grow any more; the source calls this impossible, the
  model takes the vector without a limit.
\<close>

definition rp_add_change_basic :: "ChangeForReader_t \<Rightarrow> bool \<Rightarrow> 'loc ReaderProxy \<Rightarrow> 'loc ReaderProxy" where
  "rp_add_change_basic change is_relevant rp =
     (if \<not> is_relevant
      then if \<not> rp_is_reliable rp \<and> changes_low_mark rp + 1 = cfr_seq_num change
           then rp\<lparr>changes_low_mark := cfr_seq_num change\<rparr> else rp
      else rp\<lparr>changes_for_reader := changes_for_reader rp @ [change]\<rparr>)"

definition rp_add_change :: "ChangeForReader_t \<Rightarrow> bool \<Rightarrow> bool \<Rightarrow> 'loc ReaderProxy \<Rightarrow> 'loc ReaderProxy" where
  "rp_add_change change is_relevant restart_nack_supression rp =
     rp_add_change_basic change is_relevant
       (if restart_nack_supression \<and> timers_enabled rp
        then rp\<lparr>nack_supression_event := map_option restart_timer (nack_supression_event rp)\<rparr> else rp)"

definition has_changes :: "'loc ReaderProxy \<Rightarrow> bool" where
  "has_changes rp \<longleftrightarrow> changes_for_reader rp \<noteq> []"

definition change_is_acked :: "int \<Rightarrow> 'loc ReaderProxy \<Rightarrow> bool" where
  "change_is_acked seq_num rp =
     (if seq_num \<le> changes_low_mark rp \<or> changes_for_reader rp = [] then True
      else
        let chit = find_change seq_num (changes_for_reader rp)
        in if chit = length (changes_for_reader rp) then True
           else cfr_status (changes_for_reader rp ! chit) = ACKNOWLEDGED)"

text \<open>
  \<open>change_is_unsent\<close>: the result, the next fragment and the start of the gap (which the function leaves
  alone unless it returns true), and the flag for the periodic heartbeat.
\<close>

definition change_is_unsent ::
  "int \<Rightarrow> u32 \<Rightarrow> int \<Rightarrow> int \<Rightarrow> bool \<Rightarrow> 'loc ReaderProxy \<Rightarrow> bool \<times> u32 \<times> int \<times> bool" where
  "change_is_unsent seq_num next_unsent_frag gap_seq min_seq need_reactivate rp =
     (if seq_num \<le> changes_low_mark rp \<or> changes_for_reader rp = []
      then (False, next_unsent_frag, gap_seq, need_reactivate)
      else
        let cs = changes_for_reader rp; chit = find_change seq_num cs
        in if chit = length cs then (False, next_unsent_frag, gap_seq, need_reactivate)
           else if cfr_status (cs ! chit) = UNSENT
           then
             let next_unsent_frag = get_next_unsent_fragment (cs ! chit)
             in if rp_is_reliable rp \<and> \<not> cfr_delivered (cs ! chit)
                then
                  let prev = (if chit \<noteq> 0 then cfr_seq_num (cs ! (chit - 1)) else changes_low_mark rp) + 1;
                      gap_seq = (if prev \<noteq> cfr_seq_num (cs ! chit)
                                 then if prev < min_seq
                                      then if min_seq < seq_num then min_seq else SN_UNKNOWN
                                      else prev
                                 else SN_UNKNOWN)
                  in (True, next_unsent_frag, gap_seq, True)
                else (True, next_unsent_frag, SN_UNKNOWN, need_reactivate)
           else (False, next_unsent_frag, gap_seq, need_reactivate))"

definition request_change ::
  "(gap_msg \<Rightarrow> bool) \<Rightarrow> int \<Rightarrow> int \<Rightarrow> bool \<times> RTPSGapBuilder \<times> 'loc ReaderProxy \<Rightarrow>
   bool \<times> RTPSGapBuilder \<times> 'loc ReaderProxy" where
  "request_change send min_seq_in_history sit st =
     (let (someone, g, rp) = st; cs = changes_for_reader rp; chit = find_change sit cs
      in if chit \<noteq> length cs
         then if UNACKNOWLEDGED = cfr_status (cs ! chit)
              then (True, g, rp\<lparr>changes_for_reader :=
                      cs[chit := markAllFragmentsAsUnsent ((cs ! chit)\<lparr>cfr_status := REQUESTED\<rparr>)]\<rparr>)
              else st
         else if sit \<ge> min_seq_in_history \<and> sit > changes_low_mark rp
         then (someone, snd (gap_add send sit g), rp)
         else st)"

definition requested_changes_set ::
  "(gap_msg \<Rightarrow> bool) \<Rightarrow> int BitmapRange \<Rightarrow> int \<Rightarrow> RTPSGapBuilder \<Rightarrow> 'loc ReaderProxy \<Rightarrow>
   bool \<times> RTPSGapBuilder \<times> 'loc ReaderProxy" where
  "requested_changes_set send seq_num_set min_seq_in_history g rp =
     (if SN_UNKNOWN \<noteq> min_seq_in_history
      then fold (request_change send min_seq_in_history) (br_for_each int_items seq_num_set) (False, g, rp)
      else (False, g, rp))"

text \<open>
  \<open>convert_status_on_all_changes\<close>: the number of converted samples (a \<open>uint32_t\<close>), the samples handed to
  \<open>func\<close>, in order, and the proxy.
\<close>

definition convert_status_on_all_changes ::
  "ChangeForReaderStatus_t \<Rightarrow> ChangeForReaderStatus_t \<Rightarrow> 'loc ReaderProxy \<Rightarrow>
   nat \<times> ChangeForReader_t list \<times> 'loc ReaderProxy" where
  "convert_status_on_all_changes previous nxt_status rp =
     (let hit = filter (\<lambda>c. cfr_status c = previous) (changes_for_reader rp)
      in (length hit mod 4294967296, map (\<lambda>c. c\<lparr>cfr_status := nxt_status\<rparr>) hit,
          rp\<lparr>changes_for_reader := map (\<lambda>c. if cfr_status c = previous then c\<lparr>cfr_status := nxt_status\<rparr> else c)
                                     (changes_for_reader rp)\<rparr>))"

definition process_initial_acknack ::
  "'loc ReaderProxy \<Rightarrow> bool \<times> ChangeForReader_t list \<times> 'loc ReaderProxy" where
  "process_initial_acknack rp =
     (if is_local_reader rp
      then let (n, cs, rp) = convert_status_on_all_changes UNACKNOWLEDGED UNSENT rp in (0 \<noteq> n, cs, rp)
      else (True, [], rp))"

definition rp_perform_nack_supression :: "'loc ReaderProxy \<Rightarrow> bool \<times> 'loc ReaderProxy" where
  "rp_perform_nack_supression rp =
     (let (n, _, rp) = convert_status_on_all_changes UNDERWAY UNACKNOWLEDGED rp in (0 \<noteq> n, rp))"

definition perform_acknack_response ::
  "'loc ReaderProxy \<Rightarrow> nat \<times> ChangeForReader_t list \<times> 'loc ReaderProxy" where
  "perform_acknack_response rp = convert_status_on_all_changes REQUESTED UNSENT rp"

definition from_unsent_to_status ::
  "WriterHistory \<Rightarrow> GUID_t \<Rightarrow> int \<Rightarrow> ChangeForReaderStatus_t \<Rightarrow> bool \<Rightarrow> bool \<Rightarrow> 'loc ReaderProxy \<Rightarrow>
   'loc ReaderProxy" where
  "from_unsent_to_status h writer_guid seq_num status restart_nack_supression delivered rp =
     (let rp = (if restart_nack_supression \<and> is_remote_and_reliable rp
                then rp\<lparr>nack_supression_event := map_option restart_timer (nack_supression_event rp)\<rparr> else rp);
          cs = changes_for_reader rp; it = find_change seq_num cs
      in if ACKNOWLEDGED = status \<and> seq_num = changes_low_mark rp + 1
         then acked_changes_set h writer_guid (seq_num + 1) (rp\<lparr>changes_for_reader := erase it cs\<rparr>)
         else
           let c = (cs ! it)\<lparr>cfr_status := status\<rparr>;
               c = if delivered then c\<lparr>cfr_delivered := True\<rparr> else c
           in rp\<lparr>changes_for_reader := cs[it := c]\<rparr>)"

text \<open>The flags tell whether the sample was found and whether the fragment was its last.\<close>

definition mark_fragment_as_sent_for_change ::
  "int \<Rightarrow> u32 \<Rightarrow> 'loc ReaderProxy \<Rightarrow> (bool \<times> bool \<times> 'loc ReaderProxy) option" where
  "mark_fragment_as_sent_for_change seq_num frag_num rp =
     (if seq_num \<le> changes_low_mark rp then Some (False, False, rp)
      else
        let cs = changes_for_reader rp; it = find_change seq_num cs
        in if it \<noteq> length cs
           then map_option
                  (\<lambda>c. (True, br_empty (cfr_unsent_fragments c), rp\<lparr>changes_for_reader := cs[it := c]\<rparr>))
                  (markFragmentsAsSent frag_num (cs ! it))
           else Some (False, False, rp))"

text \<open>The first flag says that a local reader was sent a GAP for the sample.\<close>

definition change_has_been_removed ::
  "WriterHistory \<Rightarrow> GUID_t \<Rightarrow> int \<Rightarrow> 'loc ReaderProxy \<Rightarrow> bool \<times> 'loc ReaderProxy" where
  "change_has_been_removed h writer_guid seq_num rp =
     (let cs = changes_for_reader rp
      in if cs = [] \<or> seq_num < cfr_seq_num (hd cs) then (False, rp)
         else
           let chit = find_change seq_num cs
           in if chit = length cs then (False, rp)
              else
                let gap = is_local_reader rp \<and> status_code ACKNOWLEDGED > status_code (cfr_status (cs ! chit));
                    rp = rp\<lparr>changes_for_reader := erase chit cs\<rparr>
                in (gap, if changes_low_mark rp + 1 = seq_num
                         then acked_changes_set h writer_guid (seq_num + 1) rp else rp))"

definition has_unacknowledged :: "int \<Rightarrow> 'loc ReaderProxy \<Rightarrow> bool" where
  "has_unacknowledged first_seq_in_history rp =
     (if first_seq_in_history > changes_low_mark rp then True
      else list_ex (\<lambda>c. cfr_status c = UNACKNOWLEDGED) (changes_for_reader rp))"

definition requested_fragment_set ::
  "int \<Rightarrow> u32 BitmapRange \<Rightarrow> 'loc ReaderProxy \<Rightarrow> bool \<times> 'loc ReaderProxy" where
  "requested_fragment_set seq_num frag_set rp =
     (let cs = changes_for_reader rp; it = find_change seq_num cs
      in if it = length cs then (False, rp)
         else
           let c = markFragmentsAsUnsent frag_set (cs ! it);
               c = if cfr_status c \<noteq> UNSENT then c\<lparr>cfr_status := REQUESTED\<rparr> else c
           in (True, rp\<lparr>changes_for_reader := cs[it := c]\<rparr>))"

definition rp_process_nack_frag ::
  "GUID_t \<Rightarrow> nat \<Rightarrow> int \<Rightarrow> u32 BitmapRange \<Rightarrow> 'loc ReaderProxy \<Rightarrow> bool \<times> 'loc ReaderProxy" where
  "rp_process_nack_frag reader_guid nack_count seq_num fragments_state rp =
     (if guid_eq (rl_remote_guid (locator_info rp)) reader_guid
      then if last_nackfrag_count rp < nack_count
           then requested_fragment_set seq_num fragments_state (rp\<lparr>last_nackfrag_count := nack_count\<rparr>)
           else (False, rp)
      else (False, rp))"

text \<open>The counter is a \<open>uint32_t\<close>: after the largest count it starts again at zero.\<close>

definition check_and_set_acknack_count :: "nat \<Rightarrow> 'loc ReaderProxy \<Rightarrow> bool \<times> 'loc ReaderProxy" where
  "check_and_set_acknack_count acknack_count rp =
     (if acknack_count \<ge> next_expected_acknack_count rp
      then (True, rp\<lparr>next_expected_acknack_count := (acknack_count + 1) mod 4294967296\<rparr>)
      else (False, rp))"

text \<open>The result, and whether the sample was found in the list.\<close>

definition rp_has_been_delivered :: "int \<Rightarrow> 'loc ReaderProxy \<Rightarrow> bool \<times> bool" where
  "rp_has_been_delivered seq_number rp =
     (if seq_number \<le> changes_low_mark rp then (True, False)
      else
        let cs = changes_for_reader rp; it = find_change seq_number cs
        in if it \<noteq> length cs then (cfr_delivered (cs ! it), True) else (False, False))"

subsection \<open>Abstraction and invariants\<close>

text \<open>
  The samples of a proxy are in order, above the mark up to which everything is acknowledged.
\<close>

definition rp_inv :: "'loc ReaderProxy \<Rightarrow> bool" where
  "rp_inv rp \<longleftrightarrow> sorted_wrt (<) (map cfr_seq_num (changes_for_reader rp)) \<and>
     (\<forall>c\<in>set (changes_for_reader rp). changes_low_mark rp < cfr_seq_num c)"

text \<open>The numbers a GAP declares irrelevant, and those a builder still holds back.\<close>

definition gap_numbers :: "gap_msg \<Rightarrow> int set" where
  "gap_numbers m = {fst m..<br_base (snd m)} \<union> br_items int_items (snd m)"

definition gb_numbers :: "RTPSGapBuilder \<Rightarrow> int set" where
  "gb_numbers g = \<Union> (gap_numbers ` set (gb_sent g)) \<union>
     (if is_gap_pending g then gap_numbers (initial_sequence g, gap_bitmap g) else {})"

text \<open>Sending the next unsent fragment until there is none, at most \<open>fuel\<close> times.\<close>

fun send_fragments :: "nat \<Rightarrow> ChangeForReader_t \<Rightarrow> (u32 list \<times> ChangeForReader_t) option" where
  "send_fragments 0 c = Some ([], c)"
| "send_fragments (Suc fuel) c =
     (let f = get_next_unsent_fragment c
      in if f = of_nat (cc_fragment_count (cfr_change c)) + 1 then Some ([], c)
         else case markFragmentsAsSent f c of
                Some c' \<Rightarrow> map_option (\<lambda>(fs, c''). (f # fs, c'')) (send_fragments fuel c')
              | None \<Rightarrow> None)"

abbreviation cfr_sorted :: "ChangeForReader_t list \<Rightarrow> bool" where
  "cfr_sorted cs \<equiv> sorted_wrt (<) (map cfr_seq_num cs)"

text \<open>Every sample a proxy holds is in the history of its writer, which numbers them from one.\<close>

definition rp_in_history :: "WriterHistory \<Rightarrow> 'loc ReaderProxy \<Rightarrow> bool" where
  "rp_in_history h rp \<longleftrightarrow>
     cfr_seq_num ` set (changes_for_reader rp) \<subseteq> cc_sequenceNumber ` set (m_changes h) \<and>
     (\<forall>d\<in>set (m_changes h). 0 < cc_sequenceNumber d)"

definition mark_requested :: "ChangeForReader_t \<Rightarrow> ChangeForReader_t" where
  "mark_requested c = (if cfr_status c = UNACKNOWLEDGED
     then markAllFragmentsAsUnsent (c\<lparr>cfr_status := REQUESTED\<rparr>) else c)"

definition request_only :: "int set \<Rightarrow> ChangeForReader_t list \<Rightarrow> ChangeForReader_t list" where
  "request_only S cs = map (\<lambda>c. if cfr_seq_num c \<in> S then mark_requested c else c) cs"

definition gb_inv :: "RTPSGapBuilder \<Rightarrow> bool" where
  "gb_inv g \<longleftrightarrow> (is_gap_pending g \<longrightarrow> br_wf (gap_bitmap g) \<and> br_full int_items (gap_bitmap g) \<and>
     initial_sequence g < br_base (gap_bitmap g))"

definition unsent_from :: "nat \<Rightarrow> ChangeForReader_t \<Rightarrow> bool" where
  "unsent_from k c \<longleftrightarrow>
     (let uf = cfr_unsent_fragments c; n = cc_fragment_count (cfr_change c)
      in br_wf uf \<and> br_tight uf \<and> \<not> cfr_delivered c \<and> 1 \<le> unat (br_base uf) \<and> unat (br_base uf) \<le> k \<and>
         (unat (br_base uf) = k \<or> n \<le> unat (br_base uf) + 255) \<and> n < 4294967040 \<and> k \<le> n + 1 \<and>
         br_items u32_items uf = {x. k \<le> unat x \<and> unat x \<le> n \<and> unat x \<le> unat (br_base uf) + 255})"

definition rp_ok :: "WriterHistory \<Rightarrow> 'loc ReaderProxy \<Rightarrow> bool" where
  "rp_ok h rp \<longleftrightarrow> rp_inv rp \<and> rp_in_history h rp"

definition example_proxy :: "DurabilityKind_t \<Rightarrow> int \<Rightarrow> ChangeForReader_t list \<Rightarrow> unit ReaderProxy" where
  "example_proxy d l cs = (rp_init None None)\<lparr>durability_kind := d, changes_low_mark := l, changes_for_reader := cs\<rparr>"

definition example_numbered :: "int \<Rightarrow> CacheChange_t" where
  "example_numbered n = change_default\<lparr>cc_sequenceNumber := n\<rparr>"

subsection \<open>Laws\<close>

lemma find_change_lb_sorted:
  assumes "cfr_sorted cs"
  shows "take (find_change_lb s cs) cs = filter (\<lambda>c. cfr_seq_num c < s) cs"
    "drop (find_change_lb s cs) cs = filter (\<lambda>c. s \<le> cfr_seq_num c) cs"
    "find_change_lb s cs = length (filter (\<lambda>c. cfr_seq_num c < s) cs)"
proof -
  have srt: "sorted_wrt (\<lambda>x y. cfr_seq_num x < cfr_seq_num y) cs" using assms by (simp add: sorted_wrt_map)
  have "sorted_wrt (\<lambda>x y. cfr_seq_num y < s \<longrightarrow> cfr_seq_num x < s) cs"
    by (rule sorted_wrt_mono_rel [OF _ srt]) auto
  then have lb: "find_change_lb s cs = length (takeWhile (\<lambda>c. cfr_seq_num c < s) cs)"
    unfolding find_change_lb_def by (rule lower_bound_takeWhile)
  have tw: "takeWhile (\<lambda>c. cfr_seq_num c < s) cs = filter (\<lambda>c. cfr_seq_num c < s) cs \<and>
      dropWhile (\<lambda>c. cfr_seq_num c < s) cs = filter (\<lambda>c. s \<le> cfr_seq_num c) cs"
    using srt
  proof (induction cs)
    case (Cons c cs)
    show ?case
    proof (cases "cfr_seq_num c < s")
      case False
      then have "\<forall>d\<in>set cs. s \<le> cfr_seq_num d" using Cons.prems by auto
      then have "filter (\<lambda>c. cfr_seq_num c < s) cs = []" "filter (\<lambda>c. s \<le> cfr_seq_num c) cs = cs"
        by (auto simp: filter_empty_conv)
      then show ?thesis using False by simp
    qed (use Cons in auto)
  qed simp
  show "take (find_change_lb s cs) cs = filter (\<lambda>c. cfr_seq_num c < s) cs"
    unfolding lb takeWhile_eq_take [symmetric] by (rule tw [THEN conjunct1])
  show "drop (find_change_lb s cs) cs = filter (\<lambda>c. s \<le> cfr_seq_num c) cs"
    unfolding lb dropWhile_eq_drop [symmetric] by (rule tw [THEN conjunct2])
  show "find_change_lb s cs = length (filter (\<lambda>c. cfr_seq_num c < s) cs)"
    unfolding lb using tw by simp
qed

lemma find_change_le: "find_change s cs \<le> length cs \<or> \<not> cfr_sorted cs"
  using find_change_lb_sorted(3) [of cs s] by (auto simp: find_change_def Let_def)

lemma find_change_present:
  assumes "cfr_sorted cs" "c \<in> set cs" "cfr_seq_num c = s"
  shows "find_change s cs < length cs" "cs ! find_change s cs = c"
proof -
  let ?i = "find_change_lb s cs"
  have d: "drop ?i cs = filter (\<lambda>c. s \<le> cfr_seq_num c) cs" by (rule find_change_lb_sorted(2) [OF assms(1)])
  have cd: "c \<in> set (drop ?i cs)" using assms(2,3) unfolding d by auto
  then have i: "?i < length cs" by (metis drop_all empty_iff list.set(1) not_less)
  then obtain ys where ys: "drop ?i cs = cs ! ?i # ys" by (metis Cons_nth_drop_Suc)
  have "s \<le> cfr_seq_num (cs ! ?i)"
  proof -
    have "cs ! ?i \<in> set (filter (\<lambda>c. s \<le> cfr_seq_num c) cs)" using ys unfolding d by simp
    then show ?thesis by simp
  qed
  moreover have "sorted_wrt (\<lambda>x y. cfr_seq_num x < cfr_seq_num y) (cs ! ?i # ys)"
    using assms(1) ys by (metis sorted_wrt_drop sorted_wrt_map)
  then have "c = cs ! ?i \<or> cfr_seq_num (cs ! ?i) < cfr_seq_num c" using cd ys by auto
  ultimately have "c = cs ! ?i" using assms(3) by auto
  then show "find_change s cs < length cs" "cs ! find_change s cs = c"
    using i assms(3) by (auto simp: find_change_def Let_def)
qed

lemma find_change_absent:
  assumes "cfr_sorted cs" "\<forall>c\<in>set cs. cfr_seq_num c \<noteq> s"
  shows "find_change s cs = length cs"
proof -
  have "find_change_lb s cs \<le> length cs" using find_change_lb_sorted(3) [OF assms(1)] by simp
  then show ?thesis using assms(2) nth_mem [of "find_change_lb s cs" cs] by (auto simp: find_change_def Let_def)
qed

lemma find_change_iff:
  assumes "cfr_sorted cs"
  shows "find_change s cs = length cs \<longleftrightarrow> (\<forall>c\<in>set cs. cfr_seq_num c \<noteq> s)"
  using find_change_present [OF assms] find_change_absent [OF assms] by fastforce

lemma change_is_acked_iff:
  assumes "rp_inv rp"
  shows "change_is_acked n rp \<longleftrightarrow> (\<forall>c\<in>set (changes_for_reader rp). cfr_seq_num c = n \<longrightarrow> cfr_status c = ACKNOWLEDGED)"
proof (cases "\<exists>c\<in>set (changes_for_reader rp). cfr_seq_num c = n")
  case True
  then obtain c where c: "c \<in> set (changes_for_reader rp)" "cfr_seq_num c = n" by blast
  have s: "cfr_sorted (changes_for_reader rp)" and low: "\<not> n \<le> changes_low_mark rp"
    using assms c by (auto simp: rp_inv_def)
  note f = find_change_present [OF s c]
  have "changes_for_reader rp \<noteq> []" using c(1) by auto
  then have "change_is_acked n rp \<longleftrightarrow> cfr_status c = ACKNOWLEDGED"
    using low f(1) unfolding change_is_acked_def Let_def f(2) by simp
  moreover have "d = c" if "d \<in> set (changes_for_reader rp)" "cfr_seq_num d = n" for d
    using find_change_present(2) [OF s that] f(2) by simp
  ultimately show ?thesis using c by blast
next
  case False
  then have "find_change n (changes_for_reader rp) = length (changes_for_reader rp)"
    using assms by (intro find_change_absent) (auto simp: rp_inv_def)
  then show ?thesis using False by (auto simp: change_is_acked_def)
qed

lemma acked_run_spec:
  assumes "cfr_sorted cs" "\<forall>c\<in>set cs. s \<le> cfr_seq_num c" "acked_run s cs = (f, cs')"
  shows "s \<le> f \<and> cs' = filter (\<lambda>c. f \<le> cfr_seq_num c) cs \<and>
    (\<forall>c\<in>set cs. cfr_seq_num c < f \<longrightarrow> cfr_status c = ACKNOWLEDGED) \<and>
    (\<forall>c\<in>set cs. cfr_seq_num c = f \<longrightarrow> cfr_status c \<noteq> ACKNOWLEDGED)"
  using assms
proof (induction s cs rule: acked_run.induct)
  case (2 s c cs)
  show ?case
  proof (cases "cfr_seq_num c = s \<and> cfr_status c = ACKNOWLEDGED")
    case True
    have "\<forall>d\<in>set cs. s + 1 \<le> cfr_seq_num d" using 2(2) True by auto
    then have "s + 1 \<le> f \<and> cs' = filter (\<lambda>c. f \<le> cfr_seq_num c) cs \<and>
      (\<forall>c\<in>set cs. cfr_seq_num c < f \<longrightarrow> cfr_status c = ACKNOWLEDGED) \<and>
      (\<forall>c\<in>set cs. cfr_seq_num c = f \<longrightarrow> cfr_status c \<noteq> ACKNOWLEDGED)"
      using 2 True by (intro 2(1)) auto
    then show ?thesis using True by auto
  next
    case False
    then have "f = s" "cs' = c # cs" using 2(4) by (auto split: if_splits)
    moreover have "\<forall>d\<in>set cs. s < cfr_seq_num d" using 2(2,3) by fastforce
    ultimately show ?thesis using False 2(3) by (auto intro!: filter_True [symmetric])
  qed
qed simp

lemma acked_changes_set_ahead:
  assumes "rp_inv rp" "changes_low_mark rp < s"
  shows "\<exists>f. s \<le> f \<and> acked_changes_set h g s rp =
      rp\<lparr>changes_for_reader := filter (\<lambda>c. f \<le> cfr_seq_num c) (changes_for_reader rp), changes_low_mark := f - 1\<rparr> \<and>
      (\<forall>c\<in>set (changes_for_reader rp). s \<le> cfr_seq_num c \<longrightarrow> cfr_seq_num c < f \<longrightarrow> cfr_status c = ACKNOWLEDGED) \<and>
      (\<forall>c\<in>set (changes_for_reader rp). cfr_seq_num c = f \<longrightarrow> cfr_status c \<noteq> ACKNOWLEDGED)"
proof -
  let ?cs = "changes_for_reader rp"
  have s: "cfr_sorted ?cs" using assms(1) by (simp add: rp_inv_def)
  let ?ds = "filter (\<lambda>c. s \<le> cfr_seq_num c) ?cs"
  obtain f cs' where r: "acked_run s ?ds = (f, cs')" by fastforce
  have srt: "cfr_sorted ?ds" using s by (simp add: sorted_wrt_map sorted_wrt_filter)
  have ge: "\<forall>c\<in>set ?ds. s \<le> cfr_seq_num c" by simp
  have sp: "s \<le> f" "cs' = filter (\<lambda>c. f \<le> cfr_seq_num c) ?ds"
    "\<forall>c\<in>set ?ds. cfr_seq_num c < f \<longrightarrow> cfr_status c = ACKNOWLEDGED"
    "\<forall>c\<in>set ?ds. cfr_seq_num c = f \<longrightarrow> cfr_status c \<noteq> ACKNOWLEDGED"
    using acked_run_spec [OF srt ge r] by blast+
  have "filter (\<lambda>c. f \<le> cfr_seq_num c) ?ds = filter (\<lambda>c. f \<le> cfr_seq_num c) ?cs"
    using sp(1) unfolding filter_filter by (intro filter_cong) auto
  then have "acked_changes_set h g s rp =
      rp\<lparr>changes_for_reader := filter (\<lambda>c. f \<le> cfr_seq_num c) ?cs, changes_low_mark := f - 1\<rparr>"
    using assms(2) r sp(2) by (simp add: acked_changes_set_def find_change_lb_sorted(2) [OF s])
  then show ?thesis using sp by (intro exI [of _ f]) auto
qed

lemma rp_inv_filter:
  "rp_inv rp \<Longrightarrow> rp_inv (rp\<lparr>changes_for_reader := filter (\<lambda>c. f \<le> cfr_seq_num c) (changes_for_reader rp),
     changes_low_mark := f - 1\<rparr>)"
  by (auto simp: rp_inv_def sorted_wrt_map sorted_wrt_filter)

lemma acked_changes_set_ahead_acked:
  assumes "rp_inv rp" "changes_low_mark rp < s"
  shows "rp_inv (acked_changes_set h g s rp)"
    "change_is_acked n (acked_changes_set h g s rp) \<longleftrightarrow> n < s \<or> change_is_acked n rp"
proof -
  obtain f where f: "s \<le> f" "acked_changes_set h g s rp =
      rp\<lparr>changes_for_reader := filter (\<lambda>c. f \<le> cfr_seq_num c) (changes_for_reader rp), changes_low_mark := f - 1\<rparr>"
      "\<forall>c\<in>set (changes_for_reader rp). s \<le> cfr_seq_num c \<longrightarrow> cfr_seq_num c < f \<longrightarrow> cfr_status c = ACKNOWLEDGED"
    using acked_changes_set_ahead [OF assms] by blast
  show i: "rp_inv (acked_changes_set h g s rp)" unfolding f(2) by (rule rp_inv_filter [OF assms(1)])
  have "change_is_acked n (acked_changes_set h g s rp) \<longleftrightarrow>
      (\<forall>c\<in>set (changes_for_reader rp). f \<le> cfr_seq_num c \<longrightarrow> cfr_seq_num c = n \<longrightarrow> cfr_status c = ACKNOWLEDGED)"
    unfolding change_is_acked_iff [OF i] by (auto simp: f(2))
  also have "\<dots> \<longleftrightarrow> n < s \<or> change_is_acked n rp"
  proof (cases "n < s")
    case True
    then show ?thesis using f(1) by auto
  next
    case False
    then show ?thesis
      unfolding change_is_acked_iff [OF assms(1)] using f(3) by (metis linorder_not_le)
  qed
  finally show "change_is_acked n (acked_changes_set h g s rp) \<longleftrightarrow> n < s \<or> change_is_acked n rp" .
qed

lemma lower_bound_from_le: "lower_bound_from p xs first len \<le> first + len"
proof (induction p xs first len rule: lower_bound_from.induct)
  case (1 p xs first len)
  show ?case
  proof (cases "len = 0")
    case False
    then show ?thesis
      using 1(1) [OF False refl refl] 1(2) [OF False refl refl] by (subst lower_bound_from.simps) (auto simp: Let_def)
  qed (simp add: lower_bound_from.simps)
qed

lemma find_change_missing: "\<forall>c\<in>set cs. cfr_seq_num c \<noteq> s \<Longrightarrow> find_change s cs = length cs"
  using lower_bound_from_le [of "\<lambda>c. cfr_seq_num c < s" cs 0 "length cs"] nth_mem [of "find_change_lb s cs" cs]
  by (fastforce simp: find_change_def find_change_lb_def lower_bound_def Let_def)

declare resend_loop.simps [simp del]

lemma ChangeForReader_seq [simp]: "cfr_seq_num (ChangeForReader ch) = cc_sequenceNumber ch"
  by (simp add: ChangeForReader_def markAllFragmentsAsUnsent_def)

lemma resend_loop_spec:
  assumes "\<And>n ch. lookup n = Some ch \<Longrightarrow> cc_sequenceNumber ch = n"
    "\<forall>c\<in>set cs. cfr_seq_num c < current \<or> lm < cfr_seq_num c"
  shows "\<exists>new. resend_loop lookup lm current (b, cs) = (b \<or> new \<noteq> [], cs @ new) \<and>
    cfr_sorted new \<and> cfr_seq_num ` set new = {n. current \<le> n \<and> n \<le> lm \<and> lookup n \<noteq> None} \<and>
    (\<forall>c\<in>set new. cfr_status c = UNACKNOWLEDGED)"
  using assms(2)
proof (induction "nat (lm - current + 1)" arbitrary: current b cs)
  case 0
  then have "\<not> current \<le> lm" by simp
  then show ?case by (simp add: resend_loop.simps)
next
  case (Suc k)
  then have cur: "current \<le> lm" and k: "k = nat (lm - (current + 1) + 1)" by auto
  have "\<forall>c\<in>set cs. cfr_seq_num c \<noteq> current" using Suc.prems cur by auto
  then have "find_change current cs = length cs" by (rule find_change_missing)
  then have step: "resend_loop lookup lm current (b, cs) = resend_loop lookup lm (current + 1)
      (case lookup current of Some change \<Rightarrow> (True, cs @ [(ChangeForReader change)\<lparr>cfr_status := UNACKNOWLEDGED\<rparr>])
       | None \<Rightarrow> (b, cs))"
    using cur by (subst resend_loop.simps) (simp split: option.split)
  have split: "{n. current \<le> n \<and> n \<le> lm \<and> lookup n \<noteq> None} =
      {n. current + 1 \<le> n \<and> n \<le> lm \<and> lookup n \<noteq> None} \<union> (if lookup current = None then {} else {current})"
    using cur by (auto simp: int_one_le_iff_zero_less dest: le_neq_trans)
  show ?case
  proof (cases "lookup current")
    case None
    have "\<forall>c\<in>set cs. cfr_seq_num c < current + 1 \<or> lm < cfr_seq_num c" using Suc.prems by auto
    from Suc.hyps(1) [OF k this, of b] show ?thesis unfolding step split using None by simp
  next
    case (Some ch)
    let ?c = "(ChangeForReader ch)\<lparr>cfr_status := UNACKNOWLEDGED\<rparr>"
    have seq: "cfr_seq_num ?c = current" using assms(1) [OF Some] by simp
    then have "\<forall>c\<in>set (cs @ [?c]). cfr_seq_num c < current + 1 \<or> lm < cfr_seq_num c" using Suc.prems by auto
    from Suc.hyps(1) [OF k this, of True] obtain new where n:
      "resend_loop lookup lm (current + 1) (True, cs @ [?c]) = (True, (cs @ [?c]) @ new)" "cfr_sorted new"
      "cfr_seq_num ` set new = {n. current + 1 \<le> n \<and> n \<le> lm \<and> lookup n \<noteq> None}"
      "\<forall>c\<in>set new. cfr_status c = UNACKNOWLEDGED" by auto
    have "\<forall>d\<in>set new. cfr_seq_num d \<in> {n. current + 1 \<le> n \<and> n \<le> lm \<and> lookup n \<noteq> None}"
      using n(3) by blast
    then have "\<forall>d\<in>set new. current < cfr_seq_num d" by auto
    then show ?thesis unfolding step split using Some n seq by (intro exI [of _ "?c # new"]) auto
  qed
qed

lemma get_seq_num_min_le:
  assumes "wh_inv g h" "c \<in> set (m_changes h)"
  shows "get_seq_num_min h \<le> cc_sequenceNumber c"
proof -
  have "sorted_wrt (<) (map cc_sequenceNumber (m_changes h))" using assms(1) by (simp add: wh_inv_def)
  then show ?thesis
    using assms(2) by (cases "m_changes h") (auto simp: get_seq_num_min_def get_min_change_def)
qed

lemma get_seq_num_min_empty:
  assumes "rp_in_history h rp" "get_seq_num_min h = SN_UNKNOWN"
  shows "m_changes h = []"
  using assms by (cases "m_changes h")
    (auto simp: rp_in_history_def get_seq_num_min_def get_min_change_def SN_UNKNOWN_def)

lemma cfr_sorted_sort_key:
  assumes "distinct (map cfr_seq_num cs)"
  shows "cfr_sorted (sort_key cfr_seq_num cs)"
proof -
  have "distinct (map cfr_seq_num (sort_key cfr_seq_num cs)) = distinct (map cfr_seq_num cs)"
    by (rule mset_eq_imp_distinct_iff) simp
  then show ?thesis using assms by (simp add: strict_sorted_iff)
qed

lemma cfr_sorted_distinct: "cfr_sorted cs \<Longrightarrow> distinct (map cfr_seq_num cs)"
  by (simp add: strict_sorted_iff)

lemma acked_changes_set_resend:
  assumes "rp_inv rp" "rp_in_history h rp" "wh_inv g h" "guid_wf g" "h_attached h"
    "0 \<le> changes_low_mark rp" "durability_kind rp \<noteq> VOLATILE" "get_seq_num_min h \<noteq> SN_UNKNOWN"
  shows "\<exists>new. cfr_seq_num ` set new = {n. n \<le> changes_low_mark rp \<and> n \<in> cc_sequenceNumber ` set (m_changes h)} \<and>
    (\<forall>c\<in>set new. cfr_status c = UNACKNOWLEDGED) \<and> distinct (map cfr_seq_num (changes_for_reader rp @ new)) \<and>
    acked_changes_set h g 0 rp = rp\<lparr>changes_for_reader := sort_key cfr_seq_num (changes_for_reader rp @ new),
      changes_low_mark := get_seq_num_min h - 1\<rparr>"
proof -
  let ?m = "get_seq_num_min h" and ?cs = "changes_for_reader rp" and ?low = "changes_low_mark rp"
  have pos: "\<forall>d\<in>set (m_changes h). 0 < cc_sequenceNumber d" using assms(2) by (simp add: rp_in_history_def)
  have ne: "m_changes h \<noteq> []" using assms(8)
    by (auto simp: get_seq_num_min_def get_min_change_def SN_UNKNOWN_def)
  then have m: "0 < ?m" using pos by (auto simp: get_seq_num_min_def get_min_change_def)
  have look: "(get_change s g h = Some ch) = (ch \<in> set (m_changes h) \<and> cc_sequenceNumber ch = s)" for s ch
    using get_change_iff [OF wh_inv_sorted [OF assms(3,4)] assms(4,5)] assms(3) by (auto simp: wh_inv_def)
  have found: "(get_change s g h \<noteq> None) = (s \<in> cc_sequenceNumber ` set (m_changes h))" for s
    using look by (auto simp: image_iff)
  have above: "\<forall>c\<in>set ?cs. cfr_seq_num c < ?m \<or> ?low < cfr_seq_num c" using assms(1) by (simp add: rp_inv_def)
  obtain new where new: "resend_loop (\<lambda>s. get_change s g h) ?low ?m (False, ?cs) = (new \<noteq> [], ?cs @ new)"
    "cfr_sorted new" "cfr_seq_num ` set new = {n. ?m \<le> n \<and> n \<le> ?low \<and> get_change n g h \<noteq> None}"
    "\<forall>c\<in>set new. cfr_status c = UNACKNOWLEDGED"
    using resend_loop_spec [OF _ above, of "\<lambda>s. get_change s g h" False] look by auto
  have nums: "cfr_seq_num ` set new = {n. n \<le> ?low \<and> n \<in> cc_sequenceNumber ` set (m_changes h)}"
    using new(3) get_seq_num_min_le [OF assms(3)] unfolding found by auto
  then have "\<forall>c\<in>set new. cfr_seq_num c \<le> ?low" by blast
  then have d: "distinct (map cfr_seq_num (?cs @ new))"
    using new(2) assms(1) by (fastforce simp: rp_inv_def strict_sorted_iff)
  have "sort_key cfr_seq_num ?cs = ?cs"
    using assms(1) by (intro sort_key_id_if_sorted) (simp add: rp_inv_def strict_sorted_iff)
  then have "acked_changes_set h g 0 rp = rp\<lparr>changes_for_reader := sort_key cfr_seq_num (?cs @ new),
      changes_low_mark := ?m - 1\<rparr>"
    using assms(6-8) m new(1) by (auto simp: acked_changes_set_def)
  then show ?thesis using nums d new(4) by blast
qed

lemma rp_inv_acked:
  assumes "rp_inv rp" "rp_in_history h rp" "wh_inv g h" "guid_wf g" "h_attached h"
  shows "rp_inv (acked_changes_set h g s rp)"
proof (cases "changes_low_mark rp < s \<or> s \<noteq> 0 \<or> durability_kind rp = VOLATILE")
  case True
  then show ?thesis
    using acked_changes_set_ahead_acked(1) [OF assms(1)] assms(1) by (auto simp: acked_changes_set_def rp_inv_def)
next
  case c: False
  show ?thesis
  proof (cases "get_seq_num_min h = SN_UNKNOWN")
    case True
    then have "changes_for_reader rp = []"
      using get_seq_num_min_empty [OF assms(2) True] assms(2) by (simp add: rp_in_history_def)
    then show ?thesis using c True by (simp add: acked_changes_set_def rp_inv_def)
  next
    case False
    then obtain new where new: "cfr_seq_num ` set new =
          {n. n \<le> changes_low_mark rp \<and> n \<in> cc_sequenceNumber ` set (m_changes h)}"
        "distinct (map cfr_seq_num (changes_for_reader rp @ new))"
        "acked_changes_set h g 0 rp = rp\<lparr>changes_for_reader := sort_key cfr_seq_num (changes_for_reader rp @ new),
          changes_low_mark := get_seq_num_min h - 1\<rparr>"
      using acked_changes_set_resend [OF assms _ _ False] c by auto
    have "\<forall>c\<in>set (changes_for_reader rp @ new). cfr_seq_num c \<in> cc_sequenceNumber ` set (m_changes h)"
      using new(1) assms(2) by (auto simp: rp_in_history_def)
    then have "\<forall>c\<in>set (changes_for_reader rp @ new). get_seq_num_min h - 1 < cfr_seq_num c"
      using get_seq_num_min_le [OF assms(3)] by fastforce
    then show ?thesis using c new(3) cfr_sorted_sort_key [OF new(2)] by (simp add: rp_inv_def)
  qed
qed

subsection \<open>Requests and conversions\<close>

lemma markAllFragmentsAsUnsent_simps [simp]:
  "cfr_seq_num (markAllFragmentsAsUnsent c) = cfr_seq_num c"
  "cfr_status (markAllFragmentsAsUnsent c) = cfr_status c"
  "cfr_change (markAllFragmentsAsUnsent c) = cfr_change c"
  "cfr_delivered (markAllFragmentsAsUnsent c) = cfr_delivered c"
  by (simp_all add: markAllFragmentsAsUnsent_def)

lemma markFragmentsAsUnsent_simps [simp]:
  "cfr_seq_num (markFragmentsAsUnsent fs c) = cfr_seq_num c"
  "cfr_status (markFragmentsAsUnsent fs c) = cfr_status c"
  by (simp_all add: markFragmentsAsUnsent_def Let_def)

lemma mark_requested_simps [simp]:
  "cfr_seq_num (mark_requested c) = cfr_seq_num c"
  "cfr_change (mark_requested c) = cfr_change c"
  "cfr_delivered (mark_requested c) = cfr_delivered c"
  "cfr_status (mark_requested c) = (if cfr_status c = UNACKNOWLEDGED then REQUESTED else cfr_status c)"
  "mark_requested (mark_requested c) = mark_requested c"
  by (simp_all add: mark_requested_def)

lemma rp_inv_cong:
  assumes "map cfr_seq_num (changes_for_reader rp') = map cfr_seq_num (changes_for_reader rp)"
    "changes_low_mark rp' = changes_low_mark rp"
  shows "rp_inv rp' = rp_inv rp"
proof -
  have "cfr_seq_num ` set (changes_for_reader rp') = cfr_seq_num ` set (changes_for_reader rp)"
    using assms(1) by (metis set_map)
  then show ?thesis using assms unfolding rp_inv_def by (metis (no_types, lifting) image_iff)
qed

lemma find_change_update:
  assumes "cfr_sorted cs" "find_change s cs \<noteq> length cs"
  shows "cs[find_change s cs := f (cs ! find_change s cs)] = map (\<lambda>c. if cfr_seq_num c = s then f c else c) cs"
    "cfr_seq_num (cs ! find_change s cs) = s" "find_change s cs < length cs"
proof -
  obtain c where c: "c \<in> set cs" "cfr_seq_num c = s" using assms find_change_iff by blast
  note f = find_change_present [OF assms(1) c]
  show "cfr_seq_num (cs ! find_change s cs) = s" "find_change s cs < length cs" using f c(2) by simp_all
  have d: "distinct (map cfr_seq_num cs)" by (rule cfr_sorted_distinct [OF assms(1)])
  show "cs[find_change s cs := f (cs ! find_change s cs)] = map (\<lambda>c. if cfr_seq_num c = s then f c else c) cs"
  proof (rule nth_equalityI)
    fix i assume "i < length (cs[find_change s cs := f (cs ! find_change s cs)])"
    then have i: "i < length cs" by simp
    have "cfr_seq_num (cs ! i) = s \<longleftrightarrow> i = find_change s cs"
      using nth_eq_iff_index_eq [OF d, of i "find_change s cs"] i f c(2) by auto
    then show "cs[find_change s cs := f (cs ! find_change s cs)] ! i =
        map (\<lambda>c. if cfr_seq_num c = s then f c else c) cs ! i"
      using i by (simp add: nth_list_update)
  qed simp
qed

lemma request_only_simps [simp]:
  "map cfr_seq_num (request_only S cs) = map cfr_seq_num cs"
  "length (request_only S cs) = length cs"
  "request_only {} cs = cs"
  "request_only S (request_only T cs) = request_only (S \<union> T) cs"
  by (auto simp: request_only_def)

lemma find_change_cong:
  assumes "cfr_sorted cs" "map cfr_seq_num ds = map cfr_seq_num cs"
  shows "find_change s ds = length ds \<longleftrightarrow> find_change s cs = length cs"
proof -
  have "cfr_seq_num ` set ds = cfr_seq_num ` set cs" using assms(2) by (metis set_map)
  then show ?thesis
    unfolding find_change_iff [OF assms(1)] find_change_iff [of ds, unfolded assms(2), OF assms(1)]
    by (metis image_iff)
qed

lemma request_change_spec:
  assumes "cfr_sorted (changes_for_reader rp)"
  shows "request_change send mn s (b, g, rp) =
    (b \<or> (\<exists>c\<in>set (changes_for_reader rp). cfr_seq_num c = s \<and> cfr_status c = UNACKNOWLEDGED),
     if s \<notin> cfr_seq_num ` set (changes_for_reader rp) \<and> mn \<le> s \<and> changes_low_mark rp < s
       then snd (gap_add send s g) else g,
     rp\<lparr>changes_for_reader := request_only {s} (changes_for_reader rp)\<rparr>)"
proof (cases "find_change s (changes_for_reader rp) = length (changes_for_reader rp)")
  case True
  then have a: "\<forall>c\<in>set (changes_for_reader rp). cfr_seq_num c \<noteq> s" using find_change_iff [OF assms] by blast
  then have "request_only {s} (changes_for_reader rp) = changes_for_reader rp"
    by (auto simp: request_only_def intro: map_idI)
  then show ?thesis using True a by (auto simp: request_change_def Let_def)
next
  case False
  note f = find_change_update [OF assms False]
  have u: "\<exists>c\<in>set (changes_for_reader rp). cfr_seq_num c = s" using f(2,3) nth_mem by blast
  have "(\<exists>c\<in>set (changes_for_reader rp). cfr_seq_num c = s \<and> cfr_status c = UNACKNOWLEDGED) \<longleftrightarrow>
      cfr_status (changes_for_reader rp ! find_change s (changes_for_reader rp)) = UNACKNOWLEDGED"
    using f(2,3) nth_mem find_change_present(2) [OF assms] by metis
  moreover have "request_only {s} (changes_for_reader rp) = (changes_for_reader rp)
      [find_change s (changes_for_reader rp) :=
         mark_requested (changes_for_reader rp ! find_change s (changes_for_reader rp))]"
    unfolding f(1) by (auto simp: request_only_def)
  ultimately show ?thesis using False u
    by (auto simp: request_change_def Let_def mark_requested_def image_iff)
qed

lemma requests_spec:
  assumes "cfr_sorted (changes_for_reader rp)" "distinct ns"
  shows "fold (request_change send mn) ns (b, g, rp) =
    (b \<or> (\<exists>c\<in>set (changes_for_reader rp). cfr_seq_num c \<in> set ns \<and> cfr_status c = UNACKNOWLEDGED),
     fold (\<lambda>n g. snd (gap_add send n g))
       (filter (\<lambda>n. n \<notin> cfr_seq_num ` set (changes_for_reader rp) \<and> mn \<le> n \<and> changes_low_mark rp < n) ns) g,
     rp\<lparr>changes_for_reader := request_only (set ns) (changes_for_reader rp)\<rparr>)"
  using assms
proof (induction ns arbitrary: b g rp)
  case (Cons n ns)
  let ?cs = "changes_for_reader rp" and ?rp = "rp\<lparr>changes_for_reader := request_only {n} (changes_for_reader rp)\<rparr>"
  have im: "cfr_seq_num ` set (request_only {n} ?cs) = cfr_seq_num ` set ?cs"
    by (metis request_only_simps(1) set_map)
  have ex: "(\<exists>c\<in>set (request_only {n} ?cs). cfr_seq_num c \<in> set ns \<and> cfr_status c = UNACKNOWLEDGED) \<longleftrightarrow>
      (\<exists>c\<in>set ?cs. cfr_seq_num c \<in> set ns \<and> cfr_status c = UNACKNOWLEDGED)"
    using Cons.prems(2) by (auto simp: request_only_def)
  have "cfr_sorted (changes_for_reader ?rp)" "distinct ns" using Cons.prems by simp_all
  note IH = Cons.IH [OF this]
  have "insert n (set ns) = set ns \<union> {n}" by auto
  then show ?case
    unfolding fold_Cons o_apply request_change_spec [OF Cons.prems(1)] IH by (auto simp: im ex)
qed simp

subsection \<open>The numbers of a gap builder\<close>

lemma br_set_base_ok:
  "br_wf (br_set_base ops b br)" "br_full ops (br_set_base ops b br)" "br_tight (br_set_base ops b br)"
  "br_items ops (br_set_base ops b br) = {}" "br_base (br_set_base ops b br) = b"
  by (auto simp: br_set_base_def br_wf_def br_full_def br_tight_def br_items_def br_offsets_def bit_at_def nth_append
      simp del: replicate_0 replicate_Suc)

lemma gap_restart_numbers:
  "gap_numbers (initial_sequence (gap_restart n g), gap_bitmap (gap_restart n g)) = {n}"
  "is_gap_pending (gap_restart n g)" "gb_sent (gap_restart n g) = gb_sent g" "gb_inv (gap_restart n g)"
  by (auto simp: gap_restart_def gap_numbers_def gb_inv_def br_set_base_ok)

lemma gap_flush_numbers:
  assumes "gb_inv g"
  shows "gb_inv (snd (gap_flush send g))" "gb_numbers (snd (gap_flush send g)) = gb_numbers g"
    "\<forall>m. send m \<Longrightarrow> gap_flush send g = (True, snd (gap_flush send g)) \<and> \<not> is_gap_pending (snd (gap_flush send g))"
  using assms by (auto simp: gap_flush_def gb_inv_def gb_numbers_def Let_def)

lemma gap_add_numbers:
  assumes "gb_inv g" "\<forall>m. send m" "\<forall>k\<in>gb_numbers g. k < n"
  shows "gb_inv (snd (gap_add send n g))" "gb_numbers (snd (gap_add send n g)) = insert n (gb_numbers g)"
    "fst (gap_add send n g)"
proof -
  let ?g = "snd (gap_add send n g)" and ?bm = "gap_bitmap g" and ?i = "initial_sequence g"
  have "gb_inv ?g \<and> gb_numbers ?g = insert n (gb_numbers g) \<and> fst (gap_add send n g)"
  proof (cases "is_gap_pending g")
    case False
    then show ?thesis using gap_restart_numbers [of n g]
      by (auto simp: gap_add_def gb_numbers_def)
  next
    case p: True
    then have bm: "br_wf ?bm" "br_full int_items ?bm" "?i < br_base ?bm" using assms(1) by (auto simp: gb_inv_def)
    have lt: "\<forall>k\<in>gap_numbers (?i, ?bm). k < n" using assms(3) p by (simp add: gb_numbers_def)
    show ?thesis
    proof (cases "n = br_base ?bm")
      case n: True
      have "br_base ?bm \<le> x" if "x \<in> br_items int_items ?bm" for x
        using that by (auto simp: br_items_def int_items_def)
      moreover have "x < n" if "x \<in> br_items int_items ?bm" for x using lt that by (simp add: gap_numbers_def)
      ultimately have "br_items int_items ?bm = {}" using n by (metis ex_in_conv linorder_not_le)
      then have "gap_numbers (?i, br_set_base int_items (n + 1) ?bm) = insert n (gap_numbers (?i, ?bm))"
        using n bm(3) by (auto simp: gap_numbers_def br_set_base_ok)
      then show ?thesis using p n bm(3) by (auto simp: gap_add_def gb_numbers_def gb_inv_def br_set_base_ok)
    next
      case n: False
      have "br_base ?bm - 1 \<in> gap_numbers (?i, ?bm)" using bm(3) by (simp add: gap_numbers_def)
      then have "br_base ?bm < n" using lt n by fastforce
      note a = sn.br_add_items [OF TrueI bm(1,2), of n]
      show ?thesis
      proof (cases "fst (br_add int_items n ?bm)")
        case True
        then have "gap_numbers (?i, snd (br_add int_items n ?bm)) = insert n (gap_numbers (?i, ?bm))"
          using a(3,5) by (auto simp: gap_numbers_def)
        moreover have "gap_add send n g = (True, g\<lparr>gap_bitmap := snd (br_add int_items n ?bm)\<rparr>)"
          using p n True by (simp add: gap_add_def split_def)
        ultimately show ?thesis using p a(2,5,6) bm(3) by (auto simp: gb_numbers_def gb_inv_def)
      next
        case False
        note fl = gap_flush_numbers [OF assms(1), of send]
        obtain g' where g': "gap_flush send g = (True, g')" "\<not> is_gap_pending g'" using fl(3) [OF assms(2)] by metis
        have "gap_add send n g = (True, gap_restart n g')"
          using p n False g'(1) by (simp add: gap_add_def split_def Let_def)
        moreover have "gb_numbers (gap_restart n g') = insert n (gb_numbers g')"
          using g'(2) gap_restart_numbers [of n g'] by (simp add: gb_numbers_def)
        ultimately show ?thesis using fl(2) g'(1) gap_restart_numbers(4) by simp
      qed
    qed
  qed
  then show "gb_inv ?g" "gb_numbers ?g = insert n (gb_numbers g)" "fst (gap_add send n g)" by simp_all
qed

lemma gap_adds_numbers:
  assumes "gb_inv g" "\<forall>m. send m" "sorted_wrt (<) ns" "\<forall>n\<in>set ns. \<forall>k\<in>gb_numbers g. k < n"
  shows "gb_inv (fold (\<lambda>n g. snd (gap_add send n g)) ns g) \<and>
    gb_numbers (fold (\<lambda>n g. snd (gap_add send n g)) ns g) = gb_numbers g \<union> set ns"
  using assms
proof (induction ns arbitrary: g)
  case (Cons n ns)
  have "\<forall>k\<in>gb_numbers g. k < n" using Cons.prems(4) by simp
  note a = gap_add_numbers [OF Cons.prems(1,2) this]
  have "gb_inv (fold (\<lambda>n g. snd (gap_add send n g)) ns (snd (gap_add send n g))) \<and>
    gb_numbers (fold (\<lambda>n g. snd (gap_add send n g)) ns (snd (gap_add send n g))) =
      gb_numbers (snd (gap_add send n g)) \<union> set ns"
    using Cons.prems a by (intro Cons.IH) auto
  then show ?case using a(2) by simp
qed simp

lemma gb_numbers_flushed:
  assumes "gb_inv g" "\<forall>m. send m"
  shows "\<Union> (gap_numbers ` set (gb_sent (snd (gap_flush send g)))) = gb_numbers g"
  using gap_flush_numbers [OF assms(1), of send] assms(2) by (simp add: gb_numbers_def)

lemma gap_builder_init_numbers [simp]: "gb_inv gap_builder_init" "gb_numbers gap_builder_init = {}"
  by (simp_all add: gap_builder_init_def gb_inv_def gb_numbers_def)

subsection \<open>Sending the fragments of a sample\<close>

lemma u32_interval_empty:
  fixes b k n :: nat
  assumes "n < 4294967040" "b \<le> k" "b = k \<or> n \<le> b + 255"
  shows "{x::u32. k \<le> unat x \<and> unat x \<le> n \<and> unat x \<le> b + 255} = {} \<longleftrightarrow> n < k"
proof
  assume e: "{x::u32. k \<le> unat x \<and> unat x \<le> n \<and> unat x \<le> b + 255} = {}"
  show "n < k"
  proof (rule ccontr)
    assume "\<not> n < k"
    then have "unat (of_nat k :: u32) = k" using assms(1) by (simp add: unat_of_nat take_bit_nat_eq_self)
    then have "of_nat k \<in> {x::u32. k \<le> unat x \<and> unat x \<le> n \<and> unat x \<le> b + 255}"
      using \<open>\<not> n < k\<close> assms(2,3) by auto
    then show False using e by blast
  qed
qed auto

lemma markAll_unsent:
  assumes "cc_fragment_size (cfr_change c) \<noteq> 0" "cc_fragment_count (cfr_change c) < 4294967040" "\<not> cfr_delivered c"
  shows "unsent_from 1 (markAllFragmentsAsUnsent c)"
proof -
  let ?b = "br_set_base u32_items 1 (cfr_unsent_fragments c)" and ?n = "cc_fragment_count (cfr_change c)"
  have fits: "unat (br_base ?b) < 4294967040" by (simp add: br_set_base_ok)
  note r = fn.br_add_range_items [OF fits br_set_base_ok(1), of 1 "of_nat ?n + 1"]
  have n: "unat (of_nat ?n + 1 :: u32) = ?n + 1" using assms(2)
    by (simp add: unat_word_ariths unat_of_nat take_bit_nat_eq_self)
  have w: "unat (item_add u32_items 1 256 :: u32) = 257" by (simp add: u32_items_def)
  have "{x. 1 \<le> x \<and> x < of_nat ?n + 1 \<and> 1 \<le> x \<and> x < item_add u32_items 1 256} =
      {x. 1 \<le> unat x \<and> unat x \<le> ?n \<and> unat x \<le> 1 + 255}"
    using n w by (auto simp: word_le_nat_alt word_less_nat_alt)
  then show ?thesis
    using r assms br_set_base_ok [of u32_items 1 "cfr_unsent_fragments c"]
    by (simp add: unsent_from_def markAllFragmentsAsUnsent_def Let_def)
qed

lemma next_unsent:
  assumes "unsent_from k c"
  shows "br_empty (cfr_unsent_fragments c) \<longleftrightarrow> cc_fragment_count (cfr_change c) < k"
    "get_next_unsent_fragment c = of_nat k"
proof -
  let ?uf = "cfr_unsent_fragments c" and ?n = "cc_fragment_count (cfr_change c)"
  have u: "br_wf ?uf" "br_tight ?uf" "unat (br_base ?uf) \<le> k" "unat (br_base ?uf) = k \<or> ?n \<le> unat (br_base ?uf) + 255"
    "?n < 4294967040" "k \<le> ?n + 1" "br_items u32_items ?uf = {x. k \<le> unat x \<and> unat x \<le> ?n \<and> unat x \<le> unat (br_base ?uf) + 255}"
    using assms by (simp_all add: unsent_from_def Let_def)
  show e: "br_empty ?uf \<longleftrightarrow> ?n < k"
    unfolding fn.empty_items [OF u(1,2)] u(7) by (rule u32_interval_empty [OF u(5,3,4)])
  show "get_next_unsent_fragment c = of_nat k"
  proof (cases "?n < k")
    case True
    then have "k = ?n + 1" using u(6) by simp
    then show ?thesis using e True by (simp add: get_next_unsent_fragment_def)
  next
    case False
    have fits: "unat (br_base ?uf) < 4294967040" using False u(3,5) by simp
    have k: "unat (of_nat k :: u32) = k" using False u(5) by (simp add: unat_of_nat take_bit_nat_eq_self)
    have kin: "of_nat k \<in> br_items u32_items ?uf" unfolding u(7) using k False u(3,4) by auto
    have "finite (br_items u32_items ?uf)" by (simp add: br_items_def br_offsets_def)
    then have "Min (br_items u32_items ?uf) = of_nat k"
      by (rule Min_eqI) (use kin k in \<open>auto simp: u(7) word_le_nat_alt\<close>)
    then show ?thesis using e False kin fn.br_min_items [OF fits u(1)]
      by (auto simp: get_next_unsent_fragment_def)
  qed
qed

lemma u32_item_256: "unat (b::u32) < 4294967040 \<Longrightarrow> unat (item_add u32_items b 256) = unat b + 256"
  "unat (b::u32) < 4294967040 \<Longrightarrow> unat (item_add u32_items b 255) = unat b + 255"
  using unat_window [of b 256] unat_window [of b 255] by (simp_all add: u32_items_def)

lemma unat_add_1: "unat (x::u32) < 4294967040 \<Longrightarrow> unat (x + 1) = unat x + 1"
  using unat_window [of x 1] by simp

lemma unat_of_nat_u32: "k < 4294967296 \<Longrightarrow> unat (of_nat k :: u32) = k"
  by (simp add: unat_of_nat take_bit_nat_eq_self)

lemma slide_window:
  assumes "br_wf uf" "br_tight uf" "unat (br_base uf) = k" "k + 255 < n" "n < 4294967040"
    "br_items u32_items uf = {x. k + 1 \<le> unat x \<and> unat x \<le> k + 255}"
  defines "uf' \<equiv> br_add_range u32_items (br_max u32_items uf + 1) (of_nat n + 1)
                   (bitmap_base_update u32_items (br_min u32_items uf) uf)"
  shows "br_wf uf' \<and> br_tight uf' \<and> unat (br_base uf') = k + 1 \<and>
    br_items u32_items uf' = {x. k + 1 \<le> unat x \<and> unat x \<le> n \<and> unat x \<le> k + 1 + 255}"
proof -
  let ?bu = "bitmap_base_update u32_items (br_min u32_items uf) uf"
  have fits: "unat (br_base uf) < 4294967040" using assms(3-5) by simp
  have k1: "unat (of_nat (k + 1) :: u32) = k + 1" and k255: "unat (of_nat (k + 255) :: u32) = k + 255"
    and nn: "unat (of_nat n :: u32) = n"
    using assms(4,5) by (simp_all only: unat_of_nat_u32)
  have in1: "of_nat (k + 1) \<in> br_items u32_items uf" "of_nat (k + 255) \<in> br_items u32_items uf"
    unfolding assms(6) using k1 k255 by (auto simp del: of_nat_add)
  then have ne: "br_items u32_items uf \<noteq> {}" "\<not> br_empty uf" using fn.empty_items [OF assms(1,2)] by auto
  have fin: "finite (br_items u32_items uf)" by (simp add: br_items_def br_offsets_def)
  have mn: "br_min u32_items uf = of_nat (k + 1)"
    using ne(1) fn.br_min_items [OF fits assms(1)] Min_eqI [OF fin _ in1(1)] k1
    by (auto simp: assms(6) word_le_nat_alt simp del: of_nat_add)
  have mx: "br_max u32_items uf = of_nat (k + 255)"
    using fn.br_max_items(1) [OF fits assms(1,2) ne(2)] Max_eqI [OF fin _ in1(2)] k255
    by (auto simp: assms(6) word_le_nat_alt simp del: of_nat_add)
  have m1: "unat (br_min u32_items uf) = k + 1" and x1: "unat (br_max u32_items uf) = k + 255"
    using k1 k255 by (simp_all only: mn mx)
  have fits1: "unat (br_min u32_items uf) < 4294967040" using assms(4,5) m1 by simp
  note bu = fn.bitmap_base_update_items [OF fits fits1 assms(1) TrueI TrueI]
  have base: "unat (br_base ?bu) = k + 1" using bu(4) m1 by simp
  have fits2: "unat (br_base ?bu) < 4294967040" using bu(4) fits1 by simp
  note ar = fn.br_add_range_items [OF fits2 bu(1), of "br_max u32_items uf + 1" "of_nat n + 1"]
  have it: "br_items u32_items ?bu = {x. k + 1 \<le> unat x \<and> unat x \<le> k + 255}"
    using u32_item_256(2) [OF fits1] unfolding bu(2) assms(6) by (auto simp: word_le_nat_alt m1)
  have ends: "unat (br_max u32_items uf + 1) = k + 256" "unat (of_nat n + 1 :: u32) = n + 1"
    using unat_add_1 [of "br_max u32_items uf"] unat_add_1 [of "of_nat n"] assms(4,5) x1 nn by simp_all
  have "br_items u32_items uf' = {x. k + 1 \<le> unat x \<and> unat x \<le> n \<and> unat x \<le> k + 1 + 255}"
    unfolding uf'_def ar(2) it using ends base u32_item_256(1) [OF fits2] assms(4)
    by (auto simp: word_le_nat_alt word_less_nat_alt)
  moreover have "br_tight uf'" unfolding uf'_def using ar(3) bu(3) assms(2) ne(2) by blast
  ultimately show ?thesis using ar(1,4) base unfolding uf'_def by simp
qed

lemma markFragmentsAsSent_step:
  assumes "unsent_from k c" "k \<le> cc_fragment_count (cfr_change c)"
  shows "\<exists>c'. markFragmentsAsSent (of_nat k) c = Some c' \<and> unsent_from (k + 1) c' \<and> cfr_change c' = cfr_change c"
proof -
  let ?uf = "cfr_unsent_fragments c" and ?n = "cc_fragment_count (cfr_change c)"
  have u: "br_wf ?uf" "br_tight ?uf" "unat (br_base ?uf) \<le> k" "unat (br_base ?uf) = k \<or> ?n \<le> unat (br_base ?uf) + 255"
    "?n < 4294967040" "\<not> cfr_delivered c" "1 \<le> unat (br_base ?uf)"
    "br_items u32_items ?uf = {x. k \<le> unat x \<and> unat x \<le> ?n \<and> unat x \<le> unat (br_base ?uf) + 255}"
    using assms(1) by (simp_all add: unsent_from_def Let_def)
  have fits: "unat (br_base ?uf) < 4294967040" using u(3,5) assms(2) by simp
  have ne: "\<not> br_empty ?uf" using next_unsent(1) [OF assms(1)] assms(2) by simp
  obtain uf where uf: "br_remove u32_items (of_nat k) ?uf = Some uf" "br_wf uf" "br_tight uf"
    "br_base uf = br_base ?uf" "br_items u32_items uf = br_items u32_items ?uf - {of_nat k}"
    using fn.br_remove_items [OF fits u(1,2) ne] by blast
  have k: "unat (of_nat k :: u32) = k" using assms(2) u(5) by (simp add: unat_of_nat take_bit_nat_eq_self)
  have it: "br_items u32_items uf = {x. k + 1 \<le> unat x \<and> unat x \<le> ?n \<and> unat x \<le> unat (br_base uf) + 255}"
    proof -
    have e: "x \<noteq> of_nat k \<longleftrightarrow> unat x \<noteq> k" for x :: u32 using k by (metis unsigned_word_eqI)
    have "k \<le> unat x \<and> x \<noteq> of_nat k \<longleftrightarrow> k + 1 \<le> unat x" for x :: u32 unfolding e by linarith
    then show ?thesis unfolding uf(4,5) u(8) by blast
  qed
  have nn: "unat (of_nat ?n :: u32) = ?n" using u(5) by (simp add: unat_of_nat take_bit_nat_eq_self)
  show ?thesis
  proof (cases "\<not> br_empty uf \<and> br_max u32_items uf < of_nat ?n")
    case True
    have fits': "unat (br_base uf) < 4294967040" using fits uf(4) by simp
    note mx = fn.br_max_items [OF fits' uf(2,3) True [THEN conjunct1]]
    have "x \<le> br_max u32_items uf" if "x \<in> br_items u32_items uf" for x
      unfolding mx(1) using that by (intro Max_ge) (simp_all add: br_items_def br_offsets_def)
    then have "of_nat ?n \<notin> br_items u32_items uf" using True by (metis linorder_not_le)
    moreover have "k + 1 \<le> ?n" using mx(2) unfolding it by auto
    ultimately have far: "unat (br_base uf) + 255 < ?n" using nn unfolding it by auto
    then have bk: "unat (br_base uf) = k" using u(4) uf(4) by auto
    have "br_items u32_items uf = {x. k + 1 \<le> unat x \<and> unat x \<le> k + 255}" unfolding it using far bk by auto
    note sl = slide_window [OF uf(2,3) bk _ u(5) this]
    show ?thesis using True uf(1) far bk u(5,6) sl by (auto simp: markFragmentsAsSent_def unsent_from_def Let_def)
  next
    case False
    have "?n \<le> unat (br_base uf) + 255"
    proof (cases "br_empty uf")
      case True
      then have "br_items u32_items uf = {}" using fn.empty_items [OF uf(2,3)] by simp
      moreover have "of_nat (k + 1) \<in> br_items u32_items uf" if "k + 1 \<le> ?n" "unat (br_base ?uf) = k"
        unfolding it uf(4) using that u(5) by (simp only: unat_of_nat_u32 mem_Collect_eq) simp
      ultimately show ?thesis using u(4) uf(4) by fastforce
    next
      case ne: False
      then have "br_max u32_items uf \<in> br_items u32_items uf" "of_nat ?n \<le> br_max u32_items uf"
        using fn.br_max_items(2) [OF _ uf(2,3)] fits uf(4) False by (auto simp: not_less)
      then show ?thesis unfolding it using nn by (auto simp: word_le_nat_alt)
    qed
    then show ?thesis using False uf u assms(2) it by (auto simp: markFragmentsAsSent_def unsent_from_def Let_def)
  qed
qed

lemma send_fragments_all:
  assumes "unsent_from k c" "cc_fragment_count (cfr_change c) + 1 - k \<le> fuel"
  shows "\<exists>c'. send_fragments fuel c = Some (map of_nat [k..<cc_fragment_count (cfr_change c) + 1], c') \<and>
    br_empty (cfr_unsent_fragments c')"
  using assms
proof (induction fuel arbitrary: k c)
  case 0
  have "k \<le> cc_fragment_count (cfr_change c) + 1" using 0(1) by (simp add: unsent_from_def Let_def)
  then show ?case using 0 next_unsent(1) [OF 0(1)] by simp
next
  case (Suc fuel)
  let ?n = "cc_fragment_count (cfr_change c)"
  have kn: "k \<le> ?n + 1" "?n < 4294967040" using Suc.prems(1) by (simp_all add: unsent_from_def Let_def)
  note nx = next_unsent [OF Suc.prems(1)]
  show ?case
  proof (cases "k = ?n + 1")
    case True
    then show ?thesis using nx by simp
  next
    case False
    then have k: "k \<le> ?n" using kn by simp
    have ne: "of_nat k \<noteq> (of_nat ?n + 1 :: u32)"
    proof
      assume "of_nat k = (of_nat ?n + 1 :: u32)"
      then have "unat (of_nat k :: u32) = unat (of_nat ?n + 1 :: u32)" by simp
      then show False using k kn unat_add_1 [of "of_nat ?n"] by (simp add: unat_of_nat_u32)
    qed
    obtain c' where c': "markFragmentsAsSent (of_nat k) c = Some c'" "unsent_from (k + 1) c'" "cfr_change c' = cfr_change c"
      using markFragmentsAsSent_step [OF Suc.prems(1) k] by blast
    have "cc_fragment_count (cfr_change c') + 1 - (k + 1) \<le> fuel" using Suc.prems(2) c'(3) by simp
    from Suc.IH [OF c'(2) this] obtain c'' where
      "send_fragments fuel c' = Some (map of_nat [k + 1..<?n + 1], c'')" "br_empty (cfr_unsent_fragments c'')"
      using c'(3) by auto
    moreover have "[k..<?n + 1] = k # [k + 1..<?n + 1]" using k by (simp add: upt_rec)
    ultimately show ?thesis using nx(2) ne c'(1) by (auto simp: Let_def)
  qed
qed

subsection \<open>The invariant\<close>

lemma rp_okD: "rp_ok h rp \<Longrightarrow> rp_inv rp" "rp_ok h rp \<Longrightarrow> rp_in_history h rp"
  "rp_ok h rp \<Longrightarrow> cfr_sorted (changes_for_reader rp)"
  by (simp_all add: rp_ok_def rp_inv_def)

lemma rp_ok_same:
  assumes "rp_ok h rp" "changes_for_reader rp' = changes_for_reader rp" "changes_low_mark rp' = changes_low_mark rp"
  shows "rp_ok h rp'"
  using assms by (simp add: rp_ok_def rp_inv_def rp_in_history_def)

lemma rp_ok_cong:
  assumes "rp_ok h rp" "map cfr_seq_num (changes_for_reader rp') = map cfr_seq_num (changes_for_reader rp)"
    "changes_low_mark rp' = changes_low_mark rp"
  shows "rp_ok h rp'"
proof -
  have "cfr_seq_num ` set (changes_for_reader rp') = cfr_seq_num ` set (changes_for_reader rp)"
    using assms(2) by (metis set_map)
  then show ?thesis using assms rp_inv_cong [OF assms(2,3)] by (simp add: rp_ok_def rp_in_history_def)
qed

lemma acked_changes_set_old:
  assumes "\<not> changes_low_mark rp < s" "s \<noteq> 0 \<or> durability_kind rp = VOLATILE"
  shows "acked_changes_set h g s rp = rp"
proof -
  have "\<not> (s = 0 \<and> durability_kind rp \<noteq> VOLATILE)" using assms(2) by blast
  then show ?thesis unfolding acked_changes_set_def using assms(1) by (simp only: if_False) simp
qed

lemma rp_ok_acked:
  assumes "rp_ok h rp" "wh_inv g h" "guid_wf g" "h_attached h"
  shows "rp_ok h (acked_changes_set h g s rp)"
proof -
  note ok = rp_okD(1,2) [OF assms(1)]
  have "rp_in_history h (acked_changes_set h g s rp)"
  proof (cases "changes_low_mark rp < s \<or> s \<noteq> 0 \<or> durability_kind rp = VOLATILE")
    case True
    have "set (changes_for_reader (acked_changes_set h g s rp)) \<subseteq> set (changes_for_reader rp)"
    proof (cases "changes_low_mark rp < s")
      case True
      obtain f where "acked_changes_set h g s rp = rp\<lparr>changes_for_reader :=
          filter (\<lambda>c. f \<le> cfr_seq_num c) (changes_for_reader rp), changes_low_mark := f - 1\<rparr>"
        using acked_changes_set_ahead [OF ok(1) True] by blast
      then show ?thesis by simp
    qed (use True in \<open>auto simp: acked_changes_set_old\<close>)
    then show ?thesis using ok(2) unfolding rp_in_history_def by (metis image_mono order_trans)
  next
    case c: False
    show ?thesis
    proof (cases "get_seq_num_min h = SN_UNKNOWN")
      case True
      then show ?thesis using ok(2) c by (auto simp: rp_in_history_def acked_changes_set_def)
    next
      case False
      then obtain new where "cfr_seq_num ` set new =
          {n. n \<le> changes_low_mark rp \<and> n \<in> cc_sequenceNumber ` set (m_changes h)}"
        "acked_changes_set h g 0 rp = rp\<lparr>changes_for_reader := sort_key cfr_seq_num (changes_for_reader rp @ new),
          changes_low_mark := get_seq_num_min h - 1\<rparr>"
        using acked_changes_set_resend [OF ok assms(2-4) _ _ False] c by auto
      then show ?thesis using ok(2) c by (auto simp: rp_in_history_def image_Un)
    qed
  qed
  then show ?thesis using rp_inv_acked [OF ok assms(2-4)] by (simp add: rp_ok_def)
qed

lemma rp_ok_requested:
  assumes "rp_ok h rp" "br_wf sns" "requested_changes_set send sns mn g rp = (b, g', rp')"
  shows "rp_ok h rp'"
proof -
  have "distinct (br_for_each int_items sns)"
    using sn.br_for_each_items(2) [OF TrueI assms(2)] by (simp add: strict_sorted_iff)
  note r = requests_spec [OF rp_okD(3) [OF assms(1)] this]
  have "map cfr_seq_num (changes_for_reader rp') = map cfr_seq_num (changes_for_reader rp)"
    "changes_low_mark rp' = changes_low_mark rp"
    using assms(3) r [of send mn False g] by (auto simp: requested_changes_set_def split: if_splits)
  then show ?thesis by (rule rp_ok_cong [OF assms(1)])
qed

lemma rp_ok_convert:
  assumes "rp_ok h rp" "convert_status_on_all_changes p q rp = (n, cs, rp')"
  shows "rp_ok h rp'"
  using assms(2) by (intro rp_ok_cong [OF assms(1)]) (auto simp: convert_status_on_all_changes_def Let_def)

lemma rp_ok_erase:
  assumes "rp_ok h rp"
  shows "rp_ok h (rp\<lparr>changes_for_reader := erase i (changes_for_reader rp)\<rparr>)"
proof -
  have "set (erase i (changes_for_reader rp)) \<subseteq> set (changes_for_reader rp)" by (rule set_erase)
  then show ?thesis using assms
    by (fastforce simp: rp_ok_def rp_inv_def rp_in_history_def map_erase sorted_wrt_erase)
qed

lemma rp_ok_update:
  assumes "rp_ok h rp" "i < length (changes_for_reader rp) \<Longrightarrow> cfr_seq_num c = cfr_seq_num (changes_for_reader rp ! i)"
  shows "rp_ok h (rp\<lparr>changes_for_reader := (changes_for_reader rp)[i := c]\<rparr>)"
proof (rule rp_ok_cong [OF assms(1)])
  show "map cfr_seq_num (changes_for_reader (rp\<lparr>changes_for_reader := (changes_for_reader rp)[i := c]\<rparr>)) =
      map cfr_seq_num (changes_for_reader rp)"
    using assms(2) by (cases "i < length (changes_for_reader rp)") (simp_all add: map_update list_update_same_conv list_update_beyond)
qed simp

lemma rp_ok_from_unsent:
  assumes "rp_ok h rp" "wh_inv g h" "guid_wf g" "h_attached h"
  shows "rp_ok h (from_unsent_to_status h g s st restart delivered rp)"
proof -
  define rp1 where "rp1 = (if restart \<and> is_remote_and_reliable rp
    then rp\<lparr>nack_supression_event := map_option restart_timer (nack_supression_event rp)\<rparr> else rp)"
  have ok: "rp_ok h rp1" by (rule rp_ok_same [OF assms(1)]) (simp_all add: rp1_def)
  show ?thesis
    unfolding from_unsent_to_status_def rp1_def [symmetric] Let_def
    using rp_ok_acked [OF rp_ok_erase [OF ok] assms(2-4)] rp_ok_update [OF ok] by simp
qed

lemma rp_ok_removed:
  assumes "rp_ok h rp" "wh_inv g h" "guid_wf g" "h_attached h"
  shows "rp_ok h (snd (change_has_been_removed h g s rp))"
  using rp_ok_acked [OF rp_ok_erase [OF assms(1)] assms(2-4)] rp_ok_erase [OF assms(1)] assms(1)
  unfolding change_has_been_removed_def Let_def by simp

lemma rp_ok_requested_fragment: "rp_ok h rp \<Longrightarrow> rp_ok h (snd (requested_fragment_set s fs rp))"
  unfolding requested_fragment_set_def Let_def by (auto intro!: rp_ok_update)

lemma rp_ok_nack_frag: "rp_ok h rp \<Longrightarrow> rp_ok h (snd (rp_process_nack_frag g n s fs rp))"
  unfolding rp_process_nack_frag_def by (auto intro!: rp_ok_requested_fragment intro: rp_ok_same)

lemma rp_ok_mark_fragment:
  assumes "rp_ok h rp" "mark_fragment_as_sent_for_change s f rp = Some (b, b', rp')"
  shows "rp_ok h rp'"
proof -
  have "cfr_seq_num c' = cfr_seq_num c" if "markFragmentsAsSent f c = Some c'" for c c'
    using that by (auto simp: markFragmentsAsSent_def Let_def split: if_splits)
  then show ?thesis
    using assms unfolding mark_fragment_as_sent_for_change_def Let_def
    by (auto split: if_splits intro!: rp_ok_update)
qed

lemma rp_ok_add_change:
  assumes "rp_ok h rp" "changes_low_mark rp < cfr_seq_num c" "\<forall>d\<in>set (changes_for_reader rp). cfr_seq_num d < cfr_seq_num c"
    "cfr_seq_num c \<in> cc_sequenceNumber ` set (m_changes h)"
  shows "rp_ok h (rp_add_change c relevant restart rp)"
proof -
  define rp1 where "rp1 = (if restart \<and> timers_enabled rp
    then rp\<lparr>nack_supression_event := map_option restart_timer (nack_supression_event rp)\<rparr> else rp)"
  have e: "changes_for_reader rp1 = changes_for_reader rp" "changes_low_mark rp1 = changes_low_mark rp"
    by (simp_all add: rp1_def)
  have ok: "rp_ok h rp1" by (rule rp_ok_same [OF assms(1) e])
  have app: "rp_ok h (rp1\<lparr>changes_for_reader := changes_for_reader rp1 @ [c]\<rparr>)"
    using ok assms(2-4) e by (simp add: rp_ok_def rp_inv_def rp_in_history_def sorted_wrt_append)
  have low: "rp_ok h (rp1\<lparr>changes_low_mark := cfr_seq_num c\<rparr>)" if "changes_low_mark rp1 + 1 = cfr_seq_num c"
  proof -
    have "changes_for_reader rp1 = []"
    proof (cases "changes_for_reader rp1")
      case (Cons d ds)
      have "changes_low_mark rp1 < cfr_seq_num d" using ok Cons by (simp add: rp_ok_def rp_inv_def)
      moreover have "cfr_seq_num d < cfr_seq_num c" using assms(3) Cons e(1) by simp
      ultimately show ?thesis using that by simp
    qed
    then show ?thesis using ok by (simp add: rp_ok_def rp_inv_def rp_in_history_def)
  qed
  show ?thesis unfolding rp_add_change_def rp1_def [symmetric] rp_add_change_basic_def
    using ok app low by auto
qed

subsection \<open>Properties\<close>

lemma example_proxy_simps [simp]:
  "durability_kind (example_proxy d l cs) = d" "changes_low_mark (example_proxy d l cs) = l"
  "changes_for_reader (example_proxy d l cs) = cs"
  by (simp_all add: example_proxy_def)

lemma example_numbered_seq [simp]: "cc_sequenceNumber (example_numbered n) = n"
  by (simp add: example_numbered_def)

text \<open>
  C6. Acknowledgement up to (not including) \<open>s\<close> above the mark: afterwards exactly the samples below \<open>s\<close> and
  those acknowledged before are acknowledged, the samples are still in order above the mark, the
  mark is at least \<open>s - 1\<close>, and it cannot move further: the sample after it, if the proxy holds it, is
  not acknowledged.
\<close>

theorem acked_changes_set_exact:
  fixes h :: WriterHistory and g :: GUID_t
  assumes "rp_inv rp" "changes_low_mark rp < s"
  defines "rp' \<equiv> acked_changes_set h g s rp"
  shows "rp_inv rp' \<and> (change_is_acked n rp' \<longleftrightarrow> n < s \<or> change_is_acked n rp) \<and> s - 1 \<le> changes_low_mark rp' \<and>
    (\<forall>c\<in>set (changes_for_reader rp'). cfr_seq_num c = changes_low_mark rp' + 1 \<longrightarrow> cfr_status c \<noteq> ACKNOWLEDGED)"
proof -
  note a = acked_changes_set_ahead_acked [OF assms(1,2)]
  obtain f where f: "s \<le> f" "rp' = rp\<lparr>changes_for_reader := filter (\<lambda>c. f \<le> cfr_seq_num c) (changes_for_reader rp),
      changes_low_mark := f - 1\<rparr>"
    "\<forall>c\<in>set (changes_for_reader rp). cfr_seq_num c = f \<longrightarrow> cfr_status c \<noteq> ACKNOWLEDGED"
    using acked_changes_set_ahead [OF assms(1,2)] unfolding rp'_def by blast
  have "s - 1 \<le> changes_low_mark rp'" "\<forall>c\<in>set (changes_for_reader rp').
      cfr_seq_num c = changes_low_mark rp' + 1 \<longrightarrow> cfr_status c \<noteq> ACKNOWLEDGED"
    unfolding f(2) using f(1,3) by auto
  then show ?thesis using a unfolding rp'_def by blast
qed

theorem acked_changes_set_exact_witness:
  "change_is_acked 2 (acked_changes_set (example_history []) c_Guid_Unknown 2 (example_proxy VOLATILE 0
     [ChangeForReader (example_numbered 1), ChangeForReader (example_numbered 2)])) = False"
proof -
  let ?c = "ChangeForReader (example_numbered 2)"
  let ?rp = "example_proxy VOLATILE 0 [ChangeForReader (example_numbered 1), ?c]"
  have i: "rp_inv ?rp" by (simp add: rp_inv_def)
  have "cfr_status ?c = UNSENT" by (simp add: ChangeForReader_def)
  then have "\<not> change_is_acked 2 ?rp" unfolding change_is_acked_iff [OF i] by simp
  then show ?thesis using acked_changes_set_exact [OF i, of 2 "example_history []" c_Guid_Unknown 2] by simp
qed

text \<open>
  C21. A preemptive acknowledgement (number zero) from a reader that wants old samples undoes
  acknowledgements: every sample of the history up to the old mark counts as not acknowledged again,
  samples above the mark are as before, and the proxy stays in order within the history.
\<close>

theorem acked_changes_set_zero:
  assumes "rp_ok h rp" "wh_inv g h" "guid_wf g" "h_attached h" "0 \<le> changes_low_mark rp"
    "durability_kind rp \<noteq> VOLATILE" "m_changes h \<noteq> []"
  shows "rp_ok h (acked_changes_set h g 0 rp) \<and> (change_is_acked n (acked_changes_set h g 0 rp) \<longleftrightarrow>
    (if n \<le> changes_low_mark rp then n \<notin> cc_sequenceNumber ` set (m_changes h) else change_is_acked n rp))"
proof -
  note ok = rp_okD(1,2) [OF assms(1)]
  have m: "get_seq_num_min h \<noteq> SN_UNKNOWN" using get_seq_num_min_empty [OF ok(2)] assms(7) by blast
  obtain new where new: "cfr_seq_num ` set new = {n. n \<le> changes_low_mark rp \<and> n \<in> cc_sequenceNumber ` set (m_changes h)}"
    "\<forall>c\<in>set new. cfr_status c = UNACKNOWLEDGED"
    "acked_changes_set h g 0 rp = rp\<lparr>changes_for_reader := sort_key cfr_seq_num (changes_for_reader rp @ new),
      changes_low_mark := get_seq_num_min h - 1\<rparr>"
    using acked_changes_set_resend [OF ok assms(2-6) m] by blast
  have ok': "rp_ok h (acked_changes_set h g 0 rp)" by (rule rp_ok_acked [OF assms(1-4)])
  have "change_is_acked n (acked_changes_set h g 0 rp) \<longleftrightarrow>
      (\<forall>c\<in>set (changes_for_reader rp) \<union> set new. cfr_seq_num c = n \<longrightarrow> cfr_status c = ACKNOWLEDGED)"
    unfolding change_is_acked_iff [OF rp_okD(1) [OF ok']] by (simp add: new(3))
  also have "\<dots> \<longleftrightarrow> change_is_acked n rp \<and> n \<notin> cfr_seq_num ` set new"
    unfolding change_is_acked_iff [OF ok(1)] using new(2) by fastforce
  also have "\<dots> \<longleftrightarrow> (if n \<le> changes_low_mark rp then n \<notin> cc_sequenceNumber ` set (m_changes h) else change_is_acked n rp)"
    unfolding new(1) by (auto simp: change_is_acked_def)
  finally show ?thesis using ok' by blast
qed

theorem acked_changes_set_zero_witness:
  "change_is_acked 1 (acked_changes_set (example_history [example_numbered 1]) c_Guid_Unknown 0
     (example_proxy TRANSIENT_LOCAL 1 [])) = False"
proof -
  let ?h = "example_history [example_numbered 1]"
  have "wh_inv c_Guid_Unknown ?h" "rp_ok ?h (example_proxy TRANSIENT_LOCAL 1 [])"
    by (simp_all add: wh_inv_def example_history_def example_numbered_def change_default_def
        rp_ok_def rp_inv_def rp_in_history_def)
  from acked_changes_set_zero [OF this(2,1) example_history_inv(2), of 1] show ?thesis by simp
qed



text \<open>
  The fragments of a sample are all sent: starting with a fresh \<open>ChangeForReader_t\<close>, sending the next
  unsent fragment as often as there are fragments sends every fragment exactly once, from the first
  to the last, although the set of unsent ones only covers 256 numbers at a time; then none is left.
  No access outside the bitmap happens on the way.
\<close>

theorem all_fragments_sent:
  assumes "cc_fragment_size ch \<noteq> 0" "cc_fragment_count ch < 4294967040" "cc_fragment_count ch \<le> fuel"
  shows "\<exists>c'. send_fragments fuel (ChangeForReader ch) = Some (map of_nat [1..<cc_fragment_count ch + 1], c') \<and>
    br_empty (cfr_unsent_fragments c')"
proof -
  define c where "c = \<lparr>cfr_status = UNSENT, cfr_seq_num = cc_sequenceNumber ch, cfr_change = ch,
    cfr_unsent_fragments = br_default u32_items, cfr_delivered = False\<rparr>"
  have c: "ChangeForReader ch = markAllFragmentsAsUnsent c" by (simp add: ChangeForReader_def c_def)
  have "unsent_from 1 (ChangeForReader ch)" unfolding c using assms by (intro markAll_unsent) (simp_all add: c_def)
  moreover have "cfr_change (ChangeForReader ch) = ch" by (simp add: c c_def)
  ultimately show ?thesis using send_fragments_all [of 1 "ChangeForReader ch" fuel] assms(3) by simp
qed

theorem all_fragments_sent_witness:
  "\<exists>c'. send_fragments 300 (ChangeForReader (change_default\<lparr>cc_fragment_size := 4, cc_fragment_count := 300\<rparr>)) =
      Some (map of_nat [1..<300 + 1], c') \<and> br_empty (cfr_unsent_fragments c')"
proof -
  define ch where "ch = change_default\<lparr>cc_fragment_size := 4, cc_fragment_count := 300\<rparr>"
  have n: "cc_fragment_count ch = 300" and s: "cc_fragment_size ch \<noteq> 0" by (simp_all add: ch_def)
  show ?thesis unfolding ch_def [symmetric] by (rule all_fragments_sent [of ch 300, unfolded n, OF s]) simp_all
qed

end
