(* ===== verification/StatefulWriter.thy ===== *)
theory StatefulWriter
  imports ReaderProxy "HOL-Library.Monad_Syntax"
begin

text \<open>
  The reliable writer, \<open>src/cpp/rtps/writer/StatefulWriter.cpp\<close>: its matched readers (local, by data sharing,
  remote; one proxy each) and what acknowledgements, requests, removals, new samples and timers do to
  them. The state is a pair of the writer's history and a record of the writer. Messages, samples
  given to the flow controller and notifications of local readers are collected, in order, in
  \<open>sw_out\<close>. What lies outside the writer (a user's filter and listener, the readers in the process, the
  flow controller, the network) is a record of functions, \<open>sw_env\<close>. \<open>None\<close> stands for a loop that
  does not end or an access outside a vector. Locks, statistics, liveliness and the data sharing pool
  are left out; the time-out exception of a message group is modelled only in the delivery to the
  network.

  The lemmas show the invariant of the writer over all its operations, what an acknowledgement does,
  which samples the listener hears of and that this loop ends, that the GAPs for holes name exactly
  the holes, and when the delivery to the network ends.
\<close>

subsection \<open>State\<close>

datatype sw_msg =
  Gap "GUID_t list" int "int BitmapRange"
| Heartbeat "GUID_t list" int int nat bool bool
| Data "GUID_t list" int bool
| Data_frag "GUID_t list" int u32 bool
| Local_gap GUID_t int int
| Local_heartbeat GUID_t nat int int bool
| Local_data GUID_t CacheChange_t
| Datasharing_notify GUID_t
| Add_new_sample int
| Add_old_sample int

text \<open>
  \<open>sw_keep_duration\<close> is the keep duration as the \<open>Time_t\<close> it is converted to wherever it is used;
  \<open>sw_max_readers\<close> is the maximal size of the pool of proxies.
\<close>

record 'loc StatefulWriter =
  sw_guid :: GUID_t
  push_mode :: bool
  separate_sending_enabled :: bool
  sw_durability :: DurabilityKind_t
  disable_heartbeat_piggyback :: bool
  disable_positive_acks :: bool
  sw_keep_duration :: Time_t
  sw_max_readers :: nat
  sendBufferSize :: nat
  periodic_hb_event :: TimedEvent
  nack_response_event :: TimedEvent
  ack_event :: TimedEvent
  heartbeat_count :: nat
  matched_local_readers :: "'loc ReaderProxy list"
  matched_datasharing_readers :: "'loc ReaderProxy list"
  matched_remote_readers :: "'loc ReaderProxy list"
  matched_readers_pool :: "'loc ReaderProxy list"
  next_all_acked_notify_sequence :: int
  min_readers_low_mark :: int
  all_acked :: bool
  may_remove_change :: nat
  sw_last_sequence_number :: int
  biggest_removed_sequence_number :: int
  currentUsageSendBufferSize :: int
  sw_out :: "sw_msg list"

type_synonym 'loc sw_state = "WriterHistory \<times> 'loc StatefulWriter"

text \<open>
  The outside: the data filter; whether a local reader still exists and whether it takes a sample;
  whether a message is accepted; whether the flow controller lets a change go; the listener's
  \<open>on_writer_change_received_by_all\<close>, which may remove changes; the effect of \<open>filter_remote_locators\<close>.
\<close>

record 'loc sw_env =
  env_filter :: "(CacheChange_t \<Rightarrow> GUID_t \<Rightarrow> bool) option"
  env_local :: "GUID_t \<Rightarrow> bool"
  env_deliver :: "GUID_t \<Rightarrow> CacheChange_t \<Rightarrow> bool"
  env_send :: "gap_msg \<Rightarrow> bool"
  env_flow_remove :: "CacheChange_t \<Rightarrow> bool"
  env_listener :: "(CacheChange_t \<Rightarrow> 'loc sw_state \<Rightarrow> 'loc sw_state) option"
  env_locators :: "'loc ReaderLocator \<Rightarrow> 'loc ReaderLocator"

definition sw_emit :: "sw_msg list \<Rightarrow> 'loc StatefulWriter \<Rightarrow> 'loc StatefulWriter" where
  "sw_emit ms w = w\<lparr>sw_out := sw_out w @ ms\<rparr>"

abbreviation rp_guid :: "'loc ReaderProxy \<Rightarrow> GUID_t" where
  "rp_guid rp \<equiv> rl_remote_guid (locator_info rp)"

subsection \<open>Matched readers\<close>

text \<open>The readers in the order of \<open>for_matched_readers\<close>; a reader is addressed by its place.\<close>

definition matched_readers :: "'loc StatefulWriter \<Rightarrow> 'loc ReaderProxy list" where
  "matched_readers w = matched_local_readers w @ matched_datasharing_readers w @ matched_remote_readers w"

definition set_matched_reader ::
  "nat \<Rightarrow> 'loc ReaderProxy \<Rightarrow> 'loc StatefulWriter \<Rightarrow> 'loc StatefulWriter" where
  "set_matched_reader i rp w =
     (let nl = length (matched_local_readers w); nd = length (matched_datasharing_readers w)
      in if i < nl then w\<lparr>matched_local_readers := (matched_local_readers w)[i := rp]\<rparr>
         else if i < nl + nd
         then w\<lparr>matched_datasharing_readers := (matched_datasharing_readers w)[i - nl := rp]\<rparr>
         else w\<lparr>matched_remote_readers := (matched_remote_readers w)[i - nl - nd := rp]\<rparr>)"

fun for_readers :: "(nat \<Rightarrow> 's \<Rightarrow> (bool \<times> 's) option) \<Rightarrow> nat list \<Rightarrow> 's \<Rightarrow> (bool \<times> 's) option" where
  "for_readers f [] s = Some (False, s)"
| "for_readers f (i # is) s =
     do { (stop, s) \<leftarrow> f i s; if stop then Some (True, s) else for_readers f is s }"

definition for_matched_readers ::
  "(nat \<Rightarrow> 'loc sw_state \<Rightarrow> (bool \<times> 'loc sw_state) option) \<Rightarrow> 'loc sw_state \<Rightarrow>
   (bool \<times> 'loc sw_state) option" where
  "for_matched_readers f s = for_readers f [0..<length (matched_readers (snd s))] s"

text \<open>A routine that changes every proxy and never stops the loop.\<close>

definition map_matched_readers ::
  "('loc ReaderProxy \<Rightarrow> 'loc ReaderProxy) \<Rightarrow> 'loc StatefulWriter \<Rightarrow> 'loc StatefulWriter" where
  "map_matched_readers f w =
     w\<lparr>matched_local_readers := map f (matched_local_readers w),
       matched_datasharing_readers := map f (matched_datasharing_readers w),
       matched_remote_readers := map f (matched_remote_readers w)\<rparr>"

definition get_matched_readers_size :: "'loc StatefulWriter \<Rightarrow> nat" where
  "get_matched_readers_size w = length (matched_remote_readers w) +
     length (matched_local_readers w) + length (matched_datasharing_readers w)"

definition rtps_is_relevant :: "'loc sw_env \<Rightarrow> CacheChange_t \<Rightarrow> 'loc ReaderProxy \<Rightarrow> bool" where
  "rtps_is_relevant env change rp =
     (case env_filter env of Some is_relevant \<Rightarrow> is_relevant change (rp_guid rp) | None \<Rightarrow> True)"

subsection \<open>Heartbeats and gaps\<close>

definition increment_hb_count :: "'loc StatefulWriter \<Rightarrow> 'loc StatefulWriter" where
  "increment_hb_count w = w\<lparr>heartbeat_count := (heartbeat_count w + 1) mod 4294967296\<rparr>"

definition intraprocess_gap ::
  "'loc sw_env \<Rightarrow> 'loc ReaderProxy \<Rightarrow> int \<Rightarrow> int \<Rightarrow> 'loc StatefulWriter \<Rightarrow> 'loc StatefulWriter" where
  "intraprocess_gap env rp first_seq last_seq w =
     (if env_local env (rp_guid rp) then sw_emit [Local_gap (rp_guid rp) first_seq last_seq] w else w)"

definition intraprocess_heartbeat ::
  "'loc sw_env \<Rightarrow> WriterHistory \<Rightarrow> 'loc ReaderProxy \<Rightarrow> bool \<Rightarrow> 'loc StatefulWriter \<Rightarrow> 'loc StatefulWriter" where
  "intraprocess_heartbeat env h rp liveliness w =
     (if env_local env (rp_guid rp)
      then
        let first_seq = get_seq_num_min h; last_seq = get_seq_num_max h;
            (first_seq, last_seq) =
              (if (first_seq = SN_UNKNOWN \<or> last_seq = SN_UNKNOWN) \<and> liveliness
               then (next_sequence_number h, next_sequence_number h - 1) else (first_seq, last_seq))
        in if first_seq \<noteq> SN_UNKNOWN \<and> last_seq \<noteq> SN_UNKNOWN \<and> (liveliness \<or> has_changes rp)
           then let w = increment_hb_count w
                in sw_emit [Local_heartbeat (rp_guid rp) (heartbeat_count w) first_seq last_seq liveliness] w
           else w
      else w)"

definition send_heartbeat_nts ::
  "WriterHistory \<Rightarrow> GUID_t list \<Rightarrow> nat \<Rightarrow> bool \<Rightarrow> bool \<Rightarrow> 'loc StatefulWriter \<Rightarrow> 'loc StatefulWriter" where
  "send_heartbeat_nts h dests number_of_readers final liveliness w =
     (if number_of_readers = 0 then w
      else
        let firstSeq = get_seq_num_min h; lastSeq = get_seq_num_max h;
            known = (firstSeq \<noteq> SN_UNKNOWN \<and> lastSeq \<noteq> SN_UNKNOWN)
        in if \<not> known \<and> \<not> (number_of_readers = 1 \<or> liveliness) then w
           else
             let firstSeq = (if known then firstSeq else next_sequence_number h);
                 lastSeq = (if known then lastSeq else firstSeq - 1);
                 w = increment_hb_count w
             in (sw_emit [Heartbeat dests firstSeq lastSeq (heartbeat_count w) final liveliness] w)
                  \<lparr>currentUsageSendBufferSize := sint (of_nat (sendBufferSize w) :: u32)\<rparr>)"

text \<open>
  The numbers the loop of \<open>add_gaps_for_holes_in_history\<close> adds: \<open>prev\<close> is counted up until it meets the
  next change, which never happens if it is above it.
\<close>

fun hole_numbers :: "int \<Rightarrow> CacheChange_t list \<Rightarrow> int list option" where
  "hole_numbers prev [] = Some []"
| "hole_numbers prev (c # cs) =
     (if prev \<le> cc_sequenceNumber c
      then map_option ((@) [prev..cc_sequenceNumber c - 1]) (hole_numbers (cc_sequenceNumber c + 1) cs)
      else None)"

definition add_gaps_for_holes_in_history ::
  "'loc sw_env \<Rightarrow> WriterHistory \<Rightarrow> GUID_t list \<Rightarrow> 'loc StatefulWriter \<Rightarrow> 'loc StatefulWriter option" where
  "add_gaps_for_holes_in_history env h dests w =
     (if SN_UNKNOWN \<noteq> get_seq_num_min h \<and>
         get_seq_num_max h - get_seq_num_min h + 1 \<noteq> int (length (m_changes h))
      then do {
        holes \<leftarrow> hole_numbers (cc_sequenceNumber (hd (m_changes h)) + 1) (tl (m_changes h));
        let gaps = fold (\<lambda>n g. snd (gap_add (env_send env) n g)) holes gap_builder_init;
        Some (sw_emit (map (\<lambda>(first, s). Gap dests first s) (gb_sent (snd (gap_flush (env_send env) gaps)))) w) }
      else Some w)"

definition first_seq_to_check :: "WriterHistory \<Rightarrow> int" where
  "first_seq_to_check h = (if SN_UNKNOWN = get_seq_num_min h then next_sequence_number h - 1 else get_seq_num_min h)"

definition send_heartbeat_to_nts ::
  "'loc sw_env \<Rightarrow> WriterHistory \<Rightarrow> 'loc ReaderProxy \<Rightarrow> bool \<Rightarrow> bool \<Rightarrow> 'loc StatefulWriter \<Rightarrow>
   'loc StatefulWriter option" where
  "send_heartbeat_to_nts env h rp liveliness force w =
     (if rp_is_reliable rp \<and> (force \<or> liveliness \<or> has_unacknowledged (first_seq_to_check h) rp)
      then if is_local_reader rp then Some (intraprocess_heartbeat env h rp liveliness w)
           else if is_datasharing_reader (locator_info rp) then Some (sw_emit [Datasharing_notify (rp_guid rp)] w)
           else do {
             w \<leftarrow> if get_seq_num_min h \<noteq> SN_UNKNOWN \<and> get_seq_num_max h \<noteq> SN_UNKNOWN \<and> \<not> liveliness
                  then add_gaps_for_holes_in_history env h [rp_guid rp] w else Some w;
             Some (send_heartbeat_nts h [rp_guid rp] 1 (disable_positive_acks w) liveliness w) }
      else Some w)"

text \<open>
  The readers of the locator selector when all are enabled: it has an entry for every matched reader,
  without locators for those in the process. (Their order there is that of matching.)
\<close>

definition all_remote_readers :: "'loc StatefulWriter \<Rightarrow> GUID_t list" where
  "all_remote_readers w = map rp_guid (matched_readers w)"

fun each_reader ::
  "('loc ReaderProxy \<Rightarrow> 'loc StatefulWriter \<Rightarrow> 'loc StatefulWriter option) \<Rightarrow> 'loc ReaderProxy list \<Rightarrow>
   'loc StatefulWriter \<Rightarrow> 'loc StatefulWriter option" where
  "each_reader f [] w = Some w"
| "each_reader f (rp # rps) w = do { w \<leftarrow> f rp w; each_reader f rps w }"

definition send_heartbeat_to_all_readers ::
  "'loc sw_env \<Rightarrow> WriterHistory \<Rightarrow> 'loc StatefulWriter \<Rightarrow> 'loc StatefulWriter option" where
  "send_heartbeat_to_all_readers env h w =
     (if separate_sending_enabled w
      then each_reader (\<lambda>rp. send_heartbeat_to_nts env h rp False False) (matched_remote_readers w) w
      else
        let w = fold (\<lambda>rp. intraprocess_heartbeat env h rp False) (matched_local_readers w) w;
            w = sw_emit (map (\<lambda>rp. Datasharing_notify (rp_guid rp)) (matched_datasharing_readers w)) w
        in if matched_remote_readers w \<noteq> []
           then do {
             w \<leftarrow> add_gaps_for_holes_in_history env h (all_remote_readers w) w;
             Some (send_heartbeat_nts h (all_remote_readers w) (length (all_remote_readers w))
                     (disable_positive_acks w) False w) }
           else Some w)"

definition send_periodic_heartbeat ::
  "'loc sw_env \<Rightarrow> WriterHistory \<Rightarrow> bool \<Rightarrow> bool \<Rightarrow> 'loc StatefulWriter \<Rightarrow>
   (bool \<times> 'loc StatefulWriter) option" where
  "send_periodic_heartbeat env h final liveliness w =
     (if \<not> liveliness
      then
        let unacked_changes = list_ex (has_unacknowledged (first_seq_to_check h)) (matched_readers w)
        in if unacked_changes then map_option (Pair True) (send_heartbeat_to_all_readers env h w)
           else Some (False, w)
      else if separate_sending_enabled w
      then map_option (Pair (matched_readers w \<noteq> []))
             (each_reader (\<lambda>rp. send_heartbeat_to_nts env h rp liveliness False) (matched_readers w) w)
      else
        let w = fold (\<lambda>rp. intraprocess_heartbeat env h rp True) (matched_local_readers w) w;
            w = sw_emit (map (\<lambda>rp. Datasharing_notify (rp_guid rp)) (matched_datasharing_readers w)) w;
            w = (if matched_remote_readers w \<noteq> []
                 then send_heartbeat_nts h (all_remote_readers w) (length (all_remote_readers w)) final liveliness w
                 else w)
        in Some (matched_readers w \<noteq> [], w))"

subsection \<open>Acknowledged by all\<close>

text \<open>
  The loop that tells the listener of the changes all readers have, backwards from \<open>cit\<close>. The listener
  may change the history. The fuel bounds the iterations; \<open>None\<close> is also an iterator past the end.
\<close>

fun notify_received_by_all ::
  "nat \<Rightarrow> (CacheChange_t \<Rightarrow> 'loc sw_state \<Rightarrow> 'loc sw_state) \<Rightarrow> int \<Rightarrow> nat \<Rightarrow> 'loc sw_state \<Rightarrow>
   'loc sw_state option" where
  "notify_received_by_all 0 received end_seq cit s = None"
| "notify_received_by_all (Suc fuel) received end_seq cit s =
     (if cit < length (m_changes (fst s))
      then
        let change = m_changes (fst s) ! cit; seq = cc_sequenceNumber change
        in if seq < next_all_acked_notify_sequence (snd s) then Some s
           else
             let cit = (if cit \<noteq> 0 then cit - 1 else cit); s = received change s
             in if seq > end_seq then notify_received_by_all fuel received end_seq cit s else Some s
      else None)"

definition reader_marks :: "WriterHistory \<Rightarrow> 'loc StatefulWriter \<Rightarrow> bool \<times> bool \<times> int" where
  "reader_marks h w =
     fold (\<lambda>reader (all_acked, has_min_low_mark, min_low_mark).
         let reader_low_mark = changes_low_mark reader;
             (has_min_low_mark, min_low_mark) =
               (if reader_low_mark < min_low_mark \<or> \<not> has_min_low_mark then (True, reader_low_mark)
                else (has_min_low_mark, min_low_mark))
         in (if has_changes reader then False else all_acked, has_min_low_mark, min_low_mark))
       (matched_readers w) (True, False, next_sequence_number h - 1)"

definition notify_start :: "int \<Rightarrow> WriterHistory \<Rightarrow> nat" where
  "notify_start min_low_mark h =
     (let cit = lower_bound (\<lambda>c. cc_sequenceNumber c < min_low_mark) (m_changes h)
      in if cit \<noteq> length (m_changes h) \<and> cc_sequenceNumber (m_changes h ! cit) = min_low_mark then cit + 1 else cit)"

text \<open>The four stages of \<open>check_acked_status\<close>: telling the listener, the next number, the marks, the flag.\<close>

definition notify_listener :: "'loc sw_env \<Rightarrow> int \<Rightarrow> 'loc sw_state \<Rightarrow> 'loc sw_state option" where
  "notify_listener env min_low_mark s =
     (let (h, w) = s; min_seq = get_seq_num_min h
      in case env_listener env of
           Some received \<Rightarrow>
             if min_low_mark \<ge> min_seq
             then
               let cit = notify_start min_low_mark h;
                   end_seq = (if min_seq > next_all_acked_notify_sequence w then min_seq
                              else next_all_acked_notify_sequence w)
               in if cit = 0 then None
                  else notify_received_by_all (Suc (length (m_changes h))) received end_seq (cit - 1) s
             else Some s
         | None \<Rightarrow> Some s)"

definition advance_notified :: "'loc sw_env \<Rightarrow> int \<Rightarrow> 'loc sw_state \<Rightarrow> 'loc sw_state option" where
  "advance_notified env min_low_mark s =
     (if next_all_acked_notify_sequence (snd s) \<le> min_low_mark
      then do {
        (h, w) \<leftarrow> notify_listener env min_low_mark s;
        Some (h, w\<lparr>next_all_acked_notify_sequence := min_low_mark + 1\<rparr>) }
      else Some s)"

definition update_marks :: "int \<Rightarrow> 'loc sw_state \<Rightarrow> 'loc sw_state" where
  "update_marks min_low_mark s =
     (let (h, w) = s;
          w = (if min_low_mark \<ge> get_seq_num_min h
               then w\<lparr>may_remove_change := if get_seq_num_min h = SN_UNKNOWN then 2 else 1\<rparr> else w)
      in (h, w\<lparr>min_readers_low_mark := min_low_mark\<rparr>))"

definition set_all_acked :: "'loc sw_state \<Rightarrow> 'loc sw_state" where
  "set_all_acked s =
     (let (h, w) = s
      in (h, w\<lparr>next_all_acked_notify_sequence := next_sequence_number h,
              min_readers_low_mark := next_sequence_number h - 1, all_acked := True\<rparr>))"

definition check_acked_status :: "'loc sw_env \<Rightarrow> 'loc sw_state \<Rightarrow> 'loc sw_state option" where
  "check_acked_status env s =
     (let (acked, _, min_low_mark) = reader_marks (fst s) (snd s)
      in do {
        s \<leftarrow> if get_seq_num_min (fst s) \<noteq> SN_UNKNOWN
             then map_option (update_marks min_low_mark) (advance_notified env min_low_mark s) else Some s;
        Some (if acked then set_all_acked s else s) })"

definition is_acked_by_all :: "int \<Rightarrow> 'loc StatefulWriter \<Rightarrow> bool" where
  "is_acked_by_all seq w \<longleftrightarrow>
     seq < next_all_acked_notify_sequence w \<or> \<not> list_ex (\<lambda>reader. \<not> change_is_acked seq reader) (matched_readers w)"

definition all_readers_updated :: "'loc StatefulWriter \<Rightarrow> bool" where
  "all_readers_updated w \<longleftrightarrow> \<not> list_ex has_changes (matched_readers w)"

definition has_been_fully_delivered :: "int \<Rightarrow> 'loc sw_state \<Rightarrow> bool" where
  "has_been_fully_delivered seq_num s =
     (if seq_num \<ge> next_sequence_number (fst s) then False
      else list_all (\<lambda>reader. case rp_has_been_delivered seq_num reader of
               (ret_code, found) \<Rightarrow> \<not> (found \<and> \<not> ret_code)) (matched_remote_readers (snd s)))"

definition rebuild_status_after_load :: "'loc sw_state \<Rightarrow> 'loc sw_state" where
  "rebuild_status_after_load s =
     (let (h, w) = s; min_seq = get_seq_num_min h;
          w = (if min_seq \<noteq> SN_UNKNOWN
               then w\<lparr>may_remove_change := 1, biggest_removed_sequence_number := min_seq - 1\<rparr> else w)
      in (h, w\<lparr>next_all_acked_notify_sequence := next_sequence_number h,
              min_readers_low_mark := next_sequence_number h - 1, all_acked := True\<rparr>))"

subsection \<open>Changes\<close>

definition ack_interval :: "Time_t \<Rightarrow> CacheChange_t \<Rightarrow> 'loc StatefulWriter \<Rightarrow> int" where
  "ack_interval now change w =
     (let d = to_duration_t (time_sub (time_add (cc_sourceTimestamp change) (sw_keep_duration w)) now)
      in uint (d_nanosec d) div 1000 + sint (d_seconds d) * 1000000)"

definition add_change_for_reader ::
  "'loc sw_env \<Rightarrow> CacheChange_t \<Rightarrow> bool \<Rightarrow> 'loc ReaderProxy \<Rightarrow> bool \<times> 'loc ReaderProxy" where
  "add_change_for_reader env change push reader =
     (let changeForReader = ChangeForReader change; is_relevant = rtps_is_relevant env change reader;
          (should_be_sent, changeForReader) =
            (if push \<or> \<not> rp_is_reliable reader \<or> is_local_reader reader then (is_relevant, changeForReader)
             else (False, changeForReader\<lparr>cfr_status := UNACKNOWLEDGED\<rparr>))
      in (should_be_sent, rp_add_change changeForReader is_relevant False reader))"

definition unsent_change_added_to_history ::
  "'loc sw_env \<Rightarrow> Time_t \<Rightarrow> CacheChange_t \<Rightarrow> 'loc sw_state \<Rightarrow> 'loc sw_state option" where
  "unsent_change_added_to_history env now change s =
     (let (h, w) = s
      in if matched_readers w \<noteq> []
         then
           let should_be_sent =
                 list_ex (\<lambda>reader. fst (add_change_for_reader env change (push_mode w) reader)) (matched_readers w);
               w = map_matched_readers (\<lambda>reader. snd (add_change_for_reader env change (push_mode w) reader)) w;
               w = (if disable_positive_acks w
                    then w\<lparr>ack_event := restart_timer ((ack_event w)\<lparr>te_interval := ack_interval now change w\<rparr>)\<rparr> else w)
           in Some (h, if should_be_sent then sw_emit [Add_new_sample (cc_sequenceNumber change)] w
                       else w\<lparr>periodic_hb_event := restart_timer (periodic_hb_event w)\<rparr>)
         else check_acked_status env s)"

definition change_removed_by_history ::
  "'loc sw_env \<Rightarrow> WriterHistory \<Rightarrow> CacheChange_t \<Rightarrow> 'loc StatefulWriter \<Rightarrow> bool \<times> 'loc StatefulWriter" where
  "change_removed_by_history env h a_change w =
     (let sequence_number = cc_sequenceNumber a_change
      in if env_flow_remove env a_change
         then
           let w = (if sequence_number > biggest_removed_sequence_number w
                    then w\<lparr>biggest_removed_sequence_number := sequence_number\<rparr> else w);
               gaps = filter (\<lambda>reader. fst (change_has_been_removed h (sw_guid w) sequence_number reader))
                        (matched_readers w);
               w = map_matched_readers (\<lambda>reader. snd (change_has_been_removed h (sw_guid w) sequence_number reader)) w;
               w = fold (\<lambda>reader. intraprocess_gap env reader sequence_number (sequence_number + 1)) gaps w
           in (True, w\<lparr>may_remove_change := 2\<rparr>)
         else (False, w))"

text \<open>\<open>woken\<close> is the value of \<open>may_remove_change_\<close> when the wait ends.\<close>

definition try_remove_change ::
  "'loc sw_env \<Rightarrow> nat \<Rightarrow> 'loc sw_state \<Rightarrow> bool \<times> 'loc sw_state" where
  "try_remove_change env woken s =
     (let (h, w) = s; min_low_mark = next_all_acked_notify_sequence w - 1;
          calc = (if min_low_mark < get_seq_num_min h then 0 else min_low_mark - get_seq_num_min h + 1);
          (w, may_remove) =
            (if calc \<le> 0 then (w\<lparr>may_remove_change := woken\<rparr>, woken) else (w, 1))
      in if may_remove = 1
         then remove_min_change (sw_guid w) (change_removed_by_history env h) (h, w)
         else (may_remove = 2, (h, w)))"

subsection \<open>Acknowledgements and requests\<close>

definition answer_initial_acknack ::
  "'loc sw_env \<Rightarrow> WriterHistory \<Rightarrow> nat \<Rightarrow> 'loc ReaderProxy \<Rightarrow> 'loc StatefulWriter \<Rightarrow>
   'loc StatefulWriter option" where
  "answer_initial_acknack env h i reader w =
     (let (answer, old, reader) = process_initial_acknack reader;
          w = sw_emit (map (\<lambda>c. Add_old_sample (cfr_seq_num c)) old) (set_matched_reader i reader w)
      in do {
        w \<leftarrow> if answer \<and> is_remote_and_reliable reader
             then do {
               w \<leftarrow> send_heartbeat_to_nts env h reader False True w;
               Some (w\<lparr>periodic_hb_event := restart_timer (periodic_hb_event w)\<rparr>) }
             else Some w;
        Some (if is_local_reader reader \<and> \<not> is_datasharing_reader (locator_info reader)
              then intraprocess_heartbeat env h reader False w else w) })"

definition answer_acknack ::
  "'loc sw_env \<Rightarrow> WriterHistory \<Rightarrow> int BitmapRange \<Rightarrow> bool \<Rightarrow> nat \<Rightarrow> 'loc ReaderProxy \<Rightarrow> 'loc StatefulWriter \<Rightarrow>
   'loc StatefulWriter option" where
  "answer_acknack env h sn_set final_flag i reader w =
     (if br_base sn_set > 0
      then
        let (requested, gaps, reader) =
              requested_changes_set (env_send env) sn_set (get_seq_num_min h) gap_builder_init reader;
            w = set_matched_reader i reader w;
            w = (if requested then w\<lparr>nack_response_event := restart_timer (nack_response_event w)\<rparr>
                 else if \<not> final_flag then w\<lparr>periodic_hb_event := restart_timer (periodic_hb_event w)\<rparr> else w)
        in Some (sw_emit (map (\<lambda>(first, set). Gap [rp_guid reader] first set)
                   (gb_sent (snd (gap_flush (env_send env) gaps)))) w)
      else if br_empty sn_set \<and> \<not> final_flag then answer_initial_acknack env h i reader w
      else Some (set_matched_reader i reader w))"

definition acknack_reader ::
  "'loc sw_env \<Rightarrow> GUID_t \<Rightarrow> nat \<Rightarrow> int BitmapRange \<Rightarrow> bool \<Rightarrow> nat \<Rightarrow> 'loc sw_state \<Rightarrow>
   (bool \<times> 'loc sw_state) option" where
  "acknack_reader env reader_guid ack_count sn_set final_flag i s =
     (let (h, w) = s; reader = matched_readers w ! i
      in if guid_eq (rp_guid reader) reader_guid
         then
           let (fresh, reader) = check_and_set_acknack_count ack_count reader
           in if fresh
              then do {
                w \<leftarrow> answer_acknack env h sn_set final_flag i
                      (acked_changes_set h (sw_guid w) (br_base sn_set) reader) w;
                s \<leftarrow> check_acked_status env (h, w);
                Some (True, s) }
              else Some (True, s)
         else Some (False, s))"

definition process_acknack ::
  "'loc sw_env \<Rightarrow> GUID_t \<Rightarrow> GUID_t \<Rightarrow> nat \<Rightarrow> int BitmapRange \<Rightarrow> bool \<Rightarrow> 'loc sw_state \<Rightarrow>
   (bool \<times> 'loc sw_state) option" where
  "process_acknack env writer_guid reader_guid ack_count sn_set final_flag s =
     (if guid_eq (sw_guid (snd s)) writer_guid
      then
        let received_sequence_number = (if br_empty sn_set then br_base sn_set else br_max int_items sn_set)
        in if received_sequence_number \<le> next_sequence_number (fst s)
           then do {
             (_, s) \<leftarrow> for_matched_readers (acknack_reader env reader_guid ack_count sn_set final_flag) s;
             Some (True, s) }
           else Some (True, s)
      else Some (False, s))"

definition nack_frag_reader ::
  "GUID_t \<Rightarrow> nat \<Rightarrow> int \<Rightarrow> u32 BitmapRange \<Rightarrow> nat \<Rightarrow> 'loc sw_state \<Rightarrow> (bool \<times> 'loc sw_state) option" where
  "nack_frag_reader reader_guid ack_count seq_num fragments_state i s =
     (let (h, w) = s; reader = matched_readers w ! i
      in if guid_eq (rp_guid reader) reader_guid
         then let (requested, reader) = rp_process_nack_frag reader_guid ack_count seq_num fragments_state reader;
                  w = set_matched_reader i reader w
              in Some (True, h, if requested
                   then w\<lparr>nack_response_event := restart_timer (nack_response_event w)\<rparr> else w)
         else Some (False, s))"

definition sw_process_nack_frag ::
  "GUID_t \<Rightarrow> GUID_t \<Rightarrow> nat \<Rightarrow> int \<Rightarrow> u32 BitmapRange \<Rightarrow> 'loc sw_state \<Rightarrow> (bool \<times> 'loc sw_state) option" where
  "sw_process_nack_frag writer_guid reader_guid ack_count seq_num fragments_state s =
     (if guid_eq (sw_guid (snd s)) writer_guid
      then do {
        (_, s) \<leftarrow> for_matched_readers (nack_frag_reader reader_guid ack_count seq_num fragments_state) s;
        Some (True, s) }
      else Some (False, s))"

text \<open>The old samples go to the flow controller; the result is the number of resent ones (a \<open>uint32_t\<close>).\<close>

definition perform_nack_response :: "'loc StatefulWriter \<Rightarrow> nat \<times> 'loc StatefulWriter" where
  "perform_nack_response w =
     (let answers = map perform_acknack_response (matched_remote_readers w)
      in (sum_list (map fst answers) mod 4294967296,
          sw_emit (map (\<lambda>c. Add_old_sample (cfr_seq_num c)) (concat (map (fst \<circ> snd) answers)))
            (w\<lparr>matched_remote_readers := map (snd \<circ> snd) answers\<rparr>)))"

definition nack_supression_reader :: "GUID_t \<Rightarrow> nat \<Rightarrow> 'loc sw_state \<Rightarrow> (bool \<times> 'loc sw_state) option" where
  "nack_supression_reader reader_guid i s =
     (let (h, w) = s; reader = matched_readers w ! i
      in if guid_eq (rp_guid reader) reader_guid
         then let w = set_matched_reader i (snd (rp_perform_nack_supression reader)) w
              in Some (True, h, w\<lparr>periodic_hb_event := restart_timer (periodic_hb_event w)\<rparr>)
         else Some (False, s))"

definition perform_nack_supression :: "GUID_t \<Rightarrow> 'loc sw_state \<Rightarrow> 'loc sw_state option" where
  "perform_nack_supression reader_guid s =
     map_option snd (for_matched_readers (nack_supression_reader reader_guid) s)"

subsection \<open>Delivery in the process\<close>

definition related_identity :: "CacheChange_t \<Rightarrow> CacheChange_t" where
  "related_identity change =
     (let wparams = cc_write_params change
      in if related_sample_identity wparams \<noteq> sample_identity_unknown
         then change\<lparr>cc_write_params := wparams\<lparr>sample_identity := related_sample_identity wparams\<rparr>\<rparr>
         else change)"

definition intraprocess_delivery ::
  "'loc sw_env \<Rightarrow> CacheChange_t \<Rightarrow> 'loc ReaderProxy \<Rightarrow> 'loc sw_state \<Rightarrow> bool \<times> CacheChange_t \<times> 'loc sw_state" where
  "intraprocess_delivery env change reader s =
     (if env_local env (rp_guid reader)
      then
        let (h, w) = s; change' = related_identity change;
            h = h\<lparr>m_changes := map (\<lambda>c. if c = change then change' else c) (m_changes h)\<rparr>
        in (env_deliver env (rp_guid reader) change', change', h, sw_emit [Local_data (rp_guid reader) change'] w)
      else (False, change, s))"

definition deliver_to_local_reader ::
  "'loc sw_env \<Rightarrow> nat \<Rightarrow> CacheChange_t \<times> 'loc sw_state \<Rightarrow> CacheChange_t \<times> 'loc sw_state" where
  "deliver_to_local_reader env i cs =
     (let (change, h, w) = cs; reader = matched_local_readers w ! i; seq = cc_sequenceNumber change;
          (unsent, _, gap_seq, _) = change_is_unsent seq 0 0 (get_seq_num_min h) False reader
      in if unsent
         then
           let (reader, w) =
                 (if SN_UNKNOWN \<noteq> gap_seq
                  then (acked_changes_set h (sw_guid w) seq reader, intraprocess_gap env reader gap_seq seq w)
                  else (reader, w));
               (delivered, change, h, w) = intraprocess_delivery env change reader (h, w);
               (reader, w) =
                 (if \<not> rp_is_reliable reader then (acked_changes_set h (sw_guid w) (seq + 1) reader, w)
                  else (from_unsent_to_status h (sw_guid w) seq (if delivered then ACKNOWLEDGED else UNACKNOWLEDGED)
                          False delivered reader,
                        intraprocess_heartbeat env h reader False w))
           in (change, h, w\<lparr>matched_local_readers := (matched_local_readers w)[i := reader]\<rparr>)
         else cs)"

definition deliver_sample_to_intraprocesses ::
  "'loc sw_env \<Rightarrow> CacheChange_t \<Rightarrow> 'loc sw_state \<Rightarrow> CacheChange_t \<times> 'loc sw_state" where
  "deliver_sample_to_intraprocesses env change s =
     fold (deliver_to_local_reader env) [0..<length (matched_local_readers (snd s))] (change, s)"

definition deliver_to_datasharing_reader ::
  "WriterHistory \<Rightarrow> GUID_t \<Rightarrow> int \<Rightarrow> 'loc ReaderProxy \<Rightarrow> bool \<times> 'loc ReaderProxy" where
  "deliver_to_datasharing_reader h guid seq reader =
     (let (unsent, _) = change_is_unsent seq 0 0 (get_seq_num_min h) False reader
      in if unsent
         then (True, if \<not> rp_is_reliable reader then acked_changes_set h guid (seq + 1) reader
                     else from_unsent_to_status h guid seq UNACKNOWLEDGED False False reader)
         else (False, reader))"

definition deliver_sample_to_datasharing ::
  "WriterHistory \<Rightarrow> CacheChange_t \<Rightarrow> 'loc StatefulWriter \<Rightarrow> 'loc StatefulWriter" where
  "deliver_sample_to_datasharing h change w =
     (let answers = map (deliver_to_datasharing_reader h (sw_guid w) (cc_sequenceNumber change))
                      (matched_datasharing_readers w)
      in sw_emit (map (\<lambda>(_, reader). Datasharing_notify (rp_guid reader)) (filter fst answers))
           (w\<lparr>matched_datasharing_readers := map snd answers\<rparr>))"

subsection \<open>Delivery to the network\<close>

datatype DeliveryRetCode = DELIVERED | NOT_DELIVERED | EXCEEDED_LIMIT

text \<open>
  What the message group does with a message: it takes it, refuses it or throws one of its two
  exceptions. \<open>net_locators\<close> is the number of locators selected for a set of readers, \<open>net_bytes\<close> the bytes
  a group has processed, \<open>net_ack_pending\<close> whether time remains on the acknowledgement timer.
\<close>

datatype send_result = Accepted | Refused | Timed_out | Limit_exceeded

record net =
  net_result :: "sw_msg \<Rightarrow> send_result"
  net_locators :: "GUID_t list \<Rightarrow> nat"
  net_bytes :: "sw_msg list \<Rightarrow> nat"
  net_ack_pending :: bool
  net_now :: Time_t

text \<open>
  The variables of one round: the first reader with the smallest unsent fragment, that fragment, the
  active readers and their identifiers (the enabled entries of the selector), the flags.
\<close>

record scan =
  sc_first :: nat
  sc_min :: u32
  sc_active :: "nat list"
  sc_enabled :: "GUID_t list"
  sc_inline_qos :: bool
  sc_should_be_sent :: bool
  sc_gap_for_all :: int
  sc_reactivate :: bool

definition scan_gap_for_all :: "WriterHistory \<Rightarrow> GUID_t \<Rightarrow> CacheChange_t \<Rightarrow> int \<Rightarrow> int \<Rightarrow> int" where
  "scan_gap_for_all h guid change gap_seq gap_for_all =
     (if SN_UNKNOWN = gap_for_all
      then
        let chit = find_change_nts (wh_matches_change guid) change h
        in if chit = 0 then gap_seq
           else if cc_sequenceNumber (m_changes h ! (chit - 1)) + 1 = gap_seq then gap_seq else gap_for_all
      else gap_for_all)"

definition scan_reader ::
  "WriterHistory \<Rightarrow> CacheChange_t \<Rightarrow> nat \<Rightarrow> scan \<times> 'loc StatefulWriter \<Rightarrow> scan \<times> 'loc StatefulWriter" where
  "scan_reader h change i scw =
     (let (sc, w) = scw; reader = matched_remote_readers w ! i; seq = cc_sequenceNumber change;
          (unsent, next_unsent_frag, gap_seq, reactivate) =
            change_is_unsent seq 0 0 (get_seq_num_min h) (sc_reactivate sc) reader;
          sc = sc\<lparr>sc_reactivate := reactivate\<rparr>
      in if unsent \<and> (cc_fragment_count change = 0 \<or> sc_min sc \<ge> next_unsent_frag)
         then
           let sc = (if sc_min sc > next_unsent_frag
                     then sc\<lparr>sc_first := i, sc_min := next_unsent_frag, sc_enabled := []\<rparr> else sc);
               sc = sc\<lparr>sc_active := i # sc_active sc, sc_enabled := sc_enabled sc @ [rp_guid reader],
                       sc_inline_qos := sc_inline_qos sc \<or> rp_expects_inline_qos reader, sc_should_be_sent := True\<rparr>
           in if SN_UNKNOWN \<noteq> gap_seq
              then
                let sc = sc\<lparr>sc_gap_for_all := scan_gap_for_all h (sw_guid w) change gap_seq (sc_gap_for_all sc)\<rparr>
                in if sc_gap_for_all sc \<noteq> gap_seq
                   then (sc, send_heartbeat_nts h [rp_guid reader] 1 (disable_positive_acks w) False
                               (sw_emit [Gap [rp_guid reader] gap_seq (br_init int_items seq)] w))
                   else (sc, w)
              else (sc, w)
         else (sc\<lparr>sc_active := filter ((\<noteq>) i) (sc_active sc)\<rparr>, w))"

text \<open>What happens to a proxy after a DATA or DATA_FRAG for its reader was added to the group.\<close>

definition reader_after_sent ::
  "WriterHistory \<Rightarrow> GUID_t \<Rightarrow> CacheChange_t \<Rightarrow> u32 \<Rightarrow> 'loc ReaderProxy \<Rightarrow> 'loc ReaderProxy option" where
  "reader_after_sent h guid change frag reader =
     (let seq = cc_sequenceNumber change;
          done = (\<lambda>reader. if \<not> rp_is_reliable reader then acked_changes_set h guid (seq + 1) reader
                           else from_unsent_to_status h guid seq UNDERWAY True False reader)
      in if 0 < cc_fragment_count change
         then do {
           (_, allFragmentsSent, reader) \<leftarrow> mark_fragment_as_sent_for_change seq frag reader;
           Some (if allFragmentsSent then done reader else reader) }
         else Some (done reader))"

fun readers_after_sent ::
  "WriterHistory \<Rightarrow> CacheChange_t \<Rightarrow> u32 \<Rightarrow> nat list \<Rightarrow> 'loc StatefulWriter \<Rightarrow> 'loc StatefulWriter option" where
  "readers_after_sent h change frag [] w = Some w"
| "readers_after_sent h change frag (i # is) w = do {
     reader \<leftarrow> reader_after_sent h (sw_guid w) change frag (matched_remote_readers w ! i);
     readers_after_sent h change frag is
       (w\<lparr>matched_remote_readers := (matched_remote_readers w)[i := reader]\<rparr>) }"

definition send_heartbeat_piggyback_nts ::
  "net \<Rightarrow> WriterHistory \<Rightarrow> 'loc StatefulWriter \<Rightarrow> 'loc StatefulWriter" where
  "send_heartbeat_piggyback_nts net h w =
     (if \<not> disable_heartbeat_piggyback w
      then
        let all = all_remote_readers w
        in if m_isHistoryFull h \<or> next_all_acked_notify_sequence w < get_seq_num_min h
           then send_heartbeat_nts h all (length all) (disable_positive_acks w) False w
           else
             let w = w\<lparr>currentUsageSendBufferSize :=
                       sint ((of_int (currentUsageSendBufferSize w) :: u32) - of_nat (net_bytes net (sw_out w)))\<rparr>
             in if currentUsageSendBufferSize w < 0
                then send_heartbeat_nts h all (length all) (disable_positive_acks w) False w
                else w
      else w)"

definition code_of :: "send_result \<Rightarrow> DeliveryRetCode" where
  "code_of r = (case r of Accepted \<Rightarrow> DELIVERED | Refused \<Rightarrow> NOT_DELIVERED | Timed_out \<Rightarrow> NOT_DELIVERED
                        | Limit_exceeded \<Rightarrow> EXCEEDED_LIMIT)"

text \<open>The message for the sample, none if all fragments have been sent.\<close>

definition data_message :: "CacheChange_t \<Rightarrow> u32 \<Rightarrow> bool \<Rightarrow> GUID_t list \<Rightarrow> sw_msg option" where
  "data_message change frag inline_qos dests =
     (if 0 < cc_fragment_count change
      then if frag \<noteq> of_nat (cc_fragment_count change) + 1
           then Some (Data_frag dests (cc_sequenceNumber change) frag inline_qos) else None
      else Some (Data dests (cc_sequenceNumber change) inline_qos))"

text \<open>One sending to all selected locators; the active readers from the first one on are served.\<close>

definition send_to_selected ::
  "net \<Rightarrow> WriterHistory \<Rightarrow> CacheChange_t \<Rightarrow> scan \<Rightarrow> 'loc StatefulWriter \<Rightarrow>
   (DeliveryRetCode \<times> 'loc StatefulWriter) option" where
  "send_to_selected net h change sc w =
     (if net_locators net (sc_enabled sc) > 0
      then
        case data_message change (sc_min sc) (sc_inline_qos sc) (sc_enabled sc) of
          Some msg \<Rightarrow>
            (case net_result net msg of
               Accepted \<Rightarrow> do {
                 w \<leftarrow> readers_after_sent h change (sc_min sc)
                       (filter (\<lambda>i. i \<in> set (sc_active sc)) [sc_first sc..<length (matched_remote_readers w)])
                       (sw_emit [msg] w);
                 Some (DELIVERED, send_heartbeat_piggyback_nts net h w) }
             | Refused \<Rightarrow> Some (NOT_DELIVERED, send_heartbeat_piggyback_nts net h w)
             | r \<Rightarrow> Some (code_of r, w))
        | None \<Rightarrow> Some (DELIVERED, send_heartbeat_piggyback_nts net h w)
      else Some (DELIVERED, w))"

text \<open>
  Separate sending, one reader after the other. An exception leaves the loop, a refusal does not but
  stays in the return code.
\<close>

fun send_separately ::
  "net \<Rightarrow> WriterHistory \<Rightarrow> CacheChange_t \<Rightarrow> scan \<Rightarrow> nat list \<Rightarrow> DeliveryRetCode \<times> 'loc StatefulWriter \<Rightarrow>
   (DeliveryRetCode \<times> 'loc StatefulWriter) option" where
  "send_separately net h change sc [] rw = Some rw"
| "send_separately net h change sc (i # is) rw =
     (let (ret, w) = rw; reader = matched_remote_readers w ! i;
          inline_qos = (if 0 < cc_fragment_count change then sc_inline_qos sc else rp_expects_inline_qos reader);
          heartbeat = send_heartbeat_nts h [rp_guid reader] 1 False False
      in case data_message change (sc_min sc) inline_qos [rp_guid reader] of
           Some msg \<Rightarrow>
             (case net_result net msg of
                Accepted \<Rightarrow> do {
                  w \<leftarrow> readers_after_sent h change (sc_min sc) [i] (sw_emit [msg] w);
                  send_separately net h change sc is (ret, heartbeat w) }
              | Refused \<Rightarrow> send_separately net h change sc is (NOT_DELIVERED, heartbeat w)
              | r \<Rightarrow> Some (code_of r, w))
         | None \<Rightarrow> send_separately net h change sc is (ret, heartbeat w))"

definition scan_readers ::
  "WriterHistory \<Rightarrow> CacheChange_t \<Rightarrow> bool \<Rightarrow> 'loc StatefulWriter \<Rightarrow> scan \<times> 'loc StatefulWriter" where
  "scan_readers h change reactivate w =
     fold (scan_reader h change) [0..<length (matched_remote_readers w)]
       (\<lparr>sc_first = 0, sc_min = of_nat (cc_fragment_count change) + 1, sc_active = [], sc_enabled = [],
         sc_inline_qos = False, sc_should_be_sent = False, sc_gap_for_all = SN_UNKNOWN,
         sc_reactivate = reactivate\<rparr>, w)"

definition network_round ::
  "net \<Rightarrow> WriterHistory \<Rightarrow> CacheChange_t \<Rightarrow> bool \<Rightarrow> 'loc StatefulWriter \<Rightarrow>
   (DeliveryRetCode \<times> u32 \<times> bool \<times> 'loc StatefulWriter) option" where
  "network_round net h change reactivate w =
     (let (sc, w) = scan_readers h change reactivate w;
          w = (if SN_UNKNOWN \<noteq> sc_gap_for_all sc
               then sw_emit [Gap (sc_enabled sc) (sc_gap_for_all sc) (br_init int_items (cc_sequenceNumber change))] w
               else w)
      in do {
        (ret, w) \<leftarrow>
          if sc_should_be_sent sc
          then if \<not> separate_sending_enabled w then send_to_selected net h change sc w
               else send_separately net h change sc
                      (filter (\<lambda>i. i \<in> set (sc_active sc)) [sc_first sc..<length (matched_remote_readers w)])
                      (DELIVERED, w)
          else Some (DELIVERED, w);
        let w = (if disable_positive_acks w \<and> sw_last_sequence_number w = 0
                 then let w = w\<lparr>sw_last_sequence_number := cc_sequenceNumber change\<rparr>
                      in if \<not> net_ack_pending net
                         then w\<lparr>ack_event := restart_timer ((ack_event w)
                                  \<lparr>te_interval := ack_interval (net_now net) change w\<rparr>)\<rparr>
                         else w
                 else w);
        Some (ret, sc_min sc, sc_reactivate sc, w) })"

partial_function (option) network_loop ::
  "net \<Rightarrow> WriterHistory \<Rightarrow> CacheChange_t \<Rightarrow> bool \<Rightarrow> 'loc StatefulWriter \<Rightarrow>
   (DeliveryRetCode \<times> bool \<times> 'loc StatefulWriter) option" where
  "network_loop net h change reactivate w = do {
     (ret, min_unsent_fragment, reactivate, w) \<leftarrow> network_round net h change reactivate w;
     if ret = DELIVERED \<and> min_unsent_fragment \<noteq> of_nat (cc_fragment_count change) + 1
     then network_loop net h change reactivate w else Some (ret, reactivate, w) }"

definition deliver_sample_to_network ::
  "net \<Rightarrow> WriterHistory \<Rightarrow> CacheChange_t \<Rightarrow> 'loc StatefulWriter \<Rightarrow>
   (DeliveryRetCode \<times> 'loc StatefulWriter) option" where
  "deliver_sample_to_network net h change w =
     (if 0 \<noteq> (of_nat (cc_fragment_count change) + 1 :: u32)
      then do {
        (ret, reactivate, w) \<leftarrow> network_loop net h change False w;
        Some (ret, if reactivate then w\<lparr>periodic_hb_event := restart_timer (periodic_hb_event w)\<rparr> else w) }
      else Some (DELIVERED, w))"

definition deliver_sample_nts ::
  "'loc sw_env \<Rightarrow> net \<Rightarrow> CacheChange_t \<Rightarrow> 'loc sw_state \<Rightarrow> (DeliveryRetCode \<times> 'loc sw_state) option" where
  "deliver_sample_nts env net change s =
     (let (change, h, w) = (if matched_local_readers (snd s) \<noteq> [] then deliver_sample_to_intraprocesses env change s
                            else (change, s));
          w = (if matched_datasharing_readers w \<noteq> [] then deliver_sample_to_datasharing h change w else w)
      in do {
        (ret, w) \<leftarrow> if matched_remote_readers w \<noteq> [] then deliver_sample_to_network net h change w
                    else Some (DELIVERED, w);
        s \<leftarrow> check_acked_status env (h, w);
        Some (ret, s) })"

subsection \<open>Matching\<close>

text \<open>
  The first flag is the result, the second whether the listener hears of a changed (\<open>Some True\<close>) or new
  (\<open>Some False\<close>) reader. \<open>nack_interval\<close> and \<open>notifier\<close> are those of the constructor of a proxy.
\<close>

definition late_joiner_sample ::
  "'loc sw_env \<Rightarrow> CacheChange_t \<Rightarrow> sw_msg list \<times> 'loc ReaderProxy \<Rightarrow> sw_msg list \<times> 'loc ReaderProxy" where
  "late_joiner_sample env change acc =
     (let (msgs, rp) = acc
      in if rtps_is_relevant env change rp
         then if is_local_reader rp
              then (msgs @ [Add_old_sample (cc_sequenceNumber change)],
                    rp_add_change (ChangeForReader change) True False rp)
              else (msgs, rp_add_change ((ChangeForReader change)\<lparr>cfr_status := UNACKNOWLEDGED\<rparr>) True False rp)
         else acc)"

definition push_matched_reader :: "'loc ReaderProxy \<Rightarrow> 'loc StatefulWriter \<Rightarrow> 'loc StatefulWriter" where
  "push_matched_reader rp w =
     (if is_local_reader rp then w\<lparr>matched_local_readers := matched_local_readers w @ [rp]\<rparr>
      else if is_datasharing_reader (locator_info rp)
      then w\<lparr>matched_datasharing_readers := matched_datasharing_readers w @ [rp]\<rparr>
      else w\<lparr>matched_remote_readers := matched_remote_readers w @ [rp]\<rparr>)"

definition durable :: "DurabilityKind_t \<Rightarrow> bool" where
  "durable k \<longleftrightarrow> k \<noteq> VOLATILE"

text \<open>The proxy of a new reader and the messages for it, before it is stored.\<close>

definition greet_reader ::
  "'loc sw_env \<Rightarrow> WriterHistory \<Rightarrow> 'loc ReaderProxy \<Rightarrow> 'loc StatefulWriter \<Rightarrow>
   'loc ReaderProxy \<times> 'loc StatefulWriter" where
  "greet_reader env h rp w =
     (if is_datasharing_reader (locator_info rp) then (rp, w)
      else if rp_is_reliable rp
      then
        let (rp, w) =
              (if get_seq_num_min h \<noteq> SN_UNKNOWN
               then
                 let (msgs, rp) =
                       (if durable (durability_kind rp) \<and> durable (sw_durability w)
                        then fold (late_joiner_sample env) (m_changes h) ([], rp)
                        else if is_local_reader rp
                        then (if env_local env (rp_guid rp)
                              then [Local_gap (rp_guid rp) (get_seq_num_min h) (next_sequence_number h)] else [], rp)
                        else ([Gap [rp_guid rp] (get_seq_num_min h) (br_init int_items (next_sequence_number h))], rp))
                 in (rp, (sw_emit msgs w)\<lparr>periodic_hb_event := restart_timer (periodic_hb_event w)\<rparr>)
               else (rp, w))
        in (rp, if is_local_reader rp then intraprocess_heartbeat env h rp False w
                else send_heartbeat_nts h [rp_guid rp] 1 (disable_positive_acks w) False w)
      else (acked_changes_set h (sw_guid w) (next_sequence_number h) rp, w))"

definition matched_reader_add_edp ::
  "'loc sw_env \<Rightarrow> IntraprocessDeliveryType \<Rightarrow> int option \<Rightarrow> bool option \<Rightarrow> 'loc ReaderProxyData \<Rightarrow> bool \<Rightarrow>
   'loc sw_state \<Rightarrow> bool \<times> bool option \<times> 'loc sw_state" where
  "matched_reader_add_edp env setting nack_interval notifier rdata datasharing s =
     (let (h, w) = s; i = find_index (\<lambda>reader. guid_eq (rp_guid reader) (rd_guid rdata)) (matched_readers w)
      in if guid_eq (rd_guid rdata) c_Guid_Unknown then (False, None, s)
         else if i < length (matched_readers w)
         then
           let (changed, reader) = rp_update rdata (matched_readers w ! i);
               reader = (if changed then reader\<lparr>locator_info := env_locators env (locator_info reader)\<rparr> else reader)
           in (False, Some True, h, set_matched_reader i reader w)
         else if matched_readers_pool w = [] \<and>
                 \<not> get_matched_readers_size w + length (matched_readers_pool w) < sw_max_readers w
         then (False, None, s)
         else
           let (rp, w) = (if matched_readers_pool w = [] then (rp_init nack_interval notifier, w)
                          else (last (matched_readers_pool w),
                                w\<lparr>matched_readers_pool := butlast (matched_readers_pool w)\<rparr>));
               rp = rp_start h (sw_guid w) setting rdata datasharing rp;
               rp = rp\<lparr>locator_info := env_locators env (locator_info rp)\<rparr>;
               (rp, w) = greet_reader env h rp w
           in (True, Some False, h, push_matched_reader rp w))"

fun remove_reader :: "GUID_t \<Rightarrow> 'loc ReaderProxy list \<Rightarrow> 'loc ReaderProxy option \<times> 'loc ReaderProxy list" where
  "remove_reader reader_guid [] = (None, [])"
| "remove_reader reader_guid (rp # rps) =
     (if guid_eq (rp_guid rp) reader_guid then (Some rp, rps)
      else let (found, rps) = remove_reader reader_guid rps in (found, rp # rps))"

definition matched_reader_remove ::
  "'loc sw_env \<Rightarrow> GUID_t \<Rightarrow> 'loc sw_state \<Rightarrow> (bool \<times> 'loc sw_state) option" where
  "matched_reader_remove env reader_guid s =
     (let (h, w) = s;
          (rproxy, rps) = remove_reader reader_guid (matched_local_readers w);
          w = w\<lparr>matched_local_readers := rps\<rparr>;
          (rproxy, w) =
            (if rproxy = None
             then let (rproxy, rps) = remove_reader reader_guid (matched_datasharing_readers w)
                  in (rproxy, w\<lparr>matched_datasharing_readers := rps\<rparr>)
             else (rproxy, w));
          (rproxy, w) =
            (if rproxy = None
             then let (rproxy, rps) = remove_reader reader_guid (matched_remote_readers w)
                  in (rproxy, w\<lparr>matched_remote_readers := rps\<rparr>)
             else (rproxy, w));
          w = (if get_matched_readers_size w = 0
               then w\<lparr>periodic_hb_event := cancel_timer (periodic_hb_event w)\<rparr> else w)
      in case rproxy of
           Some rp \<Rightarrow> do {
             s \<leftarrow> check_acked_status env (h, w\<lparr>matched_readers_pool := matched_readers_pool w @ [rp_stop rp]\<rparr>);
             Some (True, s) }
         | None \<Rightarrow> Some (False, h, w))"

definition matched_reader_lookup :: "GUID_t \<Rightarrow> 'loc StatefulWriter \<Rightarrow> 'loc ReaderProxy option" where
  "matched_reader_lookup readerGuid w = List.find (\<lambda>reader. guid_eq (rp_guid reader) readerGuid) (matched_readers w)"

definition matched_reader_is_matched :: "GUID_t \<Rightarrow> 'loc StatefulWriter \<Rightarrow> bool" where
  "matched_reader_is_matched reader_guid w \<longleftrightarrow>
     list_ex (\<lambda>reader. guid_eq (rp_guid reader) reader_guid) (matched_readers w)"

text \<open>The proxies in the order they are stopped and given back to the pool.\<close>

definition sw_local_actions_on_writer_removed :: "'loc sw_state \<Rightarrow> 'loc sw_state" where
  "sw_local_actions_on_writer_removed s =
     (let (h, w) = s
      in (h\<lparr>m_changes := []\<rparr>,
          w\<lparr>matched_local_readers := [], matched_datasharing_readers := [], matched_remote_readers := [],
            matched_readers_pool := matched_readers_pool w @ map rp_stop
              (rev (matched_remote_readers w) @ rev (matched_local_readers w) @ rev (matched_datasharing_readers w))\<rparr>))"

subsection \<open>Timers\<close>

definition update_nack_supression :: "int \<Rightarrow> 'loc StatefulWriter \<Rightarrow> 'loc StatefulWriter" where
  "update_nack_supression interval w =
     (let w = map_matched_readers (update_nack_supression_interval interval) w
      in w\<lparr>matched_readers_pool := map (update_nack_supression_interval interval) (matched_readers_pool w)\<rparr>)"

text \<open>
  The skipping loop of \<open>ack_timer_expired\<close>: the next number that is in the history or no longer below the
  next one to be given out.
\<close>

function next_to_ack :: "WriterHistory \<Rightarrow> GUID_t \<Rightarrow> int \<Rightarrow> int" where
  "next_to_ack h guid n =
     (if get_change (n + 1) guid h = None \<and> n + 1 < next_sequence_number h then next_to_ack h guid (n + 1) else n + 1)"
  by pat_completeness auto
termination
  by (relation "measure (\<lambda>(h, guid, n). nat (next_sequence_number h - n))") auto

definition acks_without_reply :: "'loc sw_env \<Rightarrow> 'loc sw_state \<Rightarrow> 'loc sw_state option" where
  "acks_without_reply env s =
     (let (h, w) = s; acks_flag = list_ex rp_disable_positive_acks (matched_readers w);
          w = map_matched_readers (\<lambda>reader. if rp_disable_positive_acks reader
                then acked_changes_set h (sw_guid w) (sw_last_sequence_number w + 1) reader else reader) w
      in if acks_flag then check_acked_status env (h, w) else Some (h, w))"

text \<open>\<open>now\<close> is the sequence of the clock's readings, one for each iteration.\<close>

fun ack_timer_expired ::
  "'loc sw_env \<Rightarrow> Time_t list \<Rightarrow> 'loc sw_state \<Rightarrow> (bool \<times> 'loc sw_state) option" where
  "ack_timer_expired env [] s = None"
| "ack_timer_expired env (now # later) s = do {
     (h, w) \<leftarrow> acks_without_reply env s;
     let w = w\<lparr>sw_last_sequence_number := next_to_ack h (sw_guid w) (sw_last_sequence_number w)\<rparr>;
     case get_change (sw_last_sequence_number w) (sw_guid w) h of
       None \<Rightarrow> Some (False, h, w)
     | Some change \<Rightarrow>
         if time_lt (time_add (cc_sourceTimestamp change) (sw_keep_duration w)) now
         then ack_timer_expired env later (h, w)
         else Some (True, h, w\<lparr>ack_event := (ack_event w)\<lparr>te_interval := ack_interval now change w\<rparr>\<rparr>) }"

end
