(* ===== verification/StatefulWriterInv.thy ===== *)
theory StatefulWriterInv
  imports StatefulWriter
begin

text \<open>
  The invariant of the reliable writer, \<open>sw_inv\<close>, operation by operation: every proxy holds samples of the
  history in order and above its low mark, no low mark is beyond the last number given out, a proxy
  in the pool holds nothing. What a listener that is called from a loop over the history must
  respect is the locale \<open>sw_listener\<close>.
\<close>

subsection \<open>Abstraction and invariants\<close>

text \<open>A proxy fits its writer's history: in order within it, the mark not above the last number.\<close>

definition reader_good :: "WriterHistory \<Rightarrow> 'loc ReaderProxy \<Rightarrow> bool" where
  "reader_good h rp \<longleftrightarrow> rp_ok h rp \<and> 0 \<le> changes_low_mark rp \<and> changes_low_mark rp \<le> m_lastCacheChangeSeqNum h"

definition history_good :: "GUID_t \<Rightarrow> WriterHistory \<Rightarrow> bool" where
  "history_good g h \<longleftrightarrow> wh_inv g h \<and> guid_wf g \<and> h_attached h \<and> 0 \<le> m_lastCacheChangeSeqNum h \<and>
     (\<forall>c\<in>set (m_changes h). 0 < cc_sequenceNumber c)"

definition sw_inv :: "'loc sw_state \<Rightarrow> bool" where
  "sw_inv s \<longleftrightarrow> history_good (sw_guid (snd s)) (fst s) \<and>
     (\<forall>rp\<in>set (matched_readers (snd s)). reader_good (fst s) rp) \<and>
     (\<forall>rp\<in>set (matched_readers_pool (snd s)). changes_for_reader rp = [] \<and> changes_low_mark rp = 0)"

text \<open>The part of the writer the invariant is about; counters, timers and messages are not in it.\<close>

definition readers_of :: "'loc StatefulWriter \<Rightarrow> GUID_t \<times> 'loc ReaderProxy list \<times> 'loc ReaderProxy list" where
  "readers_of w = (sw_guid w, matched_readers w, matched_readers_pool w)"

definition pushed :: "CacheChange_t \<Rightarrow> WriterHistory \<Rightarrow> WriterHistory \<Rightarrow> bool" where
  "pushed c h h' \<longleftrightarrow> m_changes h' = m_changes h @ [c] \<and> m_lastCacheChangeSeqNum h' = m_lastCacheChangeSeqNum h + 1 \<and>
     cc_sequenceNumber c = m_lastCacheChangeSeqNum h + 1"

subsection \<open>Laws\<close>

lemma readers_of_inv: "sw_inv (h, w) \<Longrightarrow> readers_of w' = readers_of w \<Longrightarrow> sw_inv (h, w')"
  by (simp add: sw_inv_def readers_of_def)

lemma sw_emit_same [simp]: "readers_of (sw_emit ms w) = readers_of w"
  by (simp add: readers_of_def sw_emit_def matched_readers_def)

lemma readers_of_update [simp]:
  "readers_of (w\<lparr>periodic_hb_event := t\<rparr>) = readers_of w"
  "readers_of (w\<lparr>nack_response_event := t\<rparr>) = readers_of w"
  "readers_of (w\<lparr>ack_event := t\<rparr>) = readers_of w"
  "readers_of (w\<lparr>heartbeat_count := n\<rparr>) = readers_of w"
  "readers_of (w\<lparr>next_all_acked_notify_sequence := i\<rparr>) = readers_of w"
  "readers_of (w\<lparr>min_readers_low_mark := i\<rparr>) = readers_of w"
  "readers_of (w\<lparr>all_acked := b\<rparr>) = readers_of w"
  "readers_of (w\<lparr>may_remove_change := n\<rparr>) = readers_of w"
  "readers_of (w\<lparr>sw_last_sequence_number := i\<rparr>) = readers_of w"
  "readers_of (w\<lparr>biggest_removed_sequence_number := i\<rparr>) = readers_of w"
  "readers_of (w\<lparr>currentUsageSendBufferSize := i\<rparr>) = readers_of w"
  by (simp_all add: readers_of_def matched_readers_def)

lemma increment_hb_count_same [simp]: "readers_of (increment_hb_count w) = readers_of w"
  by (simp add: increment_hb_count_def)

lemma intraprocess_gap_same [simp]: "readers_of (intraprocess_gap env rp a b w) = readers_of w"
  by (simp add: intraprocess_gap_def)

lemma intraprocess_heartbeat_same [simp]: "readers_of (intraprocess_heartbeat env h rp l w) = readers_of w"
  by (simp add: intraprocess_heartbeat_def Let_def split: prod.split)

lemma send_heartbeat_nts_same [simp]: "readers_of (send_heartbeat_nts h d n f l w) = readers_of w"
  by (simp add: send_heartbeat_nts_def Let_def)

lemma piggyback_same [simp]: "readers_of (send_heartbeat_piggyback_nts net h w) = readers_of w"
  by (simp add: send_heartbeat_piggyback_nts_def Let_def)

lemma holes_same: "add_gaps_for_holes_in_history env h d w = Some w' \<Longrightarrow> readers_of w' = readers_of w"
  by (auto simp: add_gaps_for_holes_in_history_def Let_def bind_eq_Some_conv split: if_splits)

lemma send_heartbeat_to_nts_same: "send_heartbeat_to_nts env h rp l f w = Some w' \<Longrightarrow> readers_of w' = readers_of w"
  by (auto simp: send_heartbeat_to_nts_def bind_eq_Some_conv dest: holes_same split: if_splits)

lemma fold_same:
  assumes "\<And>x w. readers_of (f x w) = readers_of w"
  shows "readers_of (fold f xs w) = readers_of w"
  by (induction xs arbitrary: w) (simp_all add: assms)

lemma each_reader_same:
  assumes "each_reader f rps w = Some w'" "\<And>rp w w'. f rp w = Some w' \<Longrightarrow> readers_of w' = readers_of w"
  shows "readers_of w' = readers_of w"
  using assms(1)
proof (induction rps arbitrary: w)
  case (Cons rp rps)
  then obtain w1 where "f rp w = Some w1" "each_reader f rps w1 = Some w'" by (auto simp: bind_eq_Some_conv)
  then show ?case using Cons.IH assms(2) by metis
qed simp

lemma fold_heartbeat_same [simp]:
  "readers_of (fold (\<lambda>rp. intraprocess_heartbeat env h rp l) rps w) = readers_of w"
  by (rule fold_same) simp

lemma send_heartbeat_to_all_same: "send_heartbeat_to_all_readers env h w = Some w' \<Longrightarrow> readers_of w' = readers_of w"
  by (auto simp: send_heartbeat_to_all_readers_def Let_def bind_eq_Some_conv split: if_splits
      dest: holes_same each_reader_same [OF _ send_heartbeat_to_nts_same])

lemma send_periodic_heartbeat_same:
  assumes "send_periodic_heartbeat env h f l w = Some (b, w')"
  shows "readers_of w' = readers_of w"
  using assms unfolding send_periodic_heartbeat_def Let_def
  by (auto split: if_splits dest: send_heartbeat_to_all_same each_reader_same [OF _ send_heartbeat_to_nts_same])

subsection \<open>Proxies within the history\<close>

lemma acked_run_last: "acked_run s cs = (f, cs') \<Longrightarrow> f = s \<or> f - 1 \<in> cfr_seq_num ` set cs"
proof (induction s cs rule: acked_run.induct)
  case (2 s c cs)
  show ?case
  proof (cases "cfr_seq_num c = s \<and> cfr_status c = ACKNOWLEDGED")
    case True
    then have "f = s + 1 \<or> f - 1 \<in> cfr_seq_num ` set cs" using 2 by auto
    then show ?thesis using True by auto
  qed (use 2(2) in \<open>auto split: if_splits\<close>)
qed simp

lemma acked_mark_bound:
  assumes "changes_low_mark rp < s"
  shows "changes_low_mark (acked_changes_set h g s rp) = s - 1 \<or>
    changes_low_mark (acked_changes_set h g s rp) \<in> cfr_seq_num ` set (changes_for_reader rp)"
proof -
  let ?cs = "changes_for_reader rp"
  obtain f cs' where r: "acked_run s (drop (find_change_lb s ?cs) ?cs) = (f, cs')" by fastforce
  then have "changes_low_mark (acked_changes_set h g s rp) = f - 1" using assms by (simp add: acked_changes_set_def)
  moreover have "f = s \<or> f - 1 \<in> cfr_seq_num ` set ?cs"
    using acked_run_last [OF r] set_drop_subset [of "find_change_lb s ?cs" ?cs] by auto
  ultimately show ?thesis by auto
qed

lemma history_goodD:
  assumes "history_good g h"
  shows "wh_inv g h" "guid_wf g" "h_attached h" "0 \<le> m_lastCacheChangeSeqNum h"
    "c \<in> set (m_changes h) \<Longrightarrow> 0 < cc_sequenceNumber c"
    "c \<in> set (m_changes h) \<Longrightarrow> cc_sequenceNumber c \<le> m_lastCacheChangeSeqNum h"
  using assms by (auto simp: history_good_def wh_inv_def)

lemma reader_good_held:
  assumes "history_good g h" "reader_good h rp" "c \<in> set (changes_for_reader rp)"
  shows "0 < cfr_seq_num c" "cfr_seq_num c \<le> m_lastCacheChangeSeqNum h" "changes_low_mark rp < cfr_seq_num c"
proof -
  have "cfr_seq_num c \<in> cc_sequenceNumber ` set (m_changes h)"
    using assms(2,3) by (auto simp: reader_good_def rp_ok_def rp_in_history_def)
  then show "0 < cfr_seq_num c" "cfr_seq_num c \<le> m_lastCacheChangeSeqNum h"
    using history_goodD(5,6) [OF assms(1)] by auto
  show "changes_low_mark rp < cfr_seq_num c" using assms(2,3) by (auto simp: reader_good_def rp_ok_def rp_inv_def)
qed

lemma reader_good_same:
  assumes "reader_good h rp" "changes_for_reader rp' = changes_for_reader rp" "changes_low_mark rp' = changes_low_mark rp"
  shows "reader_good h rp'"
  using assms rp_ok_same [OF _ assms(2,3)] by (simp add: reader_good_def)

lemma get_seq_num_min_known:
  assumes "history_good g h"
  shows "get_seq_num_min h = SN_UNKNOWN \<longleftrightarrow> m_changes h = []"
    "m_changes h \<noteq> [] \<Longrightarrow> 0 < get_seq_num_min h \<and> get_seq_num_min h \<le> m_lastCacheChangeSeqNum h"
proof -
  have hd: "0 < cc_sequenceNumber (hd (m_changes h)) \<and> cc_sequenceNumber (hd (m_changes h)) \<le> m_lastCacheChangeSeqNum h"
    if "m_changes h \<noteq> []" using history_goodD(5,6) [OF assms] that by simp
  then show "get_seq_num_min h = SN_UNKNOWN \<longleftrightarrow> m_changes h = []"
    by (auto simp: get_seq_num_min_def get_min_change_def SN_UNKNOWN_def)
  show "m_changes h \<noteq> [] \<Longrightarrow> 0 < get_seq_num_min h \<and> get_seq_num_min h \<le> m_lastCacheChangeSeqNum h"
    using hd by (simp add: get_seq_num_min_def get_min_change_def)
qed

lemma reader_good_acked:
  assumes "history_good g h" "reader_good h rp" "s \<le> m_lastCacheChangeSeqNum h + 1"
  shows "reader_good h (acked_changes_set h g s rp)"
proof -
  note hg = history_goodD [OF assms(1)]
  have ok: "rp_ok h (acked_changes_set h g s rp)"
    using assms(2) hg(1-3) by (intro rp_ok_acked) (simp_all add: reader_good_def)
  consider (ahead) "changes_low_mark rp < s" | (old) "\<not> changes_low_mark rp < s" "s \<noteq> 0 \<or> durability_kind rp = VOLATILE"
    | (zero) "\<not> changes_low_mark rp < s" "s = 0" "durability_kind rp \<noteq> VOLATILE" by blast
  then have "0 \<le> changes_low_mark (acked_changes_set h g s rp) \<and>
      changes_low_mark (acked_changes_set h g s rp) \<le> m_lastCacheChangeSeqNum h"
  proof cases
    case ahead
    then show ?thesis
      using acked_mark_bound [OF ahead, of h g] reader_good_held [OF assms(1,2)] assms(2,3)
      by (fastforce simp: reader_good_def)
  next
    case old
    then show ?thesis using assms(2) by (simp add: acked_changes_set_old reader_good_def)
  next
    case zero
    note ok1 = rp_okD(1,2) [of h rp]
    show ?thesis
    proof (cases "get_seq_num_min h = SN_UNKNOWN")
      case True
      then show ?thesis using zero assms(2) hg(4)
        by (simp add: acked_changes_set_def reader_good_def next_sequence_number_def)
    next
      case False
      then have "m_changes h \<noteq> []" using get_seq_num_min_known(1) [OF assms(1)] by simp
      moreover have "changes_low_mark (acked_changes_set h g 0 rp) = get_seq_num_min h - 1"
        using acked_changes_set_resend [OF ok1 hg(1-3) _ _ False] zero assms(2) by (auto simp: reader_good_def)
      ultimately show ?thesis using get_seq_num_min_known(2) [OF assms(1)] zero(2) by simp
    qed
  qed
  then show ?thesis using ok by (simp add: reader_good_def)
qed

lemma reader_good_from_unsent:
  assumes "history_good g h" "reader_good h rp" "s \<le> m_lastCacheChangeSeqNum h"
  shows "reader_good h (from_unsent_to_status h g s st restart delivered rp)"
proof -
  define rp1 where "rp1 = (if restart \<and> is_remote_and_reliable rp
    then rp\<lparr>nack_supression_event := map_option restart_timer (nack_supression_event rp)\<rparr> else rp)"
  have good: "reader_good h rp1" by (rule reader_good_same [OF assms(2)]) (simp_all add: rp1_def)
  have er: "reader_good h (rp1\<lparr>changes_for_reader := erase i (changes_for_reader rp1)\<rparr>)" for i
    using good by (simp add: reader_good_def rp_ok_erase)
  have up: "reader_good h (rp1\<lparr>changes_for_reader := (changes_for_reader rp1)[i := c]\<rparr>)"
    if "cfr_seq_num c = cfr_seq_num (changes_for_reader rp1 ! i)" for i c
    using good rp_ok_update [OF _ that] by (simp add: reader_good_def)
  show ?thesis
    unfolding from_unsent_to_status_def rp1_def [symmetric] Let_def
    using reader_good_acked [OF assms(1) er] up assms(3) by simp
qed

lemma reader_good_removed:
  assumes "history_good g h" "reader_good h rp" "s \<le> m_lastCacheChangeSeqNum h"
  shows "reader_good h (snd (change_has_been_removed h g s rp))"
proof -
  have er: "reader_good h (rp\<lparr>changes_for_reader := erase i (changes_for_reader rp)\<rparr>)" for i
    using assms(2) by (simp add: reader_good_def rp_ok_erase)
  show ?thesis unfolding change_has_been_removed_def Let_def
    using reader_good_acked [OF assms(1) er] er assms(2,3) by simp
qed

lemma reader_good_requested:
  assumes "reader_good h rp" "br_wf sns" "requested_changes_set send sns mn g rp = (b, g', rp')"
  shows "reader_good h rp'"
proof -
  have "distinct (br_for_each int_items sns)"
    using sn.br_for_each_items(2) [OF TrueI assms(2)] by (simp add: strict_sorted_iff)
  note r = requests_spec [OF rp_okD(3) [of h] this]
  have ok: "rp_ok h rp" using assms(1) by (simp add: reader_good_def)
  have "changes_low_mark rp' = changes_low_mark rp"
  proof (cases "SN_UNKNOWN \<noteq> mn")
    case True
    then have "fold (request_change send mn) (br_for_each int_items sns) (False, g, rp) = (b, g', rp')"
      using assms(3) unfolding requested_changes_set_def by (simp del: fold_simps)
    then show ?thesis unfolding r [OF ok] by auto
  qed (use assms(3) in \<open>simp add: requested_changes_set_def\<close>)
  then show ?thesis using rp_ok_requested [OF ok assms(2,3)] assms(1) by (simp add: reader_good_def)
qed

lemma reader_good_convert:
  assumes "reader_good h rp" "convert_status_on_all_changes p q rp = (n, cs, rp')"
  shows "reader_good h rp'"
proof -
  have "changes_low_mark rp' = changes_low_mark rp" using assms(2) by (auto simp: convert_status_on_all_changes_def Let_def)
  then show ?thesis using rp_ok_convert [OF _ assms(2)] assms(1) by (simp add: reader_good_def)
qed

lemma reader_good_nack_frag:
  assumes "reader_good h rp"
  shows "reader_good h (snd (rp_process_nack_frag g n s fs rp))"
proof -
  have "changes_low_mark (snd (rp_process_nack_frag g n s fs rp)) = changes_low_mark rp"
    by (simp add: rp_process_nack_frag_def requested_fragment_set_def Let_def)
  then show ?thesis using assms by (simp add: reader_good_def rp_ok_nack_frag)
qed

lemma reader_good_mark_fragment:
  assumes "reader_good h rp" "mark_fragment_as_sent_for_change s f rp = Some (b, b', rp')"
  shows "reader_good h rp'"
proof -
  have "changes_low_mark rp' = changes_low_mark rp"
    using assms(2) by (auto simp: mark_fragment_as_sent_for_change_def Let_def split: if_splits)
  then show ?thesis using rp_ok_mark_fragment [OF _ assms(2)] assms(1) by (simp add: reader_good_def)
qed

subsection \<open>The invariant of the writer\<close>

lemma sw_invD:
  assumes "sw_inv (h, w)"
  shows "history_good (sw_guid w) h" "rp \<in> set (matched_readers w) \<Longrightarrow> reader_good h rp"
    "rp \<in> set (matched_readers_pool w) \<Longrightarrow> changes_for_reader rp = [] \<and> changes_low_mark rp = 0"
  using assms by (auto simp: sw_inv_def)

lemma sw_inv_nth: "sw_inv (h, w) \<Longrightarrow> i < length (matched_readers w) \<Longrightarrow> reader_good h (matched_readers w ! i)"
  using sw_invD(2) nth_mem by blast

lemma matched_readers_set: "matched_readers (set_matched_reader i rp w) = (matched_readers w)[i := rp]"
  by (auto simp: set_matched_reader_def matched_readers_def list_update_append Let_def less_diff_conv2)

lemma sw_guid_set [simp]: "sw_guid (set_matched_reader i rp w) = sw_guid w"
  "matched_readers_pool (set_matched_reader i rp w) = matched_readers_pool w"
  by (simp_all add: set_matched_reader_def Let_def)

lemma sw_inv_set: "sw_inv (h, w) \<Longrightarrow> reader_good h rp \<Longrightarrow> sw_inv (h, set_matched_reader i rp w)"
  using set_update_subset_insert [of "matched_readers w" i rp] by (auto simp: sw_inv_def matched_readers_set)

lemma matched_readers_map: "matched_readers (map_matched_readers f w) = map f (matched_readers w)"
  by (simp add: map_matched_readers_def matched_readers_def)

lemma sw_guid_map [simp]: "sw_guid (map_matched_readers f w) = sw_guid w"
  "matched_readers_pool (map_matched_readers f w) = matched_readers_pool w"
  by (simp_all add: map_matched_readers_def)

lemma sw_inv_map:
  assumes "sw_inv (h, w)" "\<And>rp. rp \<in> set (matched_readers w) \<Longrightarrow> reader_good h rp \<Longrightarrow> reader_good h (f rp)"
  shows "sw_inv (h, map_matched_readers f w)"
  using assms by (auto simp: sw_inv_def matched_readers_map)

lemma for_readers_inv:
  assumes "for_readers f is s = Some (b, s')" "P s"
    "\<And>i s b s'. i \<in> set is \<Longrightarrow> P s \<Longrightarrow> f i s = Some (b, s') \<Longrightarrow> P s'"
  shows "P s'"
  using assms
proof (induction "is" arbitrary: s)
  case (Cons i "is")
  from Cons.prems(1) obtain stop s1 where f: "f i s = Some (stop, s1)"
    "(if stop then Some (True, s1) else for_readers f is s1) = Some (b, s')"
    by (auto simp: bind_eq_Some_conv)
  have "P s1" using Cons.prems(2,3) f(1) by auto
  then show ?case using f(2) Cons.IH [of s1] Cons.prems(3) by (cases stop) auto
qed simp

lemma removed_gone:
  assumes "rp_ok h rp"
  shows "s \<notin> cfr_seq_num ` set (changes_for_reader (snd (change_has_been_removed h g s rp)))"
proof -
  let ?cs = "changes_for_reader rp" and ?i = "find_change s (changes_for_reader rp)"
  have srt: "cfr_sorted ?cs" by (rule rp_okD(3) [OF assms])
  have early: "s \<notin> cfr_seq_num ` set ?cs" if "?cs = [] \<or> s < cfr_seq_num (hd ?cs)"
    using that srt by (cases ?cs) auto
  have absent: "s \<notin> cfr_seq_num ` set ?cs" if "?i = length ?cs"
    using that find_change_iff [OF srt] by auto
  have gone: "s \<notin> cfr_seq_num ` set (erase ?i ?cs)" if "?i \<noteq> length ?cs"
  proof -
    note f = find_change_update(2,3) [OF srt that]
    show ?thesis using erase_filter [OF cfr_sorted_distinct [OF srt] f(2)] f(1) by auto
  qed
  let ?rp = "rp\<lparr>changes_for_reader := erase ?i ?cs\<rparr>"
  have "set (changes_for_reader (acked_changes_set h g (s + 1) ?rp)) \<subseteq> set (erase ?i ?cs)"
    if low: "changes_low_mark rp + 1 = s"
  proof -
    have "rp_inv ?rp" by (rule rp_okD(1) [OF rp_ok_erase [OF assms]])
    then obtain f where "acked_changes_set h g (s + 1) ?rp = ?rp\<lparr>changes_for_reader :=
        filter (\<lambda>c. f \<le> cfr_seq_num c) (changes_for_reader ?rp), changes_low_mark := f - 1\<rparr>"
      using acked_changes_set_ahead [of ?rp "s + 1" h g] low by auto
    then show ?thesis by simp
  qed
  then show ?thesis using early absent gone unfolding change_has_been_removed_def Let_def by (auto simp: image_iff)
qed

lemma reader_good_filter:
  assumes "reader_good h rp" "s \<notin> cfr_seq_num ` set (changes_for_reader rp)"
    "m_changes h' = filter (\<lambda>c. cc_sequenceNumber c \<noteq> s) (m_changes h)"
    "m_lastCacheChangeSeqNum h' = m_lastCacheChangeSeqNum h"
  shows "reader_good h' rp"
proof -
  have "cfr_seq_num ` set (changes_for_reader rp) \<subseteq> cc_sequenceNumber ` set (m_changes h')"
  proof
    fix n assume n: "n \<in> cfr_seq_num ` set (changes_for_reader rp)"
    then have "n \<in> cc_sequenceNumber ` set (m_changes h)" "n \<noteq> s"
      using assms(1,2) by (auto simp: reader_good_def rp_ok_def rp_in_history_def)
    then show "n \<in> cc_sequenceNumber ` set (m_changes h')" using assms(3) by auto
  qed
  then show ?thesis using assms(1,3,4) by (auto simp: reader_good_def rp_ok_def rp_in_history_def)
qed

lemma change_removed_inv:
  assumes "sw_inv (h, w)" "ch \<in> set (m_changes h)" "change_removed_by_history env h ch w = (b, w')"
  shows "b = env_flow_remove env ch" "sw_guid w' = sw_guid w"
    "set (matched_readers_pool w') = set (matched_readers_pool w)"
    "set (matched_readers w') = (if b then (\<lambda>rp. snd (change_has_been_removed h (sw_guid w) (cc_sequenceNumber ch) rp)) `
        set (matched_readers w) else set (matched_readers w))"
proof -
  let ?n = "cc_sequenceNumber ch"
  define w1 where "w1 = (if ?n > biggest_removed_sequence_number w then w\<lparr>biggest_removed_sequence_number := ?n\<rparr> else w)"
  have w1: "readers_of w1 = readers_of w" by (simp add: w1_def)
  let ?f = "\<lambda>rp. snd (change_has_been_removed h (sw_guid w1) ?n rp)"
  have g: "readers_of (fold (\<lambda>reader. intraprocess_gap env reader ?n (?n + 1)) rs v) = readers_of v" for rs v
    by (rule fold_same) simp
  have r: "b = env_flow_remove env ch \<and> readers_of w' = (if b then readers_of (map_matched_readers ?f w1) else readers_of w)"
    using assms(3) unfolding change_removed_by_history_def Let_def w1_def [symmetric] by (auto simp: g split: if_splits)
  then show "b = env_flow_remove env ch" "sw_guid w' = sw_guid w"
    "set (matched_readers_pool w') = set (matched_readers_pool w)"
    "set (matched_readers w') = (if b then (\<lambda>rp. snd (change_has_been_removed h (sw_guid w) ?n rp)) `
        set (matched_readers w) else set (matched_readers w))"
    using w1 by (auto simp: readers_of_def matched_readers_map split: if_splits)
qed

lemma sw_inv_remove:
  assumes "sw_inv (h, w)" "ch \<in> set (m_changes h)"
    "wh_remove_change (sw_guid w) (change_removed_by_history env h) ch (h, w) = (b, h', w')"
  shows "sw_inv (h', w')"
proof -
  note hg = history_goodD [OF sw_invD(1) [OF assms(1)]]
  obtain b1 w1 where r: "change_removed_by_history env h ch w = (b1, w1)" by fastforce
  note cr = change_removed_inv [OF assms(1,2) r]
  have e: "b1 = b" "w1 = w'" "h' = (if b then h\<lparr>m_changes := filter (\<lambda>c. cc_sequenceNumber c \<noteq> cc_sequenceNumber ch) (m_changes h),
              m_isHistoryFull := False\<rparr> else h)"
    using wh_remove_change_present [OF hg(1-3) assms(2), where removed = "change_removed_by_history env h", OF r] assms(3)
    by auto
  have wh: "history_good (sw_guid w') h'"
  proof (cases b)
    case True
    have i: "find_change_nts (wh_matches_change (sw_guid w)) ch h < length (m_changes h)"
      "m_changes h ! find_change_nts (wh_matches_change (sw_guid w)) ch h = ch"
      using wh_find_change [OF hg(1,2) assms(2)] by auto
    have "wh_inv (sw_guid w) h'"
      using wh_inv_erase [OF hg(1) i(1)] erase_filter [OF wh_inv_seq_distinct [OF hg(1)] i(1)] i(2) True e(3) by simp
    then show ?thesis using True e cr(2) hg by (simp add: history_good_def)
  qed (use e cr(2) sw_invD(1) [OF assms(1)] in simp)
  have seq: "cc_sequenceNumber ch \<le> m_lastCacheChangeSeqNum h" using hg(6) assms(2) by blast
  have "reader_good h' (snd (change_has_been_removed h (sw_guid w) (cc_sequenceNumber ch) rp))"
    if "rp \<in> set (matched_readers w)" b for rp
  proof -
    note good = sw_invD(2) [OF assms(1) that(1)]
    have ok: "rp_ok h rp" using good by (simp add: reader_good_def)
    have m: "m_changes h' = filter (\<lambda>c. cc_sequenceNumber c \<noteq> cc_sequenceNumber ch) (m_changes h)"
      "m_lastCacheChangeSeqNum h' = m_lastCacheChangeSeqNum h" using that(2) by (simp_all add: e(3))
    show ?thesis
      by (rule reader_good_filter [OF reader_good_removed [OF sw_invD(1) [OF assms(1)] good seq] removed_gone [OF ok] m])
  qed
  then have "\<forall>rp\<in>set (matched_readers w'). reader_good h' rp"
    using cr(4) e sw_invD(2) [OF assms(1)] by (cases b) auto
  then show ?thesis using wh cr(3) e(2) sw_invD(3) [OF assms(1)] by (simp add: sw_inv_def)
qed

subsection \<open>Listeners\<close>

text \<open>What the writer relies on when it calls its listener from a loop over the history.\<close>

locale sw_listener =
  fixes env :: "'loc sw_env"
  assumes keeps_inv: "env_listener env = Some received \<Longrightarrow> sw_inv s \<Longrightarrow> c \<in> set (m_changes (fst s)) \<Longrightarrow>
      sw_inv (received c s)"
begin

lemma notify_inv:
  assumes "notify_received_by_all fuel received e i s = Some s'" "env_listener env = Some received" "sw_inv s"
  shows "sw_inv s'"
  using assms(1,3)
proof (induction fuel arbitrary: i s)
  case (Suc fuel)
  show ?case
  proof (cases "i < length (m_changes (fst s))")
    case True
    have "sw_inv (received (m_changes (fst s) ! i) s)"
      by (rule keeps_inv [OF assms(2) Suc.prems(2) nth_mem [OF True]])
    then show ?thesis using Suc True by (auto simp: Let_def split: if_splits)
  qed (use Suc.prems(1) in simp)
qed simp

lemma notify_listener_inv:
  assumes "notify_listener env m s = Some s'" "sw_inv s"
  shows "sw_inv s'"
proof (cases "\<exists>fuel received e i. env_listener env = Some received \<and> notify_received_by_all fuel received e i s = Some s'")
  case True
  then show ?thesis using notify_inv [OF _ _ assms(2)] by blast
next
  case False
  then have "s' = s" using assms(1) unfolding notify_listener_def Let_def
    by (auto simp del: notify_received_by_all.simps split: prod.splits option.splits if_splits)
  then show ?thesis using assms(2) by simp
qed

lemma advance_notified_inv:
  assumes "advance_notified env m s = Some s'" "sw_inv s"
  shows "sw_inv s'"
proof (cases "next_all_acked_notify_sequence (snd s) \<le> m")
  case True
  then obtain h w where n: "notify_listener env m s = Some (h, w)"
    "s' = (h, w\<lparr>next_all_acked_notify_sequence := m + 1\<rparr>)"
    using assms(1) by (auto simp: advance_notified_def bind_eq_Some_conv)
  show ?thesis unfolding n(2) by (rule readers_of_inv [OF notify_listener_inv [OF n(1) assms(2)]]) simp
qed (use assms in \<open>simp add: advance_notified_def\<close>)

lemma check_acked_inv:
  assumes "check_acked_status env s = Some s'" "sw_inv s"
  shows "sw_inv s'"
proof -
  have marks: "sw_inv (update_marks m s)" "sw_inv (set_all_acked s)" if "sw_inv s" for m and s :: "'loc sw_state"
  proof -
    obtain h w where s: "s = (h, w)" by fastforce
    show "sw_inv (update_marks m s)" "sw_inv (set_all_acked s)"
      using that readers_of_inv [of h w] by (simp_all add: s update_marks_def set_all_acked_def)
  qed
  obtain a b m where r: "reader_marks (fst s) (snd s) = (a, b, m)" by (metis prod_cases3)
  obtain s1 where s1: "(if get_seq_num_min (fst s) \<noteq> SN_UNKNOWN
      then map_option (update_marks m) (advance_notified env m s) else Some s) = Some s1"
    "s' = (if a then set_all_acked s1 else s1)"
    using assms(1) by (auto simp: check_acked_status_def r bind_eq_Some_conv)
  have "sw_inv s1"
  proof (cases "get_seq_num_min (fst s) \<noteq> SN_UNKNOWN")
    case True
    then obtain s2 where s2: "advance_notified env m s = Some s2" "s1 = update_marks m s2" using s1(1) by auto
    show ?thesis unfolding s2(2) by (rule marks(1) [OF advance_notified_inv [OF s2(1) assms(2)]])
  qed (use s1(1) assms(2) in simp)
  then show ?thesis using s1(2) marks(2) by simp
qed

end

subsection \<open>Requests keep the invariant\<close>

lemma answer_initial_inv:
  assumes "sw_inv (h, w)" "reader_good h rp" "answer_initial_acknack env h i rp w = Some w'"
  shows "sw_inv (h, w')"
proof -
  obtain a old rp' where r: "process_initial_acknack rp = (a, old, rp')" by (metis prod_cases3)
  have g: "reader_good h rp'"
    using r reader_good_convert [OF assms(2)] assms(2)
    by (auto simp: process_initial_acknack_def split: if_splits prod.splits)
  have "readers_of w' = readers_of (set_matched_reader i rp' w)"
    using assms(3) unfolding answer_initial_acknack_def r
    by (auto simp: Let_def bind_eq_Some_conv dest: send_heartbeat_to_nts_same split: if_splits)
  then show ?thesis by (rule readers_of_inv [OF sw_inv_set [OF assms(1) g]])
qed

lemma answer_acknack_inv:
  assumes "sw_inv (h, w)" "reader_good h rp" "br_wf sns" "answer_acknack env h sns f i rp w = Some w'"
  shows "sw_inv (h, w')"
proof -
  consider (req) "br_base sns > 0" | (init) "\<not> br_base sns > 0" "br_empty sns \<and> \<not> f"
    | (none) "\<not> br_base sns > 0" "\<not> (br_empty sns \<and> \<not> f)" by blast
  then show ?thesis
  proof cases
    case req
    obtain b g rp' where r: "requested_changes_set (env_send env) sns (get_seq_num_min h) gap_builder_init rp = (b, g, rp')"
      by (metis prod_cases3)
    have "readers_of w' = readers_of (set_matched_reader i rp' w)"
      using assms(4) req unfolding answer_acknack_def r by (auto simp: Let_def split: if_splits)
    then show ?thesis by (rule readers_of_inv [OF sw_inv_set [OF assms(1) reader_good_requested [OF assms(2,3) r]]])
  next
    case init
    then show ?thesis using answer_initial_inv [OF assms(1,2)] assms(4) by (simp add: answer_acknack_def)
  next
    case none
    then have "w' = set_matched_reader i rp w" using assms(4) unfolding answer_acknack_def by (simp only: if_False option.inject)
    then show ?thesis using sw_inv_set [OF assms(1,2)] by simp
  qed
qed

lemma for_readers_first:
  assumes "\<And>i s s'. f i s = Some (False, s') \<Longrightarrow> s' = s" "for_readers f is s = Some (b, s')"
  shows "\<not> b \<and> s' = s \<or> b \<and> (\<exists>i\<in>set is. f i s = Some (True, s'))"
  using assms(2)
proof (induction "is")
  case (Cons i "is")
  from Cons.prems obtain stop s1 where f: "f i s = Some (stop, s1)"
    "(if stop then Some (True, s1) else for_readers f is s1) = Some (b, s')"
    by (auto simp: bind_eq_Some_conv)
  show ?case
  proof (cases stop)
    case False
    then have "s1 = s" using assms(1) f(1) by simp
    then show ?thesis using False f(2) Cons.IH by auto
  qed (use f in auto)
qed simp

lemma acknack_reader_False: "acknack_reader env g n sns f i s = Some (False, s') \<Longrightarrow> s' = s"
  by (auto simp: acknack_reader_def Let_def bind_eq_Some_conv split: prod.splits if_splits)

context sw_listener
begin

lemma acknack_reader_inv:
  assumes "sw_inv s" "br_wf sns" "br_base sns \<le> m_lastCacheChangeSeqNum (fst s) + 1" "i < length (matched_readers (snd s))"
    "acknack_reader env g n sns f i s = Some (b, s')"
  shows "sw_inv s'"
proof -
  obtain h w where s: "s = (h, w)" by fastforce
  note inv = assms(1) [unfolded s]
  obtain fresh rp where r: "check_and_set_acknack_count n (matched_readers w ! i) = (fresh, rp)" by fastforce
  have "i < length (matched_readers w)" using assms(4) s by simp
  then have "reader_good h rp"
    using r by (intro reader_good_same [OF sw_inv_nth [OF inv]])
      (auto simp: check_and_set_acknack_count_def split: if_splits)
  from reader_good_acked [OF sw_invD(1) [OF inv] this] assms(3)
  have good: "reader_good h (acked_changes_set h (sw_guid w) (br_base sns) rp)" by (simp add: s)
  show ?thesis
  proof (cases "guid_eq (rp_guid (matched_readers w ! i)) g \<and> fresh")
    case True
    then obtain w1 where "answer_acknack env h sns f i (acked_changes_set h (sw_guid w) (br_base sns) rp) w = Some w1"
      "check_acked_status env (h, w1) = Some s'"
      using assms(5) unfolding acknack_reader_def s by (auto simp: r bind_eq_Some_conv)
    then show ?thesis using check_acked_inv answer_acknack_inv [OF inv good assms(2)] by blast
  qed (use assms(1,5) in \<open>auto simp: acknack_reader_def s r Let_def split: if_splits\<close>)
qed

lemma process_acknack_inv:
  assumes "sw_inv s" "br_wf sns" "process_acknack env wg g n sns f s = Some (b, s')"
  shows "sw_inv s'"
proof -
  let ?n = "if br_empty sns then br_base sns else br_max int_items sns"
  have base: "br_base sns \<le> ?n" by (simp add: br_max_def int_items_def)
  show ?thesis
  proof (cases "guid_eq (sw_guid (snd s)) wg \<and> ?n \<le> next_sequence_number (fst s)")
    case True
    then obtain b' where r: "for_matched_readers (acknack_reader env g n sns f) s = Some (b', s')"
      using assms(3) by (auto simp: process_acknack_def Let_def bind_eq_Some_conv split: if_splits)
    have last: "br_base sns \<le> m_lastCacheChangeSeqNum (fst s) + 1"
      using True base by (simp add: next_sequence_number_def)
    have "s' = s \<or> (\<exists>i<length (matched_readers (snd s)). acknack_reader env g n sns f i s = Some (True, s'))"
      using for_readers_first [OF acknack_reader_False r [unfolded for_matched_readers_def]] by auto
    then show ?thesis using acknack_reader_inv [OF assms(1,2) last] assms(1) by blast
  next
    case False
    then have "s' = s" using assms(3) by (auto simp: process_acknack_def Let_def split: if_splits)
    then show ?thesis using assms(1) by simp
  qed
qed

end

lemma found_reader_inv:
  assumes "sw_inv s" "for_matched_readers f s = Some (b, s')"
    "\<And>i s s'. f i s = Some (False, s') \<Longrightarrow> s' = s"
    "\<And>i s'. i < length (matched_readers (snd s)) \<Longrightarrow> f i s = Some (True, s') \<Longrightarrow>
       \<exists>rp w. reader_good (fst s) rp \<and> s' = (fst s, w) \<and> readers_of w = readers_of (set_matched_reader i rp (snd s))"
  shows "sw_inv s'"
proof -
  have "s' = s \<or> (\<exists>i<length (matched_readers (snd s)). f i s = Some (True, s'))"
    using for_readers_first [OF assms(3) assms(2) [unfolded for_matched_readers_def]] by auto
  then show ?thesis
  proof
    assume "\<exists>i<length (matched_readers (snd s)). f i s = Some (True, s')"
    then obtain i rp w where "reader_good (fst s) rp" "s' = (fst s, w)"
      "readers_of w = readers_of (set_matched_reader i rp (snd s))" using assms(4) by blast
    then show ?thesis using readers_of_inv [OF sw_inv_set, of "fst s" "snd s" rp w i] assms(1) by simp
  qed (use assms(1) in simp)
qed

lemma nack_frag_inv:
  assumes "sw_inv s" "sw_process_nack_frag wg g n sq fs s = Some (b, s')"
  shows "sw_inv s'"
proof (cases "guid_eq (sw_guid (snd s)) wg")
  case True
  then obtain b' where r: "for_matched_readers (nack_frag_reader g n sq fs) s = Some (b', s')"
    using assms(2) by (auto simp: sw_process_nack_frag_def bind_eq_Some_conv)
  show ?thesis
  proof (rule found_reader_inv [OF assms(1) r])
    fix i s' assume i: "i < length (matched_readers (snd s))" "nack_frag_reader g n sq fs i s = Some (True, s')"
    have "reader_good (fst s) (snd (rp_process_nack_frag g n sq fs (matched_readers (snd s) ! i)))"
      using sw_inv_nth [of "fst s" "snd s"] assms(1) i(1) by (simp add: reader_good_nack_frag)
    then show "\<exists>rp w. reader_good (fst s) rp \<and> s' = (fst s, w) \<and>
        readers_of w = readers_of (set_matched_reader i rp (snd s))"
      using i(2) by (auto simp: nack_frag_reader_def Let_def split: prod.splits if_splits
        intro!: exI [of _ "snd (rp_process_nack_frag g n sq fs (matched_readers (snd s) ! i))"])
  qed (auto simp: nack_frag_reader_def Let_def split: prod.splits if_splits)
qed (use assms in \<open>simp add: sw_process_nack_frag_def\<close>)

lemma nack_supression_inv:
  assumes "sw_inv s" "perform_nack_supression g s = Some s'"
  shows "sw_inv s'"
proof -
  obtain b where r: "for_matched_readers (nack_supression_reader g) s = Some (b, s')"
    using assms(2) by (auto simp: perform_nack_supression_def)
  show ?thesis
  proof (rule found_reader_inv [OF assms(1) r])
    fix i s' assume i: "i < length (matched_readers (snd s))" "nack_supression_reader g i s = Some (True, s')"
    let ?rp = "matched_readers (snd s) ! i"
    obtain n cs rp where c: "convert_status_on_all_changes UNDERWAY UNACKNOWLEDGED ?rp = (n, cs, rp)" by (metis prod_cases3)
    have "reader_good (fst s) rp"
      using reader_good_convert [OF _ c] sw_inv_nth [of "fst s" "snd s"] assms(1) i(1) by simp
    then show "\<exists>rp w. reader_good (fst s) rp \<and> s' = (fst s, w) \<and>
        readers_of w = readers_of (set_matched_reader i rp (snd s))"
      using i(2) c by (auto simp: nack_supression_reader_def rp_perform_nack_supression_def Let_def
        split: prod.splits if_splits intro!: exI [of _ rp])
  qed (auto simp: nack_supression_reader_def Let_def split: prod.splits if_splits)
qed

subsection \<open>New samples keep the invariant\<close>

lemma readers_of_remote [simp]:
  "matched_readers (w\<lparr>matched_remote_readers := rps\<rparr>) = matched_local_readers w @ matched_datasharing_readers w @ rps"
  by (simp add: matched_readers_def)

lemma sw_inv_remote:
  assumes "sw_inv (h, w)" "\<And>rp. rp \<in> set rps \<Longrightarrow> reader_good h rp"
  shows "sw_inv (h, w\<lparr>matched_remote_readers := rps\<rparr>)"
  using assms by (auto simp: sw_inv_def matched_readers_def)

lemma sw_inv_local:
  assumes "sw_inv (h, w)" "\<And>rp. rp \<in> set rps \<Longrightarrow> reader_good h rp"
  shows "sw_inv (h, w\<lparr>matched_local_readers := rps\<rparr>)"
  using assms by (auto simp: sw_inv_def matched_readers_def)

lemma sw_inv_datasharing:
  assumes "sw_inv (h, w)" "\<And>rp. rp \<in> set rps \<Longrightarrow> reader_good h rp"
  shows "sw_inv (h, w\<lparr>matched_datasharing_readers := rps\<rparr>)"
  using assms by (auto simp: sw_inv_def matched_readers_def)

lemma sw_inv_parts:
  assumes "sw_inv (h, w)"
  shows "rp \<in> set (matched_local_readers w) \<Longrightarrow> reader_good h rp"
    "rp \<in> set (matched_datasharing_readers w) \<Longrightarrow> reader_good h rp"
    "rp \<in> set (matched_remote_readers w) \<Longrightarrow> reader_good h rp"
  using assms by (auto simp: sw_inv_def matched_readers_def)

lemma nack_response_inv:
  assumes "sw_inv (h, w)"
  shows "sw_inv (h, snd (perform_nack_response w))"
proof -
  have "reader_good h (snd (snd (perform_acknack_response rp)))" if "rp \<in> set (matched_remote_readers w)" for rp
    using reader_good_convert [OF sw_inv_parts(3) [OF assms that], of REQUESTED UNSENT]
    by (metis perform_acknack_response_def prod.collapse)
  then have "sw_inv (h, w\<lparr>matched_remote_readers :=
      map (snd \<circ> snd) (map perform_acknack_response (matched_remote_readers w))\<rparr>)"
    by (intro sw_inv_remote [OF assms]) auto
  then show ?thesis by (rule readers_of_inv) (simp add: perform_nack_response_def Let_def)
qed

lemma reader_good_push:
  assumes "history_good g h" "reader_good h rp" "pushed c h h'"
  shows "reader_good h' rp" "changes_low_mark rp < cc_sequenceNumber c"
    "d \<in> set (changes_for_reader rp) \<Longrightarrow> cfr_seq_num d < cc_sequenceNumber c"
proof -
  have "0 < cc_sequenceNumber c" using history_goodD(4) [OF assms(1)] assms(3) by (simp add: pushed_def)
  then show "reader_good h' rp" using assms(2,3)
    by (auto simp: reader_good_def rp_ok_def rp_in_history_def pushed_def)
  show "changes_low_mark rp < cc_sequenceNumber c" using assms(2,3) by (simp add: reader_good_def pushed_def)
  show "d \<in> set (changes_for_reader rp) \<Longrightarrow> cfr_seq_num d < cc_sequenceNumber c"
    using reader_good_held(2) [OF assms(1,2)] assms(3) by (fastforce simp: pushed_def)
qed

lemma rp_add_change_mark:
  "changes_low_mark (rp_add_change c r b rp) = changes_low_mark rp \<or> changes_low_mark (rp_add_change c r b rp) = cfr_seq_num c"
  by (simp add: rp_add_change_def rp_add_change_basic_def)

lemma reader_good_add:
  assumes "reader_good h rp" "changes_low_mark rp < cfr_seq_num c" "\<forall>d\<in>set (changes_for_reader rp). cfr_seq_num d < cfr_seq_num c"
    "cfr_seq_num c \<in> cc_sequenceNumber ` set (m_changes h)" "cfr_seq_num c \<le> m_lastCacheChangeSeqNum h"
  shows "reader_good h (rp_add_change c r b rp)"
  using rp_ok_add_change [OF _ assms(2-4), of r b] assms(1,2,5) rp_add_change_mark [of c r b rp]
  by (auto simp: reader_good_def)

lemma add_change_for_reader_good:
  assumes "history_good g h" "reader_good h rp" "pushed c h h'"
  shows "reader_good h' (snd (add_change_for_reader env c p rp))"
proof -
  note push = reader_good_push [OF assms]
  have seq: "cc_sequenceNumber c \<in> cc_sequenceNumber ` set (m_changes h')"
    "cc_sequenceNumber c \<le> m_lastCacheChangeSeqNum h'" using assms(3) by (auto simp: pushed_def)
  define cfr where "cfr = (if p \<or> \<not> rp_is_reliable rp \<or> is_local_reader rp then ChangeForReader c
    else (ChangeForReader c)\<lparr>cfr_status := UNACKNOWLEDGED\<rparr>)"
  have n: "cfr_seq_num cfr = cc_sequenceNumber c" by (simp add: cfr_def)
  have "snd (add_change_for_reader env c p rp) = rp_add_change cfr (rtps_is_relevant env c rp) False rp"
    by (simp add: add_change_for_reader_def Let_def cfr_def)
  then show ?thesis using reader_good_add [OF push(1), of cfr] push(2,3) seq by (simp add: n)
qed

lemma write_pushed:
  assumes "history_good (wi_guid writer) h" "guid_wf (cc_writerGUID ch)"
    "prepare_and_add_change writer now ch wp h = Some (True, ch', wp', h')"
  shows "pushed ch' h h'" "history_good (wi_guid writer) h'"
proof -
  note hg = history_goodD [OF assms(1)]
  have c: "m_changes h' = m_changes h @ [ch']" "m_lastCacheChangeSeqNum h' = m_lastCacheChangeSeqNum h + 1"
    "cc_sequenceNumber ch' = m_lastCacheChangeSeqNum h + 1" "h_attached h' = h_attached h"
    using prepare_and_add_change_cases [OF assms(3)] by auto
  then show "pushed ch' h h'" by (simp add: pushed_def)
  show "history_good (wi_guid writer) h'"
    using wh_inv_add [OF hg(1) assms(2) hg(2) assms(3)] c hg(2-5) by (auto simp: history_good_def)
qed

context sw_listener
begin

lemma write_inv:
  assumes "sw_inv (h, w)" "sw_guid w = wi_guid writer" "guid_wf (cc_writerGUID ch)"
    "prepare_and_add_change writer now ch wp h = Some (True, ch', wp', h')"
    "unsent_change_added_to_history env now' ch' (h', w) = Some s'"
  shows "sw_inv s'"
proof -
  note hg = sw_invD(1) [OF assms(1), unfolded assms(2)]
  note pu = write_pushed [OF hg assms(3,4)]
  have good: "reader_good h' (snd (add_change_for_reader env ch' p rp))" if "rp \<in> set (matched_readers w)" for rp p
    by (rule add_change_for_reader_good [OF hg sw_invD(2) [OF assms(1) that] pu(1)])
  have inv: "sw_inv (h', map_matched_readers (\<lambda>rp. snd (add_change_for_reader env ch' p rp)) w)" for p
    using good pu(2) sw_invD(3) [OF assms(1)] assms(2) by (auto simp: sw_inv_def matched_readers_map)
  show ?thesis
  proof (cases "matched_readers w = []")
    case True
    then have "check_acked_status env (h', w) = Some s'" using assms(5) by (simp add: unsent_change_added_to_history_def)
    moreover have "sw_inv (h', w)" using pu(2) sw_invD(3) [OF assms(1)] assms(2) True by (auto simp: sw_inv_def)
    ultimately show ?thesis by (rule check_acked_inv)
  next
    case False
    then have "\<exists>w'. s' = (h', w') \<and>
        readers_of w' = readers_of (map_matched_readers (\<lambda>rp. snd (add_change_for_reader env ch' (push_mode w) rp)) w)"
      using assms(5) by (auto simp: unsent_change_added_to_history_def Let_def)
    then show ?thesis using readers_of_inv [OF inv] by metis
  qed
qed

end

subsection \<open>Deliveries keep the invariant\<close>

lemma history_good_replace:
  assumes "history_good g h" "cc_sequenceNumber d' = cc_sequenceNumber d" "cc_writerGUID d' = cc_writerGUID d"
  defines "h' \<equiv> h\<lparr>m_changes := map (\<lambda>c. if c = d then d' else c) (m_changes h)\<rparr>"
  shows "history_good g h'" "reader_good h rp \<Longrightarrow> reader_good h' rp"
proof -
  have m: "map cc_sequenceNumber (m_changes h') = map cc_sequenceNumber (m_changes h)"
    using assms(2) by (simp add: h'_def)
  then have s: "cc_sequenceNumber ` set (m_changes h') = cc_sequenceNumber ` set (m_changes h)" by (metis set_map)
  have n: "m_changes h' = [] \<longleftrightarrow> m_changes h = []" by (simp add: h'_def)
  have hg: "wh_inv g h" "guid_wf g" "h_attached h" "0 \<le> m_lastCacheChangeSeqNum h"
    "\<forall>c\<in>set (m_changes h). 0 < cc_sequenceNumber c" using assms(1) by (simp_all add: history_good_def)
  have l: "length (m_changes h') = length (m_changes h)" "m_att h' = m_att h" "m_isHistoryFull h' = m_isHistoryFull h"
    "m_lastCacheChangeSeqNum h' = m_lastCacheChangeSeqNum h" by (simp_all add: h'_def)
  have "\<forall>c\<in>set (m_changes h'). cc_writerGUID c = g \<and> cc_sequenceNumber c \<le> m_lastCacheChangeSeqNum h"
    using hg(1) assms(2,3) by (auto simp: h'_def wh_inv_def)
  then have "wh_inv g h'" using hg(1) unfolding wh_inv_def m n l by simp
  moreover have "\<forall>c\<in>set (m_changes h'). 0 < cc_sequenceNumber c"
    using hg(5) s by (metis (no_types, lifting) image_iff)
  ultimately show "history_good g h'" using hg by (simp add: history_good_def h'_def)
  assume "reader_good h rp"
  moreover have "m_lastCacheChangeSeqNum h' = m_lastCacheChangeSeqNum h" by (simp add: h'_def)
  moreover have "(\<forall>c\<in>set (m_changes h'). 0 < cc_sequenceNumber c) = (\<forall>c\<in>set (m_changes h). 0 < cc_sequenceNumber c)"
    using s by (metis (no_types, lifting) image_iff)
  ultimately show "reader_good h' rp" by (simp add: reader_good_def rp_ok_def rp_in_history_def s)
qed

lemma intraprocess_delivery_inv:
  assumes "sw_inv (h, w)" "reader_good h rp" "intraprocess_delivery env c rp (h, w) = (b, c', h', w')"
  shows "sw_inv (h', w')" "reader_good h' rp" "cc_sequenceNumber c' = cc_sequenceNumber c"
    "readers_of w' = readers_of w" "m_lastCacheChangeSeqNum h' = m_lastCacheChangeSeqNum h"
    "sw_guid w' = sw_guid w" "matched_local_readers w' = matched_local_readers w"
proof -
  define d where "d = related_identity c"
  have d: "cc_sequenceNumber d = cc_sequenceNumber c" "cc_writerGUID d = cc_writerGUID c"
    by (simp_all add: d_def related_identity_def Let_def)
  note rep = history_good_replace [OF sw_invD(1) [OF assms(1)] d]
  have "sw_inv (h', w') \<and> reader_good h' rp \<and> cc_sequenceNumber c' = cc_sequenceNumber c \<and>
    readers_of w' = readers_of w \<and> m_lastCacheChangeSeqNum h' = m_lastCacheChangeSeqNum h \<and>
    sw_guid w' = sw_guid w \<and> matched_local_readers w' = matched_local_readers w"
  proof (cases "env_local env (rp_guid rp)")
    case True
    then have e: "c' = d" "h' = h\<lparr>m_changes := map (\<lambda>x. if x = c then d else x) (m_changes h)\<rparr>"
      "w' = sw_emit [Local_data (rp_guid rp) d] w"
      using assms(3) unfolding intraprocess_delivery_def d_def [symmetric] by (auto simp: Let_def)
    have "sw_inv (h', w)" using rep(1) assms(1) unfolding e(2) by (auto simp: sw_inv_def intro!: rep(2))
    then have "sw_inv (h', w')" by (rule readers_of_inv) (simp add: e(3))
    then show ?thesis using rep(2) [OF assms(2)] d by (simp add: e sw_emit_def readers_of_def matched_readers_def)
  qed (use assms in \<open>simp add: intraprocess_delivery_def\<close>)
  then show "sw_inv (h', w')" "reader_good h' rp" "cc_sequenceNumber c' = cc_sequenceNumber c"
    "readers_of w' = readers_of w" "m_lastCacheChangeSeqNum h' = m_lastCacheChangeSeqNum h"
    "sw_guid w' = sw_guid w" "matched_local_readers w' = matched_local_readers w" by simp_all
qed

lemma sw_inv_set_local:
  assumes "sw_inv (h, w)" "reader_good h rp"
  shows "sw_inv (h, w\<lparr>matched_local_readers := (matched_local_readers w)[i := rp]\<rparr>)"
  using sw_inv_parts(1) [OF assms(1)] assms set_update_subset_insert [of "matched_local_readers w" i rp]
  by (intro sw_inv_local) auto

lemma deliver_to_local_reader_inv:
  assumes "sw_inv (h, w)" "cc_sequenceNumber c \<le> m_lastCacheChangeSeqNum h" "i < length (matched_local_readers w)"
    "deliver_to_local_reader env i (c, h, w) = (c', h', w')"
  shows "sw_inv (h', w') \<and> cc_sequenceNumber c' = cc_sequenceNumber c \<and>
    m_lastCacheChangeSeqNum h' = m_lastCacheChangeSeqNum h \<and>
    length (matched_local_readers w') = length (matched_local_readers w)"
proof -
  let ?rp = "matched_local_readers w ! i" and ?n = "cc_sequenceNumber c"
  obtain u f gap_seq r where u: "change_is_unsent ?n 0 0 (get_seq_num_min h) False ?rp = (u, f, gap_seq, r)"
    by (metis prod_cases4)
  show ?thesis
  proof (cases u)
    case True
    note hg = sw_invD(1) [OF assms(1)]
    have rp: "reader_good h ?rp" using sw_inv_parts(1) [OF assms(1)] assms(3) by simp
    define rp1 where "rp1 = (if SN_UNKNOWN \<noteq> gap_seq then acked_changes_set h (sw_guid w) ?n ?rp else ?rp)"
    define w1 where "w1 = (if SN_UNKNOWN \<noteq> gap_seq then intraprocess_gap env ?rp gap_seq ?n w else w)"
    have good1: "reader_good h rp1" using reader_good_acked [OF hg rp, of ?n] rp assms(2) by (simp add: rp1_def)
    have w1: "readers_of w1 = readers_of w" "matched_local_readers w1 = matched_local_readers w" "sw_guid w1 = sw_guid w"
      by (simp_all add: w1_def intraprocess_gap_def sw_emit_def readers_of_def matched_readers_def)
    have inv1: "sw_inv (h, w1)" by (rule readers_of_inv [OF assms(1) w1(1)])
    obtain dl c2 h2 w2 where d: "intraprocess_delivery env c rp1 (h, w1) = (dl, c2, h2, w2)" by (metis prod_cases4)
    note del = intraprocess_delivery_inv [OF inv1 good1 d]
    define rp2 where "rp2 = (if \<not> rp_is_reliable rp1 then acked_changes_set h2 (sw_guid w2) (?n + 1) rp1
      else from_unsent_to_status h2 (sw_guid w2) ?n (if dl then ACKNOWLEDGED else UNACKNOWLEDGED) False dl rp1)"
    define w3 where "w3 = (if \<not> rp_is_reliable rp1 then w2 else intraprocess_heartbeat env h2 rp1 False w2)"
    have good2: "reader_good h2 rp2"
      using reader_good_acked [OF sw_invD(1) [OF del(1)] del(2), of "?n + 1"]
        reader_good_from_unsent [OF sw_invD(1) [OF del(1)] del(2), of ?n] assms(2) del(5) by (simp add: rp2_def)
    have w3: "readers_of w3 = readers_of w2" "matched_local_readers w3 = matched_local_readers w2"
      by (simp_all add: w3_def intraprocess_heartbeat_def increment_hb_count_def sw_emit_def Let_def
          readers_of_def matched_readers_def split: prod.split)
    have inv3: "sw_inv (h2, w3)" by (rule readers_of_inv [OF del(1) w3(1)])
    have "(c', h', w') = (c2, h2, w3\<lparr>matched_local_readers := (matched_local_readers w3)[i := rp2]\<rparr>)"
      using assms(4) True u d unfolding deliver_to_local_reader_def rp1_def w1_def rp2_def w3_def
      by (auto simp: Let_def split: if_splits)
    then show ?thesis using sw_inv_set_local [OF inv3 good2] del(3,5,7) w3(2) w1(2) by simp
  next
    case False
    then show ?thesis using assms u by (simp add: deliver_to_local_reader_def)
  qed
qed

lemma deliver_intraprocesses_inv:
  assumes "sw_inv (h, w)" "cc_sequenceNumber c \<le> m_lastCacheChangeSeqNum h"
    "deliver_sample_to_intraprocesses env c (h, w) = (c', h', w')"
  shows "sw_inv (h', w')" "cc_sequenceNumber c' = cc_sequenceNumber c"
    "m_lastCacheChangeSeqNum h' = m_lastCacheChangeSeqNum h"
proof -
  have "sw_inv (h', w') \<and> cc_sequenceNumber c' = cc_sequenceNumber c \<and>
      m_lastCacheChangeSeqNum h' = m_lastCacheChangeSeqNum h"
    if "\<forall>i\<in>set is. i < length (matched_local_readers w)" "sw_inv (h, w)"
      "cc_sequenceNumber c \<le> m_lastCacheChangeSeqNum h"
      "fold (deliver_to_local_reader env) is (c, h, w) = (c', h', w')" for "is"
    using that
  proof (induction "is" arbitrary: c h w)
    case (Cons i "is")
    obtain c1 h1 w1 where d: "deliver_to_local_reader env i (c, h, w) = (c1, h1, w1)" by (metis prod_cases3)
    have "sw_inv (h1, w1) \<and> cc_sequenceNumber c1 = cc_sequenceNumber c \<and>
      m_lastCacheChangeSeqNum h1 = m_lastCacheChangeSeqNum h \<and>
      length (matched_local_readers w1) = length (matched_local_readers w)"
      using deliver_to_local_reader_inv [OF Cons.prems(2,3) _ d] Cons.prems(1) by simp
    then show ?case using Cons.IH [of w1 h1 c1] Cons.prems d by simp
  qed simp
  from this [of "[0..<length (matched_local_readers w)]"] assms
  show "sw_inv (h', w')" "cc_sequenceNumber c' = cc_sequenceNumber c"
    "m_lastCacheChangeSeqNum h' = m_lastCacheChangeSeqNum h"
    by (simp_all add: deliver_sample_to_intraprocesses_def)
qed

lemma deliver_datasharing_inv:
  assumes "sw_inv (h, w)" "cc_sequenceNumber c \<le> m_lastCacheChangeSeqNum h"
  shows "sw_inv (h, deliver_sample_to_datasharing h c w)"
proof -
  note hg = sw_invD(1) [OF assms(1)]
  let ?ds = "map (deliver_to_datasharing_reader h (sw_guid w) (cc_sequenceNumber c)) (matched_datasharing_readers w)"
  have "reader_good h (snd (deliver_to_datasharing_reader h (sw_guid w) (cc_sequenceNumber c) rp))"
    if "reader_good h rp" for rp
    using reader_good_acked [OF hg that, of "cc_sequenceNumber c + 1"] that assms(2)
      reader_good_from_unsent [OF hg that assms(2)]
    by (simp add: deliver_to_datasharing_reader_def split: prod.split)
  then have "sw_inv (h, w\<lparr>matched_datasharing_readers := map snd ?ds\<rparr>)"
    using sw_inv_parts(2) [OF assms(1)] by (intro sw_inv_datasharing [OF assms(1)]) auto
  then show ?thesis by (rule readers_of_inv) (simp add: deliver_sample_to_datasharing_def Let_def)
qed

lemma scan_reader_same [simp]: "readers_of (snd (scan_reader h c i scw)) = readers_of (snd scw)"
  unfolding scan_reader_def Let_def by (auto split: prod.split)

lemma scan_fold_same: "readers_of (snd (fold (scan_reader h c) is scw)) = readers_of (snd scw)"
  by (induction "is" arbitrary: scw) simp_all

lemma scan_readers_same: "readers_of (snd (scan_readers h c r w)) = readers_of w"
  by (simp add: scan_readers_def scan_fold_same)

lemma reader_after_sent_good:
  fixes rp rp' :: "'loc ReaderProxy"
  assumes "history_good g h" "reader_good h rp" "cc_sequenceNumber c \<le> m_lastCacheChangeSeqNum h"
    "reader_after_sent h g c f rp = Some rp'"
  shows "reader_good h rp'"
proof -
  have fin: "reader_good h (if \<not> rp_is_reliable r then acked_changes_set h g (cc_sequenceNumber c + 1) r
      else from_unsent_to_status h g (cc_sequenceNumber c) UNDERWAY True False r)" if "reader_good h r" for r :: "'loc ReaderProxy"
    using reader_good_acked [OF assms(1) that, of "cc_sequenceNumber c + 1"] assms(3)
      reader_good_from_unsent [OF assms(1) that assms(3)] by simp
  show ?thesis
  proof (cases "0 < cc_fragment_count c")
    case True
    then obtain b a r where m: "mark_fragment_as_sent_for_change (cc_sequenceNumber c) f rp = Some (b, a, r)"
      "rp' = (if a then if \<not> rp_is_reliable r then acked_changes_set h g (cc_sequenceNumber c + 1) r
         else from_unsent_to_status h g (cc_sequenceNumber c) UNDERWAY True False r else r)"
      using assms(4) unfolding reader_after_sent_def Let_def by (auto simp: bind_eq_Some_conv)
    show ?thesis using fin reader_good_mark_fragment [OF assms(2) m(1)] unfolding m(2) by (cases a) simp_all
  qed (use assms(4) fin [OF assms(2)] in \<open>simp add: reader_after_sent_def Let_def\<close>)
qed

lemma readers_after_sent_inv:
  assumes "sw_inv (h, w)" "cc_sequenceNumber c \<le> m_lastCacheChangeSeqNum h"
    "\<forall>i\<in>set is. i < length (matched_remote_readers w)" "readers_after_sent h c f is w = Some w'"
  shows "sw_inv (h, w')"
  using assms
proof (induction "is" arbitrary: w)
  case (Cons i "is")
  obtain rp where r: "reader_after_sent h (sw_guid w) c f (matched_remote_readers w ! i) = Some rp"
    "readers_after_sent h c f is (w\<lparr>matched_remote_readers := (matched_remote_readers w)[i := rp]\<rparr>) = Some w'"
    using Cons.prems(4) by (auto simp: bind_eq_Some_conv)
  have "reader_good h (matched_remote_readers w ! i)" using sw_inv_parts(3) [OF Cons.prems(1)] Cons.prems(3) by simp
  then have "reader_good h rp" using reader_after_sent_good [OF sw_invD(1) [OF Cons.prems(1)] _ Cons.prems(2) r(1)] by simp
  then have "sw_inv (h, w\<lparr>matched_remote_readers := (matched_remote_readers w)[i := rp]\<rparr>)"
    using sw_inv_parts(3) [OF Cons.prems(1)] set_update_subset_insert [of "matched_remote_readers w" i rp]
    by (intro sw_inv_remote [OF Cons.prems(1)]) auto
  then show ?case using Cons.IH Cons.prems(2,3) r(2) by simp
qed simp

lemma readers_after_sent_length:
  "readers_after_sent h c f is w = Some w' \<Longrightarrow> length (matched_remote_readers w') = length (matched_remote_readers w)"
  by (induction "is" arbitrary: w) (auto simp: bind_eq_Some_conv)

lemma emit_remote [simp]: "matched_remote_readers (sw_emit ms w) = matched_remote_readers w"
  "matched_remote_readers (increment_hb_count w) = matched_remote_readers w"
  by (simp_all add: sw_emit_def increment_hb_count_def)

lemma heartbeat_remote [simp]: "matched_remote_readers (send_heartbeat_nts h d n f l w) = matched_remote_readers w"
  by (simp add: send_heartbeat_nts_def Let_def)

lemma sw_inv_emit [simp]: "sw_inv (h, sw_emit ms w) = sw_inv (h, w)"
  using readers_of_inv [of h w "sw_emit ms w"] readers_of_inv [of h "sw_emit ms w" w] by auto

lemma sw_inv_heartbeat [simp]:
  "sw_inv (h, send_heartbeat_nts h' d n f l w) = sw_inv (h, w)"
  "sw_inv (h, send_heartbeat_piggyback_nts net h' w) = sw_inv (h, w)"
  using readers_of_inv [of h w] readers_of_inv [of h _ w] by (metis send_heartbeat_nts_same piggyback_same)+

lemma send_to_selected_inv:
  assumes "sw_inv (h, w)" "cc_sequenceNumber c \<le> m_lastCacheChangeSeqNum h"
    "send_to_selected net h c sc w = Some (ret, w')"
  shows "sw_inv (h, w')"
proof (cases "net_locators net (sc_enabled sc) > 0")
  case True
  have sent: "sw_inv (h, v)" if "readers_after_sent h c (sc_min sc)
      (filter (\<lambda>i. i \<in> set (sc_active sc)) [sc_first sc..<length (matched_remote_readers w)]) (sw_emit [m] w) = Some v" for m v
    by (rule readers_after_sent_inv [OF _ assms(2) _ that]) (use assms(1) in auto)
  show ?thesis
    using assms(1,3) True sent unfolding send_to_selected_def
    by (auto simp: bind_eq_Some_conv split: option.splits send_result.splits)
qed (use assms in \<open>simp add: send_to_selected_def\<close>)

lemma send_separately_inv:
  fixes w w' :: "'loc StatefulWriter"
  assumes "sw_inv (h, w)" "cc_sequenceNumber c \<le> m_lastCacheChangeSeqNum h"
    "\<forall>i\<in>set is. i < length (matched_remote_readers w)" "send_separately net h c sc is (ret, w) = Some (ret', w')"
  shows "sw_inv (h, w')"
  using assms
proof (induction "is" arbitrary: ret w)
  case (Cons i "is")
  define b where "b = (if 0 < cc_fragment_count c then sc_inline_qos sc
    else rp_expects_inline_qos (matched_remote_readers w ! i))"
  define hb :: "'loc StatefulWriter \<Rightarrow> 'loc StatefulWriter" where "hb = send_heartbeat_nts h [rp_guid (matched_remote_readers w ! i)] 1 False False"
  have hb: "sw_inv (h, hb v) = sw_inv (h, v)" "matched_remote_readers (hb v) = matched_remote_readers v"
    for v :: "'loc StatefulWriter" by (simp_all add: hb_def)
  have step: "sw_inv (h, w')" if "sw_inv (h, v)" "matched_remote_readers v = rs" "length rs = length (matched_remote_readers w)"
    "send_separately net h c sc is (r, hb v) = Some (ret', w')" for v r rs
    using Cons.IH [of "hb v" r] that Cons.prems(2,3) by (simp add: hb)
  have sent: "sw_inv (h, v) \<and> length (matched_remote_readers v) = length (matched_remote_readers w)"
    if "readers_after_sent h c (sc_min sc) [i] (sw_emit [m] w) = Some v" for m v
    using readers_after_sent_inv [OF _ Cons.prems(2) _ that] readers_after_sent_length [OF that] Cons.prems(1,3) by simp
  show ?case
  proof (cases "data_message c (sc_min sc) b [rp_guid (matched_remote_readers w ! i)]")
    case None
    then show ?thesis using Cons.prems(1,4) step [of w] unfolding b_def by (simp add: hb_def)
  next
    case (Some m)
    show ?thesis
    proof (cases "net_result net m")
      case Accepted
      then obtain v where "readers_after_sent h c (sc_min sc) [i] (sw_emit [m] w) = Some v"
        "send_separately net h c sc is (ret, hb v) = Some (ret', w')"
        using Cons.prems(4) Some unfolding b_def hb_def
        by (auto simp: bind_eq_Some_conv simp del: readers_after_sent.simps)
      then show ?thesis using sent step by blast
    next
      case Refused
      then show ?thesis using Cons.prems(1,4) Some step [of w] unfolding b_def by (simp add: hb_def)
    qed (use Cons.prems(1,4) Some in \<open>auto simp: b_def\<close>)
  qed
qed simp

lemma network_round_inv:
  assumes "sw_inv (h, w)" "cc_sequenceNumber c \<le> m_lastCacheChangeSeqNum h"
    "network_round net h c r w = Some (ret, m, r', w')"
  shows "sw_inv (h, w')"
proof -
  obtain sc w1 where sc: "scan_readers h c r w = (sc, w1)" by fastforce
  have w1: "sw_inv (h, w1)" using readers_of_inv [OF assms(1)] scan_readers_same [of h c r w] sc by simp
  define w2 where "w2 = (if SN_UNKNOWN \<noteq> sc_gap_for_all sc
    then sw_emit [Gap (sc_enabled sc) (sc_gap_for_all sc) (br_init int_items (cc_sequenceNumber c))] w1 else w1)"
  have w2: "sw_inv (h, w2)" using w1 by (simp add: w2_def)
  define sent where "sent = (if sc_should_be_sent sc
          then if \<not> separate_sending_enabled w2 then send_to_selected net h c sc w2
               else send_separately net h c sc
                      (filter (\<lambda>i. i \<in> set (sc_active sc)) [sc_first sc..<length (matched_remote_readers w2)])
                      (DELIVERED, w2)
          else Some (DELIVERED, w2))"
  note round = assms(3) [unfolded network_round_def sc Let_def prod.case, folded w2_def, folded sent_def]
  obtain ret3 w3 where w3: "sent = Some (ret3, w3)" using round by (cases sent) auto
  have same: "readers_of w' = readers_of w3" using round unfolding w3 by (simp split: if_splits) auto
  have "sw_inv (h, w3)"
    using w2 w3 send_to_selected_inv [OF w2 assms(2)] send_separately_inv [OF w2 assms(2),
        of "filter (\<lambda>i. i \<in> set (sc_active sc)) [sc_first sc..<length (matched_remote_readers w2)]" net sc DELIVERED ret3 w3]
    by (auto simp: sent_def split: if_splits)
  then show ?thesis using readers_of_inv same by blast
qed

lemma network_loop_inv:
  assumes "network_loop net h c r w = Some (ret, r', w')" "sw_inv (h, w)"
    "cc_sequenceNumber c \<le> m_lastCacheChangeSeqNum h"
  shows "sw_inv (h, w')"
proof -
  let ?P = "\<lambda>net h c r w out. sw_inv (h, w) \<longrightarrow> cc_sequenceNumber c \<le> m_lastCacheChangeSeqNum h \<longrightarrow>
      sw_inv (h, snd (snd out))"
  have "?P net h c r w (ret, r', w')"
  proof (rule network_loop.raw_induct [where P = ?P, OF _ assms(1)], intro impI)
    fix f :: "net \<Rightarrow> WriterHistory \<Rightarrow> CacheChange_t \<Rightarrow> bool \<Rightarrow> 'a StatefulWriter \<Rightarrow> (DeliveryRetCode \<times> bool \<times> 'a StatefulWriter) option"
      and net h c r w out
    assume f: "\<And>net h c r w out. f net h c r w = Some out \<Longrightarrow> ?P net h c r w out"
      and w: "sw_inv (h, w)" and c: "cc_sequenceNumber c \<le> m_lastCacheChangeSeqNum h"
      and body: "do { (ret, m, r, w) \<leftarrow> network_round net h c r w;
        if ret = DELIVERED \<and> m \<noteq> of_nat (cc_fragment_count c) + 1 then f net h c r w else Some (ret, r, w) } = Some out"
    obtain ret m r1 w1 where n: "network_round net h c r w = Some (ret, m, r1, w1)"
      "(if ret = DELIVERED \<and> m \<noteq> of_nat (cc_fragment_count c) + 1 then f net h c r1 w1 else Some (ret, r1, w1)) = Some out"
      using body by (auto simp: bind_eq_Some_conv)
    show "sw_inv (h, snd (snd out))"
      using n(2) f [of net h c r1 w1 out] network_round_inv [OF w c n(1)] c by (auto split: if_splits)
  qed
  then show ?thesis using assms by simp
qed

lemma deliver_to_network_inv:
  assumes "deliver_sample_to_network net h c w = Some (ret, w')" "sw_inv (h, w)"
    "cc_sequenceNumber c \<le> m_lastCacheChangeSeqNum h"
  shows "sw_inv (h, w')"
proof (cases "0 \<noteq> (of_nat (cc_fragment_count c) + 1 :: u32)")
  case True
  then obtain ret1 r1 w1 where n: "network_loop net h c False w = Some (ret1, r1, w1)" "readers_of w' = readers_of w1"
    using assms(1) unfolding deliver_sample_to_network_def by (auto simp: bind_eq_Some_conv split: if_splits)
  show ?thesis by (rule readers_of_inv [OF network_loop_inv [OF n(1) assms(2,3)] n(2)])
qed (use assms in \<open>simp add: deliver_sample_to_network_def\<close>)

subsection \<open>Matching keeps the invariant\<close>

lemma reader_good_fresh:
  assumes "history_good g h" "changes_for_reader rp = []" "changes_low_mark rp = 0"
  shows "reader_good h rp"
  using assms history_goodD [OF assms(1)]
  by (auto simp: reader_good_def rp_ok_def rp_inv_def rp_in_history_def)

lemma acked_zero_fresh:
  assumes "history_good g h" "changes_for_reader rp = []" "changes_low_mark rp = 0" "durability_kind rp \<noteq> VOLATILE"
  shows "reader_good h (acked_changes_set h g 0 rp)" "changes_for_reader (acked_changes_set h g 0 rp) = []"
    "c \<in> set (m_changes h) \<Longrightarrow> changes_low_mark (acked_changes_set h g 0 rp) < cc_sequenceNumber c"
proof -
  note fresh = reader_good_fresh [OF assms(1-3)] and hg = history_goodD [OF assms(1)]
  show "reader_good h (acked_changes_set h g 0 rp)" using reader_good_acked [OF assms(1) fresh, of 0] hg(4) by simp
  show "changes_for_reader (acked_changes_set h g 0 rp) = []"
  proof (cases "get_seq_num_min h = SN_UNKNOWN")
    case True
    then show ?thesis using assms(2,3) by (simp add: acked_changes_set_def)
  next
    case False
    then obtain new where new: "cfr_seq_num ` set new =
        {n. n \<le> changes_low_mark rp \<and> n \<in> cc_sequenceNumber ` set (m_changes h)}"
      "acked_changes_set h g 0 rp = rp\<lparr>changes_for_reader := sort_key cfr_seq_num (changes_for_reader rp @ new),
          changes_low_mark := get_seq_num_min h - 1\<rparr>"
      using acked_changes_set_resend [OF _ _ hg(1-3) _ assms(4) False] fresh assms(3)
      by (auto simp: reader_good_def rp_ok_def)
    have "cfr_seq_num ` set new = {}" unfolding new(1) assms(3) by (auto dest: hg(5))
    then show ?thesis using new(2) assms(2) by simp
  qed
  show "changes_low_mark (acked_changes_set h g 0 rp) < cc_sequenceNumber c" if "c \<in> set (m_changes h)"
  proof -
    have "m_changes h \<noteq> []" using that by auto
    then have min: "get_seq_num_min h \<noteq> SN_UNKNOWN" "0 < get_seq_num_min h"
      using get_seq_num_min_known [OF assms(1)] by auto
    then have "changes_low_mark (acked_changes_set h g 0 rp) = get_seq_num_min h - 1"
      using acked_changes_set_resend [OF _ _ hg(1-3) _ assms(4) min(1)] fresh assms(3)
      by (auto simp: reader_good_def rp_ok_def)
    then show ?thesis using get_seq_num_min_le [OF hg(1) that] by simp
  qed
qed

lemma rp_start_good:
  fixes rp rp' :: "'loc ReaderProxy" and rd :: "'loc ReaderProxyData"
  assumes "history_good g h" "changes_for_reader rp = []" "changes_low_mark rp = 0" and start: "rp' = rp_start h g setting rd ds rp"
  shows "reader_good h rp'" "changes_for_reader rp' = []"
    "durability_kind rp' \<noteq> VOLATILE \<Longrightarrow> c \<in> set (m_changes h) \<Longrightarrow> changes_low_mark rp' < cc_sequenceNumber c"
proof -
  define rp1 where "rp1 = rp\<lparr>locator_info := snd (locator_start setting g (rd_guid rd) (rd_unicast rd) (rd_multicast rd)
        (rd_expects_inline_qos rd) ds (locator_info rp)),
      rp_is_active := True, durability_kind := rd_durability rd, rp_expects_inline_qos := rd_expects_inline_qos rd,
      rp_is_reliable := rd_reliable rd, rp_disable_positive_acks := rd_disable_positive_acks rd\<rparr>"
  define rp2 where "rp2 = (if durability_kind rp1 = VOLATILE
      then rp1\<lparr>changes_low_mark := if get_seq_num_min h = SN_UNKNOWN then next_sequence_number h - 1
              else get_seq_num_min h - 1\<rparr>
      else acked_changes_set h g 0 rp1)"
  have rp1: "changes_for_reader rp1 = []" "changes_low_mark rp1 = 0" using assms by (simp_all add: rp1_def)
  note fresh = reader_good_fresh [OF assms(1) rp1]
  have rp': "changes_for_reader rp' = changes_for_reader rp2" "changes_low_mark rp' = changes_low_mark rp2"
    "durability_kind rp' = durability_kind rp2"
    unfolding start rp_start_def rp2_def rp1_def by (simp_all add: Let_def)
  have dk: "durability_kind rp2 = durability_kind rp1" by (simp add: rp2_def acked_changes_set_def Let_def split: prod.split)
  have vol: "reader_good h rp2" "changes_for_reader rp2 = []" if "durability_kind rp1 = VOLATILE"
    using that rp1 fresh get_seq_num_min_known [OF assms(1)] history_goodD(4) [OF assms(1)]
    by (auto simp: rp2_def reader_good_def rp_ok_def rp_inv_def rp_in_history_def next_sequence_number_def)
  have dur: "rp2 = acked_changes_set h g 0 rp1" if "durability_kind rp1 \<noteq> VOLATILE" using that by (simp add: rp2_def)
  have good: "reader_good h rp2 \<and> changes_for_reader rp2 = []"
  proof (cases "durability_kind rp1 = VOLATILE")
    case False
    show ?thesis unfolding dur [OF False] using acked_zero_fresh(1,2) [OF assms(1) rp1 False] by blast
  qed (use vol in blast)
  then show "changes_for_reader rp' = []" using rp' by simp
  show "reader_good h rp'" using reader_good_same [OF conjunct1 [OF good] rp'(1,2)] .
  assume "durability_kind rp' \<noteq> VOLATILE" "c \<in> set (m_changes h)"
  then show "changes_low_mark rp' < cc_sequenceNumber c"
    using dur rp'(2,3) dk acked_zero_fresh(3) [OF assms(1) rp1] by simp
qed

lemma late_joiner_good:
  fixes rp :: "'loc ReaderProxy"
  assumes "history_good g h" "reader_good h rp" "sorted_wrt (<) (map cc_sequenceNumber cs)" "set cs \<subseteq> set (m_changes h)"
    "\<forall>c\<in>set cs. changes_low_mark rp < cc_sequenceNumber c \<and> (\<forall>d\<in>set (changes_for_reader rp). cfr_seq_num d < cc_sequenceNumber c)"
  shows "reader_good h (snd (fold (late_joiner_sample env) cs (msgs, rp)))"
  using assms(2-5)
proof (induction cs arbitrary: msgs rp)
  case (Cons c cs)
  obtain msgs' rp' where e: "late_joiner_sample env c (msgs, rp) = (msgs', rp')" by fastforce
  have "rp' = rp \<or> (\<exists>d. rp' = rp_add_change d True False rp \<and> cfr_seq_num d = cc_sequenceNumber c)"
    using e by (auto simp: late_joiner_sample_def ChangeForReader_def split: if_splits)
  then show ?case
  proof
    assume "rp' = rp"
    then show ?thesis using Cons.IH [of rp msgs'] Cons.prems e by simp
  next
    assume "\<exists>d. rp' = rp_add_change d True False rp \<and> cfr_seq_num d = cc_sequenceNumber c"
    then obtain d where d: "rp' = rp_add_change d True False rp" "cfr_seq_num d = cc_sequenceNumber c" by blast
    have c: "c \<in> set (m_changes h)" using Cons.prems(3) by simp
    have "reader_good h rp'" unfolding d(1)
      by (rule reader_good_add) (use Cons.prems d(2) c history_goodD(6) [OF assms(1)] in auto)
    moreover have "cfr_seq_num ` set (changes_for_reader rp') \<subseteq> insert (cfr_seq_num d) (cfr_seq_num ` set (changes_for_reader rp))"
      unfolding d(1) by (auto simp: rp_add_change_def rp_add_change_basic_def)
    moreover have "changes_low_mark rp' = changes_low_mark rp \<or> changes_low_mark rp' = cfr_seq_num d"
      unfolding d(1) by (rule rp_add_change_mark)
    ultimately have "reader_good h (snd (fold (late_joiner_sample env) cs (msgs', rp')))"
      using Cons.prems d(2) by (intro Cons.IH) fastforce+
    then show ?thesis using e by simp
  qed
qed simp

lemma greet_reader_good:
  fixes rp rp' :: "'loc ReaderProxy"
  assumes "history_good (sw_guid w) h" "reader_good h rp" "changes_for_reader rp = []"
    "\<And>c. durability_kind rp \<noteq> VOLATILE \<Longrightarrow> c \<in> set (m_changes h) \<Longrightarrow> changes_low_mark rp < cc_sequenceNumber c"
    "greet_reader env h rp w = (rp', w')"
  shows "reader_good h rp'" "readers_of w' = readers_of w"
proof -
  note hg = history_goodD [OF assms(1)]
  have acked: "reader_good h (acked_changes_set h (sw_guid w) (next_sequence_number h) rp)"
    by (rule reader_good_acked [OF assms(1,2)]) (simp add: next_sequence_number_def)
  have late: "reader_good h (snd (fold (late_joiner_sample env) (m_changes h) ([], rp)))" if "durable (durability_kind rp)"
    using that assms(3,4) hg(1) by (intro late_joiner_good [OF assms(1,2)]) (auto simp: durable_def wh_inv_def)
  show "reader_good h rp'" using assms(2,5) late acked
    unfolding greet_reader_def by (auto simp: Let_def split: if_splits prod.splits)
  show "readers_of w' = readers_of w" using assms(5)
    unfolding greet_reader_def by (auto simp: Let_def split: if_splits prod.splits)
qed

lemma set_push_matched_reader:
  "set (matched_readers (push_matched_reader rp w)) = insert rp (set (matched_readers w))"
  "matched_readers_pool (push_matched_reader rp w) = matched_readers_pool w" "sw_guid (push_matched_reader rp w) = sw_guid w"
  by (auto simp: push_matched_reader_def matched_readers_def)

lemma sw_inv_push_reader: "sw_inv (h, w) \<Longrightarrow> reader_good h rp \<Longrightarrow> sw_inv (h, push_matched_reader rp w)"
  by (simp add: sw_inv_def set_push_matched_reader)

lemma new_reader_inv:
  fixes rp :: "'loc ReaderProxy" and rdata :: "'loc ReaderProxyData"
  assumes "sw_inv (h, w)" "changes_for_reader rp = []" "changes_low_mark rp = 0"
    "greet_reader env h ((rp_start h (sw_guid w) setting rdata ds rp)\<lparr>locator_info := li\<rparr>) w = (rp', w')"
  shows "sw_inv (h, push_matched_reader rp' w')"
proof -
  note hg = sw_invD(1) [OF assms(1)]
  note start = rp_start_good [OF hg assms(2,3) refl, of setting rdata ds]
  have "reader_good h ((rp_start h (sw_guid w) setting rdata ds rp)\<lparr>locator_info := li\<rparr>)"
    by (rule reader_good_same [OF start(1)]) simp_all
  then have "reader_good h rp' \<and> readers_of w' = readers_of w"
    using greet_reader_good [OF hg _ _ _ assms(4)] start(2,3) by simp
  then show ?thesis using readers_of_inv [OF assms(1)] sw_inv_push_reader by blast
qed

lemma rp_stop_fresh: "changes_for_reader (rp_stop rp) = []" "changes_low_mark (rp_stop rp) = 0"
  by (simp_all add: rp_stop_def Let_def)

lemma sw_inv_pool:
  assumes "sw_inv (h, w)" "\<And>rp. rp \<in> set rps \<Longrightarrow> changes_for_reader rp = [] \<and> changes_low_mark rp = 0"
  shows "sw_inv (h, w\<lparr>matched_readers_pool := rps\<rparr>)"
  using assms by (simp add: sw_inv_def matched_readers_def)

lemma add_reader_inv:
  fixes s :: "'loc sw_state"
  assumes "sw_inv s" "matched_reader_add_edp env setting ni nf rdata ds s = (b, l, s')"
  shows "sw_inv s'"
proof -
  obtain h w where s: "s = (h, w)" by fastforce
  note inv = assms(1) [unfolded s]
  define i where "i = find_index (\<lambda>reader. guid_eq (rp_guid reader) (rd_guid rdata)) (matched_readers w)"
  define full where "full \<longleftrightarrow> matched_readers_pool w = [] \<and>
      \<not> get_matched_readers_size w + length (matched_readers_pool w) < sw_max_readers w"
  define rw where "rw = (if matched_readers_pool w = [] then (rp_init ni nf, w)
      else (last (matched_readers_pool w), w\<lparr>matched_readers_pool := butlast (matched_readers_pool w)\<rparr>))"
  note def = assms(2) [unfolded s matched_reader_add_edp_def Let_def prod.case, folded i_def, folded full_def rw_def]
  consider (none) "guid_eq (rd_guid rdata) c_Guid_Unknown" | (old) "\<not> guid_eq (rd_guid rdata) c_Guid_Unknown" "i < length (matched_readers w)"
    | (new) "\<not> guid_eq (rd_guid rdata) c_Guid_Unknown" "\<not> i < length (matched_readers w)" by blast
  then show ?thesis
  proof cases
    case none
    then show ?thesis using def inv by simp
  next
    case old
    then obtain rp where "s' = (h, set_matched_reader i rp w)" "changes_for_reader rp = changes_for_reader (matched_readers w ! i)"
      "changes_low_mark rp = changes_low_mark (matched_readers w ! i)"
      using def by (auto simp: rp_update_def)
    then show ?thesis using sw_inv_set [OF inv reader_good_same [OF sw_inv_nth [OF inv old(2)]]] by simp
  next
    case new
    obtain rp w1 where rw: "rw = (rp, w1)" by fastforce
    have "changes_for_reader rp = [] \<and> changes_low_mark rp = 0 \<and> sw_inv (h, w1)"
      using rw inv sw_invD(3) [OF inv last_in_set] sw_inv_pool [OF inv sw_invD(3) [OF inv in_set_butlastD]]
      by (auto simp: rw_def rp_init_def rp_stop_fresh split: if_splits)
    then show ?thesis using new def rw new_reader_inv [of h w1 rp env] inv
      by (auto split: if_splits prod.splits)
  qed
qed

lemma get_change_in: "get_change s g h = Some c \<Longrightarrow> c \<in> set (m_changes h) \<and> cc_sequenceNumber c = s"
proof -
  have "snd (get_change_loop s g i cs) = Some c \<Longrightarrow> c \<in> set cs \<and> cc_sequenceNumber c = s" for i cs
    by (induction cs arbitrary: i) (auto split: if_splits)
  then show "get_change s g h = Some c \<Longrightarrow> c \<in> set (m_changes h) \<and> cc_sequenceNumber c = s"
    by (auto simp: get_change_def get_change_nts_def split: if_splits)
qed

lemma remove_reader_sub: "remove_reader g rps = (r, rps') \<Longrightarrow> set rps' \<subseteq> set rps"
  by (induction rps arbitrary: r rps') (auto split: if_splits prod.splits)

context sw_listener
begin

lemma remove_reader_inv:
  assumes "sw_inv s" "matched_reader_remove env g s = Some (b, s')"
  shows "sw_inv s'"
proof -
  obtain h w where s: "s = (h, w)" by fastforce
  obtain r1 l where l: "remove_reader g (matched_local_readers w) = (r1, l)" by fastforce
  obtain r2 d where d: "(if r1 = None then remove_reader g (matched_datasharing_readers w)
    else (r1, matched_datasharing_readers w)) = (r2, d)" by fastforce
  obtain r3 r where r: "(if r2 = None then remove_reader g (matched_remote_readers w)
    else (r2, matched_remote_readers w)) = (r3, r)" by fastforce
  define w1 where "w1 = w\<lparr>matched_local_readers := l, matched_datasharing_readers := d, matched_remote_readers := r\<rparr>"
  define w2 where "w2 = (if get_matched_readers_size w1 = 0
    then w1\<lparr>periodic_hb_event := cancel_timer (periodic_hb_event w1)\<rparr> else w1)"
  have sub: "set l \<subseteq> set (matched_local_readers w)" "set d \<subseteq> set (matched_datasharing_readers w)"
    "set r \<subseteq> set (matched_remote_readers w)"
    using remove_reader_sub [OF l] d r by (auto dest: remove_reader_sub split: if_splits)
  have w1: "sw_inv (h, w1)" unfolding w1_def
    by (intro sw_inv_remote sw_inv_datasharing sw_inv_local)
      (use assms(1) s sub sw_inv_parts [of h w] in auto)
  then have w2: "sw_inv (h, w2)" using readers_of_inv [OF w1] by (simp add: w2_def)
  have "(case r3 of Some rp \<Rightarrow> do {
             s \<leftarrow> check_acked_status env (h, w2\<lparr>matched_readers_pool := matched_readers_pool w2 @ [rp_stop rp]\<rparr>);
             Some (True, s) }
         | None \<Rightarrow> Some (False, h, w2)) = Some (b, s')"
    using assms(2) l d r unfolding matched_reader_remove_def s w2_def w1_def by (auto simp: Let_def split: if_splits prod.splits)
  moreover have "sw_inv (h, w2\<lparr>matched_readers_pool := matched_readers_pool w2 @ [rp_stop rp]\<rparr>)" for rp
    by (intro sw_inv_pool w2) (use sw_invD(3) [OF w2] rp_stop_fresh [of rp] in auto)
  ultimately show ?thesis using w2 check_acked_inv by (auto simp: bind_eq_Some_conv split: option.splits)
qed

lemma acks_without_reply_inv:
  assumes "sw_inv (h, w)" "sw_last_sequence_number w \<le> m_lastCacheChangeSeqNum h" "acks_without_reply env (h, w) = Some s'"
  shows "sw_inv s'"
proof -
  have "sw_inv (h, map_matched_readers (\<lambda>reader. if rp_disable_positive_acks reader
      then acked_changes_set h (sw_guid w) (sw_last_sequence_number w + 1) reader else reader) w)"
    by (rule sw_inv_map [OF assms(1)]) (use assms(2) in \<open>simp add: reader_good_acked [OF sw_invD(1) [OF assms(1)]]\<close>)
  then show ?thesis using assms(3) check_acked_inv by (auto simp: acks_without_reply_def Let_def split: if_splits)
qed

lemma deliver_sample_inv:
  assumes "sw_inv s" "cc_sequenceNumber c \<le> m_lastCacheChangeSeqNum (fst s)" "deliver_sample_nts env net c s = Some (ret, s')"
  shows "sw_inv s'"
proof -
  obtain c1 h1 w1 where c1: "(if matched_local_readers (snd s) \<noteq> [] then deliver_sample_to_intraprocesses env c s else (c, s)) =
      (c1, h1, w1)" by (metis prod_cases3)
  have i1: "sw_inv (h1, w1)" "cc_sequenceNumber c1 \<le> m_lastCacheChangeSeqNum h1"
    using c1 assms(1,2) deliver_intraprocesses_inv [of "fst s" "snd s" c env c1 h1 w1] by (auto split: if_splits)
  define w2 where "w2 = (if matched_datasharing_readers w1 \<noteq> [] then deliver_sample_to_datasharing h1 c1 w1 else w1)"
  have w2: "sw_inv (h1, w2)" using deliver_datasharing_inv [OF i1] i1 by (simp add: w2_def)
  define sent where "sent = (if matched_remote_readers w2 \<noteq> [] then deliver_sample_to_network net h1 c1 w2 else Some (DELIVERED, w2))"
  note run = assms(3) [unfolded deliver_sample_nts_def c1 Let_def prod.case, folded w2_def, folded sent_def]
  obtain ret3 w3 where w3: "sent = Some (ret3, w3)" using run by (cases sent) auto
  have "sw_inv (h1, w3)"
    using w3 w2 deliver_to_network_inv [OF _ w2 i1(2)] by (auto simp: sent_def split: if_splits)
  moreover have "check_acked_status env (h1, w3) = Some s'" using run unfolding w3 by (auto simp: bind_eq_Some_conv)
  ultimately show ?thesis using check_acked_inv by blast
qed

lemma ack_timer_inv:
  assumes "sw_inv s" "sw_last_sequence_number (snd s) \<le> m_lastCacheChangeSeqNum (fst s)"
    "ack_timer_expired env nows s = Some (b, s')"
  shows "sw_inv s'"
  using assms
proof (induction nows arbitrary: s)
  case (Cons now later)
  obtain h w where a: "acks_without_reply env s = Some (h, w)"
    using Cons.prems(3) by (cases "acks_without_reply env s") auto
  have inv: "sw_inv (h, w)" using acks_without_reply_inv [of "fst s" "snd s"] Cons.prems(1,2) a by simp
  let ?n = "next_to_ack h (sw_guid w) (sw_last_sequence_number w)"
  define w1 where "w1 = w\<lparr>sw_last_sequence_number := ?n\<rparr>"
  have w1: "sw_inv (h, w1)" using readers_of_inv [OF inv] by (simp add: w1_def)
  note run = Cons.prems(3) [unfolded ack_timer_expired.simps a Let_def bind.simps prod.case, folded w1_def]
  show ?case
  proof (cases "get_change (sw_last_sequence_number w1) (sw_guid w1) h")
    case None
    then show ?thesis using run w1 by simp
  next
    case (Some ch)
    have "sw_last_sequence_number w1 \<le> m_lastCacheChangeSeqNum h"
      using history_goodD(6) [OF sw_invD(1) [OF w1]] get_change_in [OF Some] by metis
    then have later: "ack_timer_expired env later (h, w1) = Some (b, s') \<Longrightarrow> sw_inv s'" using Cons.IH [of "(h, w1)"] w1 by simp
    have stop: "sw_inv (h, w1\<lparr>ack_event := t\<rparr>)" for t using readers_of_inv [OF w1] by simp
    show ?thesis using run later stop unfolding Some option.case by (metis Pair_inject option.inject)
  qed
qed simp

end

end
