(* ===== verification/StatefulWriterLaws.thy ===== *)
theory StatefulWriterLaws
  imports StatefulWriterInv
begin

text \<open>
  What the reliable writer guarantees: its invariant in every reachable state (\<open>sw_reach\<close>), what an
  acknowledgement does and cannot do, that the samples a volatile writer drops are those every
  reader has, that GAPs name exactly the holes of the history, and when the delivery of a sample to
  the network ends. The contracts of listeners are locales (\<open>acked_listener\<close>, \<open>removing_listener\<close>); the
  listener of a volatile \<open>DataWriter\<close> satisfies them, that of a keyed one does not.
\<close>

subsection \<open>Abstraction and invariants\<close>

definition acked_by_readers :: "WriterHistory \<Rightarrow> 'loc StatefulWriter \<Rightarrow> int" where
  "acked_by_readers h w = (if matched_readers w = [] then m_lastCacheChangeSeqNum h
     else Min (changes_low_mark ` set (matched_readers w)))"

text \<open>
  The listener of a volatile \<open>DataWriter\<close>, \<open>on_writer_change_received_by_all\<close> in \<open>DataWriterImpl.cpp\<close>,
  for changes that are not unregistrations of a key.
\<close>

definition volatile_listener :: "'loc sw_env \<Rightarrow> CacheChange_t \<Rightarrow> 'loc sw_state \<Rightarrow> 'loc sw_state" where
  "volatile_listener env ch s =
     (let (h, w) = s in snd (remove_change_g (sw_guid w) (change_removed_by_history env h) ch (h, w)))"

definition volatile_env :: "'loc sw_env \<Rightarrow> 'loc sw_env" where
  "volatile_env env = env\<lparr>env_listener := Some (volatile_listener env)\<rparr>"

definition sw_init :: "nat \<Rightarrow> int option \<Rightarrow> bool option \<Rightarrow> 'loc StatefulWriter \<Rightarrow> 'loc StatefulWriter" where
  "sw_init initial nack_interval notifier att =
     att\<lparr>heartbeat_count := 0, matched_local_readers := [], matched_datasharing_readers := [],
         matched_remote_readers := [], matched_readers_pool := replicate initial (rp_init nack_interval notifier),
         next_all_acked_notify_sequence := 1, min_readers_low_mark := 0, all_acked := False,
         may_remove_change := 0, sw_last_sequence_number := 0, biggest_removed_sequence_number := 0,
         currentUsageSendBufferSize := sint (of_nat (sendBufferSize att) :: u32), sw_out := []\<rparr>"

inductive sw_reach :: "'loc sw_env \<Rightarrow> 'loc sw_state \<Rightarrow> bool" for env where
  init: "m_changes h = [] \<Longrightarrow> m_lastCacheChangeSeqNum h = 0 \<Longrightarrow> \<not> m_isHistoryFull h \<Longrightarrow> h_attached h \<Longrightarrow>
    guid_wf (sw_guid att) \<Longrightarrow> sw_reach env (h, sw_init n ni nf att)"
| written: "sw_reach env (h, w) \<Longrightarrow> guid_wf (cc_writerGUID ch) \<Longrightarrow>
    wi_guid writer = sw_guid w \<Longrightarrow> prepare_and_add_change writer now ch wp h = Some (True, ch', wp', h') \<Longrightarrow>
    unsent_change_added_to_history env now' ch' (h', w) = Some s' \<Longrightarrow> sw_reach env s'"
| remove: "sw_reach env (h, w) \<Longrightarrow> ch \<in> set (m_changes h) \<Longrightarrow>
    wh_remove_change (sw_guid w) (change_removed_by_history env h) ch (h, w) = (b, s') \<Longrightarrow> sw_reach env s'"
| try_remove: "sw_reach env s \<Longrightarrow> try_remove_change env woken s = (b, s') \<Longrightarrow> sw_reach env s'"
| acknack: "sw_reach env s \<Longrightarrow> br_wf sn_set \<Longrightarrow>
    process_acknack env wg rg n sn_set f s = Some (b, s') \<Longrightarrow> sw_reach env s'"
| nack_frag: "sw_reach env s \<Longrightarrow> sw_process_nack_frag wg rg n sq fs s = Some (b, s') \<Longrightarrow> sw_reach env s'"
| nack_response: "sw_reach env (h, w) \<Longrightarrow> sw_reach env (h, snd (perform_nack_response w))"
| nack_supression: "sw_reach env s \<Longrightarrow> perform_nack_supression rg s = Some s' \<Longrightarrow> sw_reach env s'"
| heartbeat: "sw_reach env (h, w) \<Longrightarrow> send_periodic_heartbeat env h f l w = Some (b, w') \<Longrightarrow> sw_reach env (h, w')"
| deliver: "sw_reach env s \<Longrightarrow> c \<in> set (m_changes (fst s)) \<Longrightarrow> deliver_sample_nts env net c s = Some (ret, s') \<Longrightarrow>
    sw_reach env s'"
| matched: "sw_reach env s \<Longrightarrow> matched_reader_add_edp env setting ni nf rdata ds s = (b, l, s') \<Longrightarrow> sw_reach env s'"
| unmatched: "sw_reach env s \<Longrightarrow> matched_reader_remove env rg s = Some (b, s') \<Longrightarrow> sw_reach env s'"
| ack_timer: "sw_reach env s \<Longrightarrow> sw_last_sequence_number (snd s) \<le> m_lastCacheChangeSeqNum (fst s) \<Longrightarrow>
    ack_timer_expired env nows s = Some (b, s') \<Longrightarrow> sw_reach env s'"

definition example_env :: "unit sw_env" where
  "example_env = \<lparr>env_filter = None, env_local = (\<lambda>_. False), env_deliver = (\<lambda>_ _. True), env_send = (\<lambda>_. True),
     env_flow_remove = (\<lambda>_. True), env_listener = None, env_locators = id\<rparr>"

definition example_sw :: "unit ReaderProxy list \<Rightarrow> unit StatefulWriter" where
  "example_sw rps = \<lparr>sw_guid = c_Guid_Unknown, push_mode = True, separate_sending_enabled = False,
     sw_durability = VOLATILE, disable_heartbeat_piggyback = True, disable_positive_acks = False,
     sw_keep_duration = time_of 0 0, sw_max_readers = 10, sendBufferSize = 65536,
     periodic_hb_event = \<lparr>te_interval = 3000, te_armed = False\<rparr>,
     nack_response_event = \<lparr>te_interval = 5, te_armed = False\<rparr>, ack_event = \<lparr>te_interval = 0, te_armed = False\<rparr>,
     heartbeat_count = 0, matched_local_readers = [], matched_datasharing_readers = [],
     matched_remote_readers = rps, matched_readers_pool = [], next_all_acked_notify_sequence = 1,
     min_readers_low_mark = 0, all_acked = False, may_remove_change = 0, sw_last_sequence_number = 0,
     biggest_removed_sequence_number = 0, currentUsageSendBufferSize = 65536, sw_out = []\<rparr>"

fun declared_gaps :: "sw_msg \<Rightarrow> int set" where
  "declared_gaps (Gap dests first s) = gap_numbers (first, s)"
| "declared_gaps _ = {}"

definition example_fragmented :: "nat \<Rightarrow> CacheChange_t" where
  "example_fragmented n = change_default\<lparr>cc_sequenceNumber := 1, cc_fragment_size := 4, cc_fragment_count := n\<rparr>"

definition frag_ready :: "nat \<Rightarrow> CacheChange_t \<Rightarrow> 'loc ReaderProxy \<Rightarrow> bool" where
  "frag_ready k c rp \<longleftrightarrow> rp_inv rp \<and> (\<exists>cfr\<in>set (changes_for_reader rp). cfr_seq_num cfr = cc_sequenceNumber c \<and>
     cfr_status cfr = UNSENT \<and> cfr_change cfr = c \<and> unsent_from k cfr)"

fun fragment_of :: "sw_msg \<Rightarrow> u32 list" where
  "fragment_of (Data_frag dests seq f inline_qos) = [f]"
| "fragment_of _ = []"

definition fragments_sent :: "'loc StatefulWriter \<Rightarrow> u32 list" where
  "fragments_sent w = concat (map fragment_of (sw_out w))"

text \<open>What one round depends on and changes: the remote readers, the way of sending and the fragments sent.\<close>

definition sending :: "'loc StatefulWriter \<Rightarrow> 'loc ReaderProxy list \<times> bool \<times> u32 list" where
  "sending w = (matched_remote_readers w, separate_sending_enabled w, fragments_sent w)"

text \<open>The end of a round.\<close>

definition restart_ack :: "net \<Rightarrow> CacheChange_t \<Rightarrow> 'loc StatefulWriter \<Rightarrow> 'loc StatefulWriter" where
  "restart_ack net c w = (if disable_positive_acks w \<and> sw_last_sequence_number w = 0
     then let w = w\<lparr>sw_last_sequence_number := cc_sequenceNumber c\<rparr>
          in if \<not> net_ack_pending net
             then w\<lparr>ack_event := restart_timer ((ack_event w)\<lparr>te_interval := ack_interval (net_now net) c w\<rparr>)\<rparr> else w
     else w)"

text \<open>
  The listener of a volatile \<open>DataWriter\<close> of a keyed topic: an unregistration removes all changes of its
  instance up to its own number (\<open>DataWriterHistory::remove_instance_changes\<close>).
\<close>

definition keyed_listener :: "'loc sw_env \<Rightarrow> CacheChange_t \<Rightarrow> 'loc sw_state \<Rightarrow> 'loc sw_state" where
  "keyed_listener env ch s =
     (if cc_kind ch = NOT_ALIVE_UNREGISTERED \<or> cc_kind ch = NOT_ALIVE_DISPOSED_UNREGISTERED
      then fold (volatile_listener env) (filter (\<lambda>c. cc_instanceHandle c = cc_instanceHandle ch \<and>
             cc_sequenceNumber c \<le> cc_sequenceNumber ch) (m_changes (fst s))) s
      else volatile_listener env ch s)"

definition update_positive_acks_times :: "Time_t \<Rightarrow> int \<Rightarrow> 'loc StatefulWriter \<Rightarrow> 'loc StatefulWriter" where
  "update_positive_acks_times keep interval w =
     w\<lparr>sw_keep_duration := keep, ack_event := restart_timer ((ack_event w)\<lparr>te_interval := interval\<rparr>)\<rparr>"

subsection \<open>What all readers have acknowledged\<close>

lemma reader_marks_min: "snd (snd (reader_marks h w)) = acked_by_readers h w"
proof -
  let ?f = "\<lambda>(reader :: 'a ReaderProxy) (all_acked, has_min_low_mark, min_low_mark).
         let reader_low_mark = changes_low_mark reader;
             (has_min_low_mark, min_low_mark) =
               (if reader_low_mark < min_low_mark \<or> \<not> has_min_low_mark then (True, reader_low_mark)
                else (has_min_low_mark, min_low_mark))
         in (if has_changes reader then False else all_acked, has_min_low_mark, min_low_mark)"
  have fold: "snd (fold ?f rps (a, True, m)) = (True, Min (insert m (changes_low_mark ` set rps)))" for rps a m
  proof (induction rps arbitrary: a m)
    case (Cons rp rps)
    have min: "Min (insert m (insert x X)) = Min (insert (if x < m then x else m) X)" if "finite X" for x m :: int and X
      using that by (cases "X = {}") (auto simp: min_def simp del: Min_ge_iff Min.bounded_iff)
    show ?case using Cons min [of "changes_low_mark ` set rps" m "changes_low_mark rp"] by (simp add: Let_def del: Min_insert)
  qed simp
  show ?thesis
  proof (cases "matched_readers w")
    case (Cons rp rps)
    have "?f rp (True, False, next_sequence_number h - 1) = (\<not> has_changes rp, True, changes_low_mark rp)"
      by (simp add: Let_def)
    then show ?thesis using fold unfolding reader_marks_def Cons acked_by_readers_def by simp
  qed (simp add: reader_marks_def acked_by_readers_def next_sequence_number_def)
qed

lemma acked_by_readers_acked: "rp \<in> set (matched_readers w) \<Longrightarrow> acked_by_readers h w \<le> changes_low_mark rp"
  by (auto simp: acked_by_readers_def)

lemma notify_start_eq:
  assumes "sorted_wrt (<) (map cc_sequenceNumber (m_changes h))"
  shows "notify_start mark h = length (takeWhile (\<lambda>c. cc_sequenceNumber c \<le> mark) (m_changes h))"
proof -
  have step: "(if length (takeWhile (\<lambda>c. cc_sequenceNumber c < mark) cs) \<noteq> length cs \<and>
        cc_sequenceNumber (cs ! length (takeWhile (\<lambda>c. cc_sequenceNumber c < mark) cs)) = mark
      then length (takeWhile (\<lambda>c. cc_sequenceNumber c < mark) cs) + 1
      else length (takeWhile (\<lambda>c. cc_sequenceNumber c < mark) cs)) = length (takeWhile (\<lambda>c. cc_sequenceNumber c \<le> mark) cs)"
    if "sorted_wrt (<) (map cc_sequenceNumber cs)" for cs
    using that
  proof (induction cs)
    case (Cons c cs)
    have "takeWhile (\<lambda>c. cc_sequenceNumber c \<le> mark) cs = []" if "cc_sequenceNumber c = mark"
      using Cons.prems that by (cases cs) auto
    then show ?case using Cons by (auto split: if_splits)
  qed simp
  have "lower_bound (\<lambda>c. cc_sequenceNumber c < mark) (m_changes h) =
      length (takeWhile (\<lambda>c. cc_sequenceNumber c < mark) (m_changes h))"
    by (rule lower_bound_takeWhile)
      (use assms in \<open>auto simp: sorted_wrt_map elim!: sorted_wrt_mono_rel [rotated]\<close>)
  then show ?thesis using step [OF assms] by (simp add: notify_start_def Let_def)
qed

text \<open>
  A listener may remove the change it hears of, but nothing before it: the loop's iterator stays valid.
  Then the loop ends: as many iterations as there are changes are enough.
\<close>

locale acked_listener = sw_listener +
  assumes keeps_prefix: "env_listener env = Some received \<Longrightarrow> sw_inv s \<Longrightarrow> i < length (m_changes (fst s)) \<Longrightarrow>
      take i (m_changes (fst (received (m_changes (fst s) ! i) s))) = take i (m_changes (fst s))"
begin

lemma notify_total:
  assumes "env_listener env = Some received" "sw_inv s" "i < length (m_changes (fst s))" "i < fuel"
    "cc_sequenceNumber (m_changes (fst s) ! 0) \<le> end_seq"
  shows "\<exists>s'. notify_received_by_all fuel received end_seq i s = Some s'"
  using assms(2-5)
proof (induction fuel arbitrary: i s)
  case (Suc fuel)
  let ?c = "m_changes (fst s) ! i" and ?s = "received (m_changes (fst s) ! i) s"
  have inv: "sw_inv ?s" by (rule keeps_inv [OF assms(1) Suc.prems(1) nth_mem [OF Suc.prems(2)]])
  have pre: "take i (m_changes (fst ?s)) = take i (m_changes (fst s))"
    by (rule keeps_prefix [OF assms(1) Suc.prems(1,2)])
  show ?case
  proof (cases "cc_sequenceNumber ?c > end_seq")
    case True
    then have i: "0 < i" using Suc.prems(4) by (cases i) auto
    then have "i \<le> length (m_changes (fst ?s))" using pre Suc.prems(2) by (metis length_take min.absorb2 min.absorb_iff2 nat_less_le)
    moreover have "m_changes (fst ?s) ! 0 = m_changes (fst s) ! 0" using pre i by (metis nth_take)
    ultimately have "\<exists>s'. notify_received_by_all fuel received end_seq (i - 1) ?s = Some s'"
      using Suc.prems i inv by (intro Suc.IH) auto
    then show ?thesis using Suc.prems(2) True i by (auto simp: Let_def)
  qed (use Suc.prems(2) in \<open>auto simp: Let_def\<close>)
qed simp

lemma notify_listener_total:
  assumes "sw_inv s" "m_changes (fst s) \<noteq> []"
  shows "\<exists>s'. notify_listener env mark s = Some s'"
proof (cases "env_listener env")
  case (Some received)
  obtain h w where s: "s = (h, w)" by fastforce
  have srt: "sorted_wrt (<) (map cc_sequenceNumber (m_changes h))" using assms(1) s by (simp add: sw_inv_def history_good_def wh_inv_def)
  have ne: "m_changes h \<noteq> []" using assms(2) s by simp
  then have min: "get_seq_num_min h = cc_sequenceNumber (m_changes h ! 0)"
    by (simp add: get_seq_num_min_def get_min_change_def hd_conv_nth)
  show ?thesis
  proof (cases "mark \<ge> get_seq_num_min h")
    case True
    then have "0 < notify_start mark h" "notify_start mark h \<le> length (m_changes h)"
      unfolding notify_start_eq [OF srt] min using ne by (cases "m_changes h"; simp add: length_takeWhile_le)+
    then show ?thesis using notify_total [OF Some assms(1), of "notify_start mark h - 1" "Suc (length (m_changes h))"
          "if get_seq_num_min h > next_all_acked_notify_sequence w then get_seq_num_min h else next_all_acked_notify_sequence w"] s min ne
      by (auto simp: notify_listener_def Some Let_def simp del: notify_received_by_all.simps)
  qed (use Some s in \<open>simp add: notify_listener_def Let_def\<close>)
qed (simp add: notify_listener_def Let_def split: prod.split)

lemma check_acked_total:
  assumes "sw_inv s"
  shows "\<exists>s'. check_acked_status env s = Some s'"
proof -
  obtain a b mark where r: "reader_marks (fst s) (snd s) = (a, b, mark)" by (metis prod_cases3)
  have "\<exists>s'. advance_notified env mark s = Some s'" if "m_changes (fst s) \<noteq> []"
    using notify_listener_total [OF assms that, of mark] by (auto simp: advance_notified_def)
  then have "\<exists>s'. advance_notified env mark s = Some s'" if "get_seq_num_min (fst s) \<noteq> SN_UNKNOWN"
    using that by (cases "m_changes (fst s)") (auto simp: get_seq_num_min_def get_min_change_def SN_UNKNOWN_def)
  then show ?thesis by (auto simp: check_acked_status_def r)
qed

end

text \<open>A listener that removes the change it hears of.\<close>

locale removing_listener = sw_listener +
  assumes removes: "env_listener env = Some received \<Longrightarrow> sw_inv s \<Longrightarrow> c \<in> set (m_changes (fst s)) \<Longrightarrow>
      m_changes (fst (received c s)) = filter (\<lambda>d. cc_sequenceNumber d \<noteq> cc_sequenceNumber c) (m_changes (fst s))"
    and counts: "env_listener env = Some received \<Longrightarrow> sw_inv s \<Longrightarrow> c \<in> set (m_changes (fst s)) \<Longrightarrow>
      next_all_acked_notify_sequence (snd (received c s)) = next_all_acked_notify_sequence (snd s)"

lemma sw_inv_sorted: "sw_inv s \<Longrightarrow> sorted_wrt (<) (map cc_sequenceNumber (m_changes (fst s)))"
  by (simp add: sw_inv_def history_good_def wh_inv_def)

lemma sorted_nth_le:
  assumes "sorted_wrt (<) (map cc_sequenceNumber cs)" "j \<le> i" "i < length cs"
  shows "cc_sequenceNumber (cs ! j) \<le> cc_sequenceNumber (cs ! i)"
proof (cases "j = i")
  case False
  then have "cc_sequenceNumber (cs ! j) < cc_sequenceNumber (cs ! i)" using assms by (simp add: sorted_wrt_iff_nth_less)
  then show ?thesis by simp
qed simp

lemma filter_other:
  assumes "sorted_wrt (<) (map cc_sequenceNumber cs)" "i < length cs"
  shows "filter (\<lambda>d. cc_sequenceNumber d \<noteq> cc_sequenceNumber (cs ! i)) cs = take i cs @ drop (Suc i) cs"
proof -
  have "sorted_wrt (<) (map cc_sequenceNumber (take i cs @ cs ! i # drop (Suc i) cs))"
    using assms id_take_nth_drop [of i cs] by simp
  then have d: "\<forall>d\<in>set (take i cs). cc_sequenceNumber d < cc_sequenceNumber (cs ! i)"
    "\<forall>d\<in>set (drop (Suc i) cs). cc_sequenceNumber (cs ! i) < cc_sequenceNumber d" by (simp_all add: sorted_wrt_append)
  then have "filter (\<lambda>d. cc_sequenceNumber d \<noteq> cc_sequenceNumber (cs ! i)) (take i cs) = take i cs"
    "filter (\<lambda>d. cc_sequenceNumber d \<noteq> cc_sequenceNumber (cs ! i)) (drop (Suc i) cs) = drop (Suc i) cs"
    by (auto simp only: filter_id_conv)
  then have "filter (\<lambda>d. cc_sequenceNumber d \<noteq> cc_sequenceNumber (cs ! i)) (take i cs @ cs ! i # drop (Suc i) cs) =
      take i cs @ drop (Suc i) cs" by simp
  then show ?thesis using id_take_nth_drop [OF assms(2)] by simp
qed

sublocale removing_listener \<subseteq> acked_listener
proof (unfold_locales, goal_cases)
  case (1 received s i)
  show ?case
    using removes [OF 1(1,2) nth_mem [OF 1(3)]] filter_other [OF sw_inv_sorted [OF 1(2)] 1(3)] 1(3) by simp
qed

context removing_listener
begin

lemma notify_removes:
  assumes "env_listener env = Some received" "sw_inv s" "i < length (m_changes (fst s))"
    "end_seq = max (cc_sequenceNumber (m_changes (fst s) ! 0)) (next_all_acked_notify_sequence (snd s))"
    "notify_received_by_all fuel received end_seq i s = Some s'"
  shows "m_changes (fst s') = filter (\<lambda>d. cc_sequenceNumber d < next_all_acked_notify_sequence (snd s) \<or>
      cc_sequenceNumber (m_changes (fst s) ! i) < cc_sequenceNumber d) (m_changes (fst s))"
  using assms(2-5)
proof (induction fuel arbitrary: i s)
  case (Suc fuel)
  let ?cs = "m_changes (fst s)" and ?n = "next_all_acked_notify_sequence (snd s)" and ?c = "m_changes (fst s) ! i"
  let ?s = "received ?c s"
  note srt = sw_inv_sorted [OF Suc.prems(1)] and c = nth_mem [OF Suc.prems(2)]
  have inv: "sw_inv ?s" by (rule keeps_inv [OF assms(1) Suc.prems(1) c])
  have cs: "m_changes (fst ?s) = take i ?cs @ drop (Suc i) ?cs" "m_changes (fst ?s) = filter (\<lambda>d. cc_sequenceNumber d \<noteq> cc_sequenceNumber ?c) ?cs"
    using removes [OF assms(1) Suc.prems(1) c] filter_other [OF srt Suc.prems(2)] by simp_all
  note run = Suc.prems(4) [unfolded notify_received_by_all.simps Let_def if_P [OF Suc.prems(2)]]
  consider (old) "cc_sequenceNumber ?c < ?n" | (stop) "\<not> cc_sequenceNumber ?c < ?n" "\<not> cc_sequenceNumber ?c > end_seq"
    | (more) "\<not> cc_sequenceNumber ?c < ?n" "cc_sequenceNumber ?c > end_seq" by blast
  then show ?case
  proof cases
    case old
    then have "s' = s" using run by simp
    then show ?thesis using old by (auto intro!: filter_True [symmetric])
  next
    case stop
    have "cc_sequenceNumber d \<noteq> cc_sequenceNumber ?c \<longleftrightarrow> cc_sequenceNumber d < ?n \<or> cc_sequenceNumber ?c < cc_sequenceNumber d"
      if "d \<in> set ?cs" for d
    proof -
      obtain j where j: "j < length ?cs" "d = ?cs ! j" using \<open>d \<in> set ?cs\<close> by (auto simp: in_set_conv_nth)
      have "cc_sequenceNumber (?cs ! 0) \<le> cc_sequenceNumber d" using sorted_nth_le [OF srt, of 0 j] j by simp
      then show ?thesis using stop Suc.prems(3) by auto
    qed
    then have "filter (\<lambda>d. cc_sequenceNumber d \<noteq> cc_sequenceNumber ?c) ?cs =
        filter (\<lambda>d. cc_sequenceNumber d < ?n \<or> cc_sequenceNumber ?c < cc_sequenceNumber d) ?cs" by (rule filter_cong [OF refl])
    then show ?thesis using run stop cs(2) by simp
  next
    case more
    then have i: "0 < i" using Suc.prems(3) by (cases i) auto
    then have cs': "m_changes (fst ?s) ! (i - 1) = ?cs ! (i - 1)" "m_changes (fst ?s) ! 0 = ?cs ! 0" "i - 1 < length (m_changes (fst ?s))"
      using Suc.prems(2) by (simp_all add: cs(1) nth_append)
    have n: "next_all_acked_notify_sequence (snd ?s) = ?n" by (rule counts [OF assms(1) Suc.prems(1) c])
    have "m_changes (fst s') = filter (\<lambda>d. cc_sequenceNumber d < ?n \<or> cc_sequenceNumber (?cs ! (i - 1)) < cc_sequenceNumber d) (m_changes (fst ?s))"
      using Suc.IH [OF inv cs'(3)] run more i Suc.prems(3) unfolding cs'(1,2) n by simp
    also have "\<dots> = filter (\<lambda>d. cc_sequenceNumber d < ?n \<or> cc_sequenceNumber ?c < cc_sequenceNumber d) ?cs"
    proof -
      have "(cc_sequenceNumber d < ?n \<or> cc_sequenceNumber (?cs ! (i - 1)) < cc_sequenceNumber d) \<and> cc_sequenceNumber d \<noteq> cc_sequenceNumber ?c \<longleftrightarrow>
          cc_sequenceNumber d < ?n \<or> cc_sequenceNumber ?c < cc_sequenceNumber d" if "d \<in> set ?cs" for d
      proof -
        obtain j where j: "j < length ?cs" "d = ?cs ! j" using \<open>d \<in> set ?cs\<close> by (auto simp: in_set_conv_nth)
        have "j \<le> i - 1 \<or> j = i \<or> i < j" using i by linarith
        moreover have "j \<le> i - 1 \<Longrightarrow> cc_sequenceNumber d \<le> cc_sequenceNumber (?cs ! (i - 1))"
          using sorted_nth_le [OF srt, of j "i - 1"] j Suc.prems(2) by simp
        moreover have "cc_sequenceNumber (?cs ! (i - 1)) < cc_sequenceNumber ?c" using srt Suc.prems(2) i by (simp add: sorted_wrt_iff_nth_less)
        moreover have "i < j \<Longrightarrow> cc_sequenceNumber ?c < cc_sequenceNumber d" using srt j by (simp add: sorted_wrt_iff_nth_less)
        ultimately show ?thesis using more(1) j(2) by auto
      qed
      then show ?thesis unfolding cs(2) filter_filter by (intro filter_cong [OF refl]) blast
    qed
    finally show ?thesis .
  qed
qed simp

end

lemma fold_gap_counts:
  "next_all_acked_notify_sequence (fold (\<lambda>reader. intraprocess_gap env reader a b) rs w) = next_all_acked_notify_sequence w"
  by (induction rs arbitrary: w) (simp_all add: intraprocess_gap_def sw_emit_def)

lemma change_removed_counts:
  "next_all_acked_notify_sequence (snd (change_removed_by_history env h c w)) = next_all_acked_notify_sequence w"
  by (simp add: change_removed_by_history_def Let_def fold_gap_counts map_matched_readers_def)

lemma volatile_listener_spec:
  assumes "sw_inv s" "c \<in> set (m_changes (fst s))"
  shows "sw_inv (volatile_listener env c s)"
    "next_all_acked_notify_sequence (snd (volatile_listener env c s)) = next_all_acked_notify_sequence (snd s)"
    "env_flow_remove env c \<Longrightarrow> m_changes (fst (volatile_listener env c s)) =
       filter (\<lambda>d. cc_sequenceNumber d \<noteq> cc_sequenceNumber c) (m_changes (fst s))"
    "\<not> env_flow_remove env c \<Longrightarrow> fst (volatile_listener env c s) = fst s"
proof -
  obtain h w where s: "s = (h, w)" by fastforce
  note hg = history_goodD [OF sw_invD(1) [OF assms(1) [unfolded s]]]
  have c: "c \<in> set (m_changes h)" using assms(2) s by simp
  obtain b w' where r: "change_removed_by_history env h c w = (b, w')" by fastforce
  note p = wh_remove_change_present [OF hg(1-3) c, where removed = "change_removed_by_history env h", OF r]
  have v: "volatile_listener env c s = ((if b
       then h\<lparr>m_changes := filter (\<lambda>d. cc_sequenceNumber d \<noteq> cc_sequenceNumber c) (m_changes h), m_isHistoryFull := False\<rparr> else h), w')"
    by (simp add: volatile_listener_def s remove_change_g_def p)
  show "sw_inv (volatile_listener env c s)" unfolding v by (rule sw_inv_remove [OF assms(1) [unfolded s] c p])
  have b: "b = env_flow_remove env c" by (rule change_removed_inv(1) [OF assms(1) [unfolded s] c r])
  show "next_all_acked_notify_sequence (snd (volatile_listener env c s)) = next_all_acked_notify_sequence (snd s)"
    using change_removed_counts [of env h c w] by (simp add: v [unfolded s] s r)
  show "env_flow_remove env c \<Longrightarrow> m_changes (fst (volatile_listener env c s)) =
       filter (\<lambda>d. cc_sequenceNumber d \<noteq> cc_sequenceNumber c) (m_changes (fst s))"
    "\<not> env_flow_remove env c \<Longrightarrow> fst (volatile_listener env c s) = fst s" using b by (simp_all add: v [unfolded s] s)
qed

lemma volatile_env_simps [simp]: "env_listener (volatile_env env) = Some (volatile_listener env)"
  by (simp add: volatile_env_def)

interpretation quiet: acked_listener "env\<lparr>env_listener := None\<rparr>" for env :: "'loc sw_env"
  by unfold_locales simp_all

interpretation volat: acked_listener "volatile_env env" for env :: "'loc sw_env"
proof unfold_locales
  fix received and s :: "'loc sw_state" and c
  assume a: "env_listener (volatile_env env) = Some received" "sw_inv s" "c \<in> set (m_changes (fst s))"
  show "sw_inv (received c s)" using a volatile_listener_spec(1) [OF a(2,3), of env] by simp
next
  fix received and s :: "'loc sw_state" and i
  assume a: "env_listener (volatile_env env) = Some received" "sw_inv s" "i < length (m_changes (fst s))"
  show "take i (m_changes (fst (received (m_changes (fst s) ! i) s))) = take i (m_changes (fst s))"
    using a volatile_listener_spec(3,4) [OF a(2) nth_mem [OF a(3)], of env] filter_other [OF sw_inv_sorted [OF a(2)] a(3)]
    by (cases "env_flow_remove env (m_changes (fst s) ! i)") simp_all
qed

interpretation removing: removing_listener "volatile_env (env\<lparr>env_flow_remove := \<lambda>_. True\<rparr>)" for env :: "'loc sw_env"
proof unfold_locales
  fix received and s :: "'loc sw_state" and c
  assume a: "env_listener (volatile_env (env\<lparr>env_flow_remove := \<lambda>_. True\<rparr>)) = Some received" "sw_inv s" "c \<in> set (m_changes (fst s))"
  note spec = volatile_listener_spec [OF a(2,3), of "env\<lparr>env_flow_remove := \<lambda>_. True\<rparr>"]
  show "m_changes (fst (received c s)) = filter (\<lambda>d. cc_sequenceNumber d \<noteq> cc_sequenceNumber c) (m_changes (fst s))"
    "next_all_acked_notify_sequence (snd (received c s)) = next_all_acked_notify_sequence (snd s)"
    using a spec(2,3) by simp_all
qed

context sw_listener
begin

lemma try_remove_inv:
  assumes "sw_inv s" "try_remove_change env woken s = (b, s')"
  shows "sw_inv s'"
proof -
  obtain h w where s: "s = (h, w)" by fastforce
  have w: "sw_inv (h, w\<lparr>may_remove_change := n\<rparr>)" for n using readers_of_inv [of h w] assms(1) s by simp
  have min: "sw_inv s'" if "sw_inv (h, w)" "remove_min_change (sw_guid w) (change_removed_by_history env h) (h, w) = (b, s')" for w
    using that sw_inv_remove [OF that(1) hd_in_set, where env = env and h' = "fst s'" and w' = "snd s'" and b = b]
    by (auto simp: remove_min_change_def remove_change_g_def split: if_splits)
  show ?thesis using assms s min [of w] min [of "w\<lparr>may_remove_change := Suc 0\<rparr>"] w by (auto simp: try_remove_change_def Let_def split: if_splits)
qed

lemma reach_inv: "sw_reach env s \<Longrightarrow> sw_inv s"
proof (induction rule: sw_reach.induct)
  case (init h att n ni nf)
  then show ?case
    by (simp add: sw_inv_def history_good_def wh_inv_def sw_init_def matched_readers_def rp_init_def rp_stop_fresh)
next
  case (written h w ch writer now wp ch' wp' h' now' s')
  then show ?case using write_inv [OF written.IH written.hyps(3)[symmetric] written.hyps(2,4,5)] by simp
next
  case (remove h w ch b s')
  then show ?case using sw_inv_remove [OF remove.IH remove.hyps(2), of env b "fst s'" "snd s'"] by simp
next
  case (try_remove s woken b s')
  show ?case by (rule try_remove_inv [OF try_remove.IH try_remove.hyps(2)])
next
  case (acknack s sn_set wg rg n f b s')
  show ?case by (rule process_acknack_inv [OF acknack.IH acknack.hyps(2,3)])
next
  case (nack_frag s wg rg n sq fs b s')
  show ?case by (rule nack_frag_inv [OF nack_frag.IH nack_frag.hyps(2)])
next
  case (nack_response h w)
  show ?case by (rule nack_response_inv [OF nack_response.IH])
next
  case (nack_supression s rg s')
  show ?case by (rule nack_supression_inv [OF nack_supression.IH nack_supression.hyps(2)])
next
  case (heartbeat h w f l b w')
  show ?case by (rule readers_of_inv [OF heartbeat.IH send_periodic_heartbeat_same [OF heartbeat.hyps(2)]])
next
  case (deliver s c net ret s')
  show ?case
    using history_goodD(6) [OF sw_invD(1), of "fst s" "snd s" c] deliver.IH deliver.hyps(2)
    by (intro deliver_sample_inv [OF deliver.IH _ deliver.hyps(3)]) simp
next
  case (matched s setting ni nf rdata ds b l s')
  show ?case by (rule add_reader_inv [OF matched.IH matched.hyps(2)])
next
  case (unmatched s rg b s')
  show ?case by (rule remove_reader_inv [OF unmatched.IH unmatched.hyps(2)])
next
  case (ack_timer s nows b s')
  show ?case by (rule ack_timer_inv [OF ack_timer.IH ack_timer.hyps(2,3)])
qed

end

context removing_listener
begin

lemma notify_listener_removes:
  assumes "env_listener env = Some received" "sw_inv (h, w)" "m_changes h \<noteq> []" "notify_listener env mark (h, w) = Some s'"
  shows "m_changes (fst s') = filter (\<lambda>c. cc_sequenceNumber c < next_all_acked_notify_sequence w \<or>
      mark < cc_sequenceNumber c) (m_changes h)"
proof -
  let ?cs = "m_changes h" and ?k = "notify_start mark h"
  have srt: "sorted_wrt (<) (map cc_sequenceNumber ?cs)" using sw_inv_sorted [OF assms(2)] by simp
  have min: "get_seq_num_min h = cc_sequenceNumber (?cs ! 0)"
    using assms(3) by (simp add: get_seq_num_min_def get_min_change_def hd_conv_nth)
  note k = notify_start_eq [OF srt, of mark]
  show ?thesis
  proof (cases "get_seq_num_min h \<le> mark")
    case True
    then have k0: "0 < ?k" "?k \<le> length ?cs"
      unfolding k min using assms(3) by (cases ?cs; simp add: length_takeWhile_le)+
    have le: "cc_sequenceNumber (?cs ! i) \<le> mark" if "i < ?k" for i
    proof -
      have i: "i < length (takeWhile (\<lambda>c. cc_sequenceNumber c \<le> mark) ?cs)" using that by (simp add: k)
      show ?thesis using set_takeWhileD [OF nth_mem [OF i]] takeWhile_nth [OF i] by simp
    qed
    have gt: "mark < cc_sequenceNumber (?cs ! i)" if "?k \<le> i" "i < length ?cs" for i
    proof -
      have "\<not> cc_sequenceNumber (?cs ! ?k) \<le> mark"
        using nth_length_takeWhile [of "\<lambda>c. cc_sequenceNumber c \<le> mark" ?cs] that unfolding k by simp
      then show ?thesis using sorted_nth_le [OF srt that] by simp
    qed
    have run: "notify_received_by_all (Suc (length ?cs)) received
        (max (cc_sequenceNumber (?cs ! 0)) (next_all_acked_notify_sequence w)) (?k - 1) (h, w) = Some s'"
    proof -
      have "(if get_seq_num_min h > next_all_acked_notify_sequence w then get_seq_num_min h else next_all_acked_notify_sequence w) =
          max (cc_sequenceNumber (?cs ! 0)) (next_all_acked_notify_sequence w)" by (simp add: min max_def)
      then show ?thesis
        using assms(4) True k0 by (simp add: notify_listener_def assms(1) Let_def del: notify_received_by_all.simps)
    qed
    have res: "m_changes (fst s') = filter (\<lambda>d. cc_sequenceNumber d < next_all_acked_notify_sequence w \<or>
      cc_sequenceNumber (?cs ! (?k - 1)) < cc_sequenceNumber d) ?cs"
      using notify_removes [OF assms(1,2) _ _ run] k0 by simp
    have "cc_sequenceNumber (?cs ! (?k - 1)) < cc_sequenceNumber d \<longleftrightarrow> mark < cc_sequenceNumber d" if "d \<in> set ?cs" for d
    proof -
      obtain i where i: "i < length ?cs" "d = ?cs ! i" using \<open>d \<in> set ?cs\<close> by (auto simp: in_set_conv_nth)
      show ?thesis
      proof (cases "?k \<le> i")
        case True
        then show ?thesis using gt [OF True i(1)] le [of "?k - 1"] k0 i by simp
      next
        case False
        then have "i \<le> ?k - 1" "?k - 1 < length ?cs" using k0 by linarith+
        then show ?thesis using False le [of i] i sorted_nth_le [OF srt, of i "?k - 1"] by simp
      qed
    qed
    then show ?thesis unfolding res by (intro filter_cong) auto
  next
    case False
    then have "s' = (h, w)" using assms(4) by (auto simp: notify_listener_def assms(1) Let_def)
    moreover have "mark < cc_sequenceNumber c" if "c \<in> set ?cs" for c
      using that False min sorted_nth_le [OF srt, of 0] by (fastforce simp: in_set_conv_nth)
    ultimately show ?thesis by (auto intro!: filter_True [symmetric])
  qed
qed

lemma check_acked_removes:
  assumes "env_listener env = Some received" "sw_inv (h, w)" "check_acked_status env (h, w) = Some s'"
  shows "m_changes (fst s') = filter (\<lambda>c. cc_sequenceNumber c < next_all_acked_notify_sequence w \<or>
      acked_by_readers h w < cc_sequenceNumber c) (m_changes h)"
proof -
  let ?m = "acked_by_readers h w"
  obtain a b where r: "reader_marks h w = (a, b, ?m)" using reader_marks_min [of h w] by (metis prod.collapse)
  obtain s1 where s1: "(if get_seq_num_min h \<noteq> SN_UNKNOWN
      then map_option (update_marks ?m) (advance_notified env ?m (h, w)) else Some (h, w)) = Some s1"
    "m_changes (fst s') = m_changes (fst s1)"
    using assms(3) by (auto simp: check_acked_status_def r bind_eq_Some_conv set_all_acked_def split: prod.splits if_splits)
  have un: "get_seq_num_min h = SN_UNKNOWN \<longleftrightarrow> m_changes h = []" by (rule get_seq_num_min_known [OF sw_invD(1) [OF assms(2)]])
  show ?thesis
  proof (cases "m_changes h = []")
    case False
    then obtain s2 where s2: "advance_notified env ?m (h, w) = Some s2" "m_changes (fst s1) = m_changes (fst s2)"
      using s1(1) un by (auto simp: update_marks_def Let_def split: prod.splits)
    show ?thesis
    proof (cases "next_all_acked_notify_sequence w \<le> ?m")
      case True
      then obtain s3 where "notify_listener env ?m (h, w) = Some s3" "m_changes (fst s2) = m_changes (fst s3)"
        using s2(1) by (auto simp: advance_notified_def bind_eq_Some_conv)
      then show ?thesis using notify_listener_removes [OF assms(1,2) False] s1(2) s2(2) by simp
    next
      case gt: False
      then have "s2 = (h, w)" using s2(1) by (simp add: advance_notified_def)
      then show ?thesis using gt s1(2) s2(2) by (auto intro!: filter_True [symmetric])
    qed
  qed (use s1 un in auto)
qed

end

subsection \<open>Examples\<close>

lemma example_sw_simps [simp]:
  "sw_guid (example_sw rps) = c_Guid_Unknown" "matched_readers (example_sw rps) = rps"
  "matched_readers_pool (example_sw rps) = []" "next_all_acked_notify_sequence (example_sw rps) = 1"
  by (simp_all add: example_sw_def matched_readers_def)

lemma example_env_simps [simp]: "env_send example_env = (\<lambda>_. True)" "env_listener example_env = None"
  by (simp_all add: example_env_def)

lemma example_history_good:
  assumes "sorted_wrt (<) ns" "\<forall>n\<in>set ns. 0 < n \<and> n \<le> 7" "length ns < 10"
  shows "history_good c_Guid_Unknown (example_history (map example_numbered ns))"
proof -
  have "guid_wf c_Guid_Unknown" by (rule example_history_inv(2))
  then show ?thesis using assms
    by (auto simp: history_good_def wh_inv_def example_history_def example_numbered_def change_default_def comp_def)
qed

lemma example_sw_inv:
  assumes "sorted_wrt (<) ns" "\<forall>n\<in>set ns. 0 < n \<and> n \<le> 7" "length ns < 10" "\<forall>rp\<in>set rps. reader_good (example_history (map example_numbered ns)) rp"
  shows "sw_inv (example_history (map example_numbered ns), example_sw rps)"
  using example_history_good [OF assms(1-3)] assms(4) by (simp add: sw_inv_def)

subsection \<open>Holes\<close>

lemma hole_numbers_exact:
  assumes "sorted_wrt (<) (map cc_sequenceNumber cs)" "\<forall>c\<in>set cs. prev \<le> cc_sequenceNumber c"
  shows "\<exists>ns. hole_numbers prev cs = Some ns \<and> sorted_wrt (<) ns \<and>
    set ns = {n. prev \<le> n \<and> (\<exists>c\<in>set cs. n < cc_sequenceNumber c) \<and> n \<notin> cc_sequenceNumber ` set cs}"
  using assms
proof (induction cs arbitrary: prev)
  case (Cons c cs)
  have c: "prev \<le> cc_sequenceNumber c" using Cons.prems(2) by simp
  have gt: "\<forall>d\<in>set cs. cc_sequenceNumber c < cc_sequenceNumber d" using Cons.prems(1) by simp
  then have "\<forall>d\<in>set cs. cc_sequenceNumber c + 1 \<le> cc_sequenceNumber d" by auto
  then obtain ns where ns: "hole_numbers (cc_sequenceNumber c + 1) cs = Some ns" "sorted_wrt (<) ns"
    "set ns = {n. cc_sequenceNumber c + 1 \<le> n \<and> (\<exists>c\<in>set cs. n < cc_sequenceNumber c) \<and> n \<notin> cc_sequenceNumber ` set cs}"
    using Cons.IH [of "cc_sequenceNumber c + 1"] Cons.prems(1) by (auto simp del: ex_simps)
  have "sorted_wrt (<) ([prev..cc_sequenceNumber c - 1] @ ns)"
    using ns(2,3) by (auto simp: sorted_wrt_append sorted_wrt_upto)
  moreover have "set ([prev..cc_sequenceNumber c - 1] @ ns) =
      {n. prev \<le> n \<and> (\<exists>c\<in>set (c # cs). n < cc_sequenceNumber c) \<and> n \<notin> cc_sequenceNumber ` set (c # cs)}"
  proof (rule set_eqI)
    fix n
    consider "n < cc_sequenceNumber c" | "n = cc_sequenceNumber c" | "cc_sequenceNumber c < n" by linarith
    then show "n \<in> set ([prev..cc_sequenceNumber c - 1] @ ns) \<longleftrightarrow>
        n \<in> {n. prev \<le> n \<and> (\<exists>c\<in>set (c # cs). n < cc_sequenceNumber c) \<and> n \<notin> cc_sequenceNumber ` set (c # cs)}"
      by cases (use gt c ns(3) in fastforce)+
  qed
  ultimately show ?case using ns(1) c by auto
qed simp

lemma no_holes:
  assumes "sorted_wrt (<) (map cc_sequenceNumber cs)" "cs \<noteq> []"
    "cc_sequenceNumber (last cs) - cc_sequenceNumber (hd cs) + 1 = int (length cs)"
    "cc_sequenceNumber (hd cs) < n" "n < cc_sequenceNumber (last cs)"
  shows "n \<in> cc_sequenceNumber ` set cs"
proof -
  let ?S = "cc_sequenceNumber ` set cs" and ?I = "{cc_sequenceNumber (hd cs)..cc_sequenceNumber (last cs)}"
  have "cc_sequenceNumber (cs ! 0) \<le> cc_sequenceNumber c \<and> cc_sequenceNumber c \<le> cc_sequenceNumber (cs ! (length cs - 1))"
    if "c \<in> set cs" for c
  proof -
    obtain i where "i < length cs" "c = cs ! i" using \<open>c \<in> set cs\<close> by (auto simp: in_set_conv_nth)
    then show ?thesis using sorted_nth_le [OF assms(1), of 0 i] sorted_nth_le [OF assms(1), of i "length cs - 1"] by simp
  qed
  then have "?S \<subseteq> ?I" using assms(2) by (auto simp: hd_conv_nth last_conv_nth)
  moreover have "card ?S = length cs"
    using assms(1) distinct_card [of "map cc_sequenceNumber cs"] by (simp add: strict_sorted_iff)
  then have "card ?S = card ?I" using assms(3) by simp
  ultimately have "?S = ?I" by (intro card_subset_eq) auto
  then show ?thesis using assms(4,5) by auto
qed

lemma holes_in_history:
  assumes "history_good g h" "m_changes h \<noteq> []"
  shows "\<exists>ns. hole_numbers (cc_sequenceNumber (hd (m_changes h)) + 1) (tl (m_changes h)) = Some ns \<and> sorted_wrt (<) ns \<and>
    set ns = {n. get_seq_num_min h < n \<and> n < get_seq_num_max h \<and> n \<notin> cc_sequenceNumber ` set (m_changes h)}"
proof -
  obtain c cs where h: "m_changes h = c # cs" using assms(2) by (cases "m_changes h") auto
  have srt: "sorted_wrt (<) (map cc_sequenceNumber (c # cs))" using assms(1) h by (simp add: history_good_def wh_inv_def)
  then have gt: "\<forall>d\<in>set cs. cc_sequenceNumber c + 1 \<le> cc_sequenceNumber d" by auto
  have last: "cs \<noteq> [] \<Longrightarrow> d \<in> set cs \<Longrightarrow> cc_sequenceNumber d \<le> cc_sequenceNumber (last cs)" for d
    using sorted_nth_le [of cs _ "length cs - 1"] srt by (auto simp: in_set_conv_nth last_conv_nth)
  have ex: "(\<exists>d\<in>set cs. n < cc_sequenceNumber d) \<longleftrightarrow> cs \<noteq> [] \<and> n < cc_sequenceNumber (last cs)" for n
  proof
    assume "\<exists>d\<in>set cs. n < cc_sequenceNumber d"
    then obtain d where d: "d \<in> set cs" "n < cc_sequenceNumber d" by blast
    then show "cs \<noteq> [] \<and> n < cc_sequenceNumber (last cs)" using last [of d] by (cases cs) auto
  next
    assume "cs \<noteq> [] \<and> n < cc_sequenceNumber (last cs)"
    then show "\<exists>d\<in>set cs. n < cc_sequenceNumber d" using last_in_set by blast
  qed
  have min: "get_seq_num_min h = cc_sequenceNumber c" "get_seq_num_max h = cc_sequenceNumber (last (c # cs))"
    using h by (simp_all add: get_seq_num_min_def get_min_change_def get_seq_num_max_def get_max_change_def)
  from hole_numbers_exact [OF _ gt] srt obtain ns where ns: "hole_numbers (cc_sequenceNumber c + 1) cs = Some ns" "sorted_wrt (<) ns"
    "set ns = {n. cc_sequenceNumber c + 1 \<le> n \<and> (\<exists>c\<in>set cs. n < cc_sequenceNumber c) \<and> n \<notin> cc_sequenceNumber ` set cs}" by auto
  have "set ns = {n. get_seq_num_min h < n \<and> n < get_seq_num_max h \<and> n \<notin> cc_sequenceNumber ` set (m_changes h)}"
    unfolding ns(3) ex min h by (auto split: if_splits)
  then show ?thesis using ns(1,2) h by simp
qed

text \<open>
  C14. Before a heartbeat the writer declares the holes of its history: the loop over the history ends, and
  if every GAP can be sent, the GAPs it emits name exactly the numbers between the first and the
  last stored sample that are not stored.
\<close>

theorem gaps_name_the_holes:
  assumes "history_good g h" "\<forall>m. env_send env m"
  shows "\<exists>w' msgs. add_gaps_for_holes_in_history env h dests w = Some w' \<and> sw_out w' = sw_out w @ msgs \<and>
    \<Union> (declared_gaps ` set msgs) =
      {n. get_seq_num_min h < n \<and> n < get_seq_num_max h \<and> n \<notin> cc_sequenceNumber ` set (m_changes h)}"
proof (cases "SN_UNKNOWN \<noteq> get_seq_num_min h \<and> get_seq_num_max h - get_seq_num_min h + 1 \<noteq> int (length (m_changes h))")
  case True
  then have "m_changes h \<noteq> []" using get_seq_num_min_known(1) [OF assms(1)] by auto
  from holes_in_history [OF assms(1) this] obtain ns where ns: "hole_numbers (cc_sequenceNumber (hd (m_changes h)) + 1) (tl (m_changes h)) = Some ns"
    "sorted_wrt (<) ns" "set ns = {n. get_seq_num_min h < n \<and> n < get_seq_num_max h \<and> n \<notin> cc_sequenceNumber ` set (m_changes h)}" by blast
  define gb where "gb = fold (\<lambda>n g. snd (gap_add (env_send env) n g)) ns gap_builder_init"
  have "gb_inv gb \<and> gb_numbers gb = set ns"
    using gap_adds_numbers [OF gap_builder_init_numbers(1) assms(2) ns(2)] by (simp add: gb_def)
  then have "\<Union> (gap_numbers ` set (gb_sent (snd (gap_flush (env_send env) gb)))) = set ns"
    using gb_numbers_flushed [OF _ assms(2)] by simp
  moreover have "declared_gaps ` set (map (\<lambda>(first, s). Gap dests first s) ms) = gap_numbers ` set ms" for ms
    by (auto simp: image_iff) force+
  ultimately show ?thesis using True ns(1,3) gb_def by (simp add: add_gaps_for_holes_in_history_def sw_emit_def)
next
  case False
  have "n \<in> cc_sequenceNumber ` set (m_changes h)" if n: "get_seq_num_min h < n" "n < get_seq_num_max h" for n
  proof (cases "m_changes h = []")
    case True
    then show ?thesis using n by (simp add: get_seq_num_min_def get_min_change_def get_seq_num_max_def get_max_change_def)
  next
    case ne: False
    then have "get_seq_num_min h = cc_sequenceNumber (hd (m_changes h))" "get_seq_num_max h = cc_sequenceNumber (last (m_changes h))"
      by (simp_all add: get_seq_num_min_def get_min_change_def get_seq_num_max_def get_max_change_def)
    moreover have "sorted_wrt (<) (map cc_sequenceNumber (m_changes h))" using assms(1) by (simp add: history_good_def wh_inv_def)
    ultimately show ?thesis using no_holes [OF _ ne, of n] False get_seq_num_min_known(1) [OF assms(1)] ne n by auto
  qed
  then have "{n. get_seq_num_min h < n \<and> n < get_seq_num_max h \<and> n \<notin> cc_sequenceNumber ` set (m_changes h)} = {}" by blast
  then show ?thesis using False by (auto simp: add_gaps_for_holes_in_history_def)
qed

theorem gaps_name_the_holes_witness:
  "\<exists>w' msgs. add_gaps_for_holes_in_history example_env (example_history (map example_numbered [2, 4, 7])) [] (example_sw []) = Some w' \<and>
    sw_out w' = sw_out (example_sw []) @ msgs \<and> \<Union> (declared_gaps ` set msgs) = {3, 5, 6}"
proof -
  let ?h = "example_history (map example_numbered [2, 4, 7])"
  have "{n. get_seq_num_min ?h < n \<and> n < get_seq_num_max ?h \<and> n \<notin> cc_sequenceNumber ` set (m_changes ?h)} = {3, 5, 6}"
    by (auto simp: get_seq_num_min_def get_min_change_def get_seq_num_max_def get_max_change_def)
  then show ?thesis
    using gaps_name_the_holes [OF example_history_good [of "[2, 4, 7]"], of example_env "[]" "example_sw []"] by simp
qed





text \<open>
  C11. What an ACKNACK cannot do. One for another writer, one beyond the next number to be given out, one
  from an unmatched reader and one whose count is below the next expected of its reader (an old or
  repeated message) leave the writer exactly as it was.
\<close>

theorem process_acknack_ignored:
  assumes "\<not> guid_eq (sw_guid w) writer_guid \<or>
    next_sequence_number h < (if br_empty sns then br_base sns else br_max int_items sns) \<or>
    (\<forall>rp\<in>set (matched_readers w). guid_eq (rp_guid rp) reader_guid \<longrightarrow> n < next_expected_acknack_count rp)"
  shows "process_acknack env writer_guid reader_guid n sns f (h, w) = Some (guid_eq (sw_guid w) writer_guid, h, w)"
proof -
  have "\<exists>b. for_readers (acknack_reader env reader_guid n sns f) is (h, w) = Some (b, h, w)"
    if "\<forall>rp\<in>set (matched_readers w). guid_eq (rp_guid rp) reader_guid \<longrightarrow> n < next_expected_acknack_count rp"
      "\<forall>i\<in>set is. i < length (matched_readers w)" for "is"
    using that
  proof (induction "is")
    case (Cons i "is")
    have "acknack_reader env reader_guid n sns f i (h, w) = Some (guid_eq (rp_guid (matched_readers w ! i)) reader_guid, h, w)"
      using Cons.prems by (auto simp: acknack_reader_def check_and_set_acknack_count_def Let_def)
    then show ?case using Cons by (cases "guid_eq (rp_guid (matched_readers w ! i)) reader_guid") auto
  qed auto
  from this [of "[0..<length (matched_readers w)]"] assms show ?thesis
    by (auto simp: process_acknack_def for_matched_readers_def)
qed

theorem process_acknack_ignored_witness:
  "process_acknack example_env c_Guid_Unknown c_Guid_Unknown 3 (br_init int_items 2) True
     (example_history (map example_numbered [1]), example_sw [(example_proxy VOLATILE 0 [])\<lparr>next_expected_acknack_count := 4\<rparr>]) =
   Some (guid_eq c_Guid_Unknown c_Guid_Unknown, example_history (map example_numbered [1]),
     example_sw [(example_proxy VOLATILE 0 [])\<lparr>next_expected_acknack_count := 4\<rparr>])"
  by (rule process_acknack_ignored [where w = "example_sw [(example_proxy VOLATILE 0 [])\<lparr>next_expected_acknack_count := 4\<rparr>]",
        unfolded example_sw_simps]) simp

lemma for_readers_at:
  assumes "\<forall>j<i. f j s = Some (False, s)" "f i s = Some (True, s')" "i < n"
  shows "for_readers f [0..<n] s = Some (True, s')"
proof -
  have skip: "for_readers f (is @ js) s = for_readers f js s" if "\<forall>j\<in>set is. f j s = Some (False, s)" for "is" js
    using that by (induction "is") auto
  have "[0..<n] = [0..<i] @ i # [Suc i..<n]" using assms(3) by (metis less_imp_add_positive upt_add_eq_append upt_conv_Cons le0 add.commute plus_nat.add_0)
  then show ?thesis using skip [of "[0..<i]" "i # [Suc i..<n]"] assms(1,2) by simp
qed

lemma quiet_check_acked:
  "\<exists>w'. check_acked_status (env\<lparr>env_listener := None\<rparr>) (h, w) = Some (h, w') \<and> readers_of w' = readers_of w \<and>
     sw_last_sequence_number w' = sw_last_sequence_number w"
proof -
  obtain a b m where r: "reader_marks h w = (a, b, m)" by (metis prod_cases3)
  have "\<exists>w1. advance_notified (env\<lparr>env_listener := None\<rparr>) m (h, w) = Some (h, w1) \<and> readers_of w1 = readers_of w \<and>
      sw_last_sequence_number w1 = sw_last_sequence_number w"
    by (auto simp: advance_notified_def notify_listener_def Let_def)
  then obtain w1 where w1: "advance_notified (env\<lparr>env_listener := None\<rparr>) m (h, w) = Some (h, w1)" "readers_of w1 = readers_of w"
    "sw_last_sequence_number w1 = sw_last_sequence_number w" by blast
  obtain w2 where w2: "update_marks m (h, w1) = (h, w2)" "readers_of w2 = readers_of w"
    "sw_last_sequence_number w2 = sw_last_sequence_number w" using w1(2,3) by (simp add: update_marks_def Let_def)
  show ?thesis using w1(1) w2 by (simp add: check_acked_status_def r set_all_acked_def)
qed

lemma request_only_acked:
  "(\<forall>c\<in>set (request_only S cs). cfr_seq_num c = m \<longrightarrow> cfr_status c = ACKNOWLEDGED) \<longleftrightarrow>
   (\<forall>c\<in>set cs. cfr_seq_num c = m \<longrightarrow> cfr_status c = ACKNOWLEDGED)"
  by (induction cs) (simp_all add: request_only_def)

lemma requested_keeps:
  assumes "reader_good h rp" "br_wf sns" "requested_changes_set send sns (get_seq_num_min h) gap_builder_init rp = (b, gb, rp')"
  shows "change_is_acked m rp' \<longleftrightarrow> change_is_acked m rp"
    "c \<in> set (changes_for_reader rp') \<Longrightarrow> cfr_seq_num c \<in> br_items int_items sns \<Longrightarrow> cfr_status c \<noteq> UNACKNOWLEDGED"
    "changes_low_mark rp' = changes_low_mark rp"
proof -
  have inv: "rp_inv rp" using assms(1) by (simp add: reader_good_def rp_ok_def)
  note fe = sn.br_for_each_items [OF TrueI assms(2)]
  have d: "distinct (br_for_each int_items sns)" using fe(2) by (simp add: strict_sorted_iff)
  have s: "cfr_sorted (changes_for_reader rp)" using inv by (simp add: rp_inv_def)
  have hist: "rp_in_history h rp" using assms(1) by (simp add: reader_good_def rp_ok_def)
  have none: "changes_for_reader rp = []" if "get_seq_num_min h = SN_UNKNOWN"
    using hist unfolding rp_in_history_def get_seq_num_min_empty [OF hist that] by simp
  have r: "rp' = rp\<lparr>changes_for_reader := request_only (br_items int_items sns) (changes_for_reader rp)\<rparr>"
  proof (cases "get_seq_num_min h = SN_UNKNOWN")
    case True
    then show ?thesis using assms(3) none by (simp add: requested_changes_set_def request_only_def)
  next
    case False
    then show ?thesis using assms(3) unfolding requested_changes_set_def if_P [OF not_sym [OF False]] requests_spec [OF s d] fe(1) by simp
  qed
  show "changes_low_mark rp' = changes_low_mark rp" by (simp add: r)
  have "rp_inv rp' = rp_inv rp" by (rule rp_inv_cong) (simp_all add: r)
  then have inv': "rp_inv rp'" using inv by (simp only:)
  show "change_is_acked m rp' \<longleftrightarrow> change_is_acked m rp"
    unfolding change_is_acked_iff [OF inv] change_is_acked_iff [OF inv'] by (simp add: r request_only_acked)
  show "cfr_status c \<noteq> UNACKNOWLEDGED" if "c \<in> set (changes_for_reader rp')" "cfr_seq_num c \<in> br_items int_items sns"
    using that unfolding r by (auto simp: request_only_def split: if_splits)
qed



subsection \<open>Delivery to the network\<close>

text \<open>The part of a round that can change proxies.\<close>

lemma scan_reader_remote:
  "matched_remote_readers (snd (scan_reader h c i (sc, w))) = matched_remote_readers w"
  "separate_sending_enabled (snd (scan_reader h c i (sc, w))) = separate_sending_enabled w"
  by (simp_all add: scan_reader_def Let_def send_heartbeat_nts_def increment_hb_count_def sw_emit_def split: prod.split)

lemma scan_fold_remote:
  "matched_remote_readers (snd (fold (scan_reader h c) is scw)) = matched_remote_readers (snd scw) \<and>
   separate_sending_enabled (snd (fold (scan_reader h c) is scw)) = separate_sending_enabled (snd scw)"
proof (induction "is" arbitrary: scw)
  case (Cons i "is")
  show ?case using Cons [of "scan_reader h c i scw"] scan_reader_remote [of h c i "fst scw" "snd scw"] by simp
qed simp

lemma scan_min_le:
  "sc_min (fst (fold (scan_reader h c) is scw)) \<le> sc_min (fst scw) \<and>
   (sc_should_be_sent (fst scw) \<longrightarrow> sc_should_be_sent (fst (fold (scan_reader h c) is scw)))"
proof (induction "is" arbitrary: scw)
  case (Cons i "is")
  obtain sc w where s: "scw = (sc, w)" by fastforce
  have "sc_min (fst (scan_reader h c i scw)) \<le> sc_min sc" "sc_should_be_sent sc \<longrightarrow> sc_should_be_sent (fst (scan_reader h c i scw))"
    by (auto simp: s scan_reader_def Let_def split: prod.split)
  then show ?case using Cons [of "scan_reader h c i scw"] s by (auto intro: order_trans)
qed simp

lemma unsent_flag:
  "fst (change_is_unsent s f g mn r rp) = fst (change_is_unsent s f g mn False rp)"
  "fst (snd (change_is_unsent s f g mn r rp)) = fst (snd (change_is_unsent s f g mn False rp))"
  by (simp_all add: change_is_unsent_def Let_def)

lemma scan_finds:
  assumes "cc_fragment_count c \<noteq> 0" "i \<in> set is"
    "fst (change_is_unsent (cc_sequenceNumber c) 0 0 (get_seq_num_min h) False (matched_remote_readers (snd scw) ! i))"
    "fst (snd (change_is_unsent (cc_sequenceNumber c) 0 0 (get_seq_num_min h) False (matched_remote_readers (snd scw) ! i))) < m"
  shows "sc_min (fst (fold (scan_reader h c) is scw)) < m"
  using assms(2-4)
proof (induction "is" arbitrary: scw)
  case (Cons j "is")
  obtain sc w where s: "scw = (sc, w)" by fastforce
  let ?scw = "scan_reader h c j scw"
  have r: "matched_remote_readers (snd ?scw) = matched_remote_readers w" by (simp add: s scan_reader_remote)
  show ?case
  proof (cases "i \<in> set is")
    case True
    then show ?thesis using Cons.IH [of ?scw] Cons.prems(2,3) r s by simp
  next
    case False
    then have j: "j = i" using Cons.prems(1) by simp
    obtain b f g r where e: "change_is_unsent (cc_sequenceNumber c) 0 0 (get_seq_num_min h) (sc_reactivate sc) (matched_remote_readers w ! i) = (b, f, g, r)"
      by (metis prod_cases4)
    note flag = unsent_flag [of "cc_sequenceNumber c" 0 0 "get_seq_num_min h" "sc_reactivate sc" "matched_remote_readers w ! i", unfolded e]
    have b "f < m" using Cons.prems(2,3) flag s by simp_all
    note u = e [unfolded eqTrueI [OF this(1)]] this(2)
    have "sc_min (fst ?scw) \<le> f" unfolding s j by (auto simp: scan_reader_def u(1) Let_def not_le)
    then show ?thesis using scan_min_le [of h c "is" ?scw] u(2) by (auto intro: order_le_less_trans)
  qed
qed simp

lemma round_without_locators:
  assumes "\<not> separate_sending_enabled w" "\<forall>ds. net_locators net ds = 0"
  shows "\<exists>w'. network_round net h c r w = Some (DELIVERED, sc_min (fst (scan_readers h c r w)), sc_reactivate (fst (scan_readers h c r w)), w') \<and>
    matched_remote_readers w' = matched_remote_readers w \<and> separate_sending_enabled w' = separate_sending_enabled w"
proof -
  obtain sc w1 where sc: "scan_readers h c r w = (sc, w1)" by fastforce
  have w1: "matched_remote_readers w1 = matched_remote_readers w" "separate_sending_enabled w1 = separate_sending_enabled w"
    using scan_fold_remote [of h c "[0..<length (matched_remote_readers w)]"] sc unfolding scan_readers_def by (metis snd_conv)+
  show ?thesis using assms w1 unfolding network_round_def sc by (simp add: Let_def send_to_selected_def sw_emit_def)
qed

text \<open>
  C22. A fragmented sample and no locators. If no locator is selected (every remote reader is unreachable)
  while some reader still needs a fragment of the sample, the delivery never returns: nothing is
  sent, nothing is marked as sent, and the return code stays the one that keeps the loop going.
\<close>

theorem delivery_without_locators_never_ends:
  fixes rp :: "'loc ReaderProxy"
  assumes "cc_fragment_count c \<noteq> 0" "\<not> separate_sending_enabled w" "\<forall>ds. net_locators net ds = 0"
    "i < length (matched_remote_readers w)" "rp = matched_remote_readers w ! i"
    "change_is_unsent (cc_sequenceNumber c) 0 0 (get_seq_num_min h) False rp = (True, f, x)" "f < of_nat (cc_fragment_count c) + 1"
  shows "deliver_sample_to_network net h c w = None"
proof -
  let ?stuck = "\<lambda>net h c w. cc_fragment_count c \<noteq> 0 \<and> \<not> separate_sending_enabled w \<and> (\<forall>ds. net_locators net ds = 0) \<and>
    (\<exists>i<length (matched_remote_readers w). let u = change_is_unsent (cc_sequenceNumber c) 0 0 (get_seq_num_min h) False
        (matched_remote_readers w ! i) in fst u \<and> fst (snd u) < (of_nat (cc_fragment_count c) + 1 :: u32))"
  have "\<not> ?stuck net h c w" if "network_loop net h c r w = Some out" for net h c r and w :: "'loc StatefulWriter" and out
  proof (rule network_loop.raw_induct [where P = "\<lambda>net h c r w out. \<not> ?stuck net h c w", OF _ that], rule notI)
    fix g :: "net \<Rightarrow> WriterHistory \<Rightarrow> CacheChange_t \<Rightarrow> bool \<Rightarrow> 'loc StatefulWriter \<Rightarrow> (DeliveryRetCode \<times> bool \<times> 'loc StatefulWriter) option"
      and net h c r w out
    assume ih: "\<And>net h c r w out. g net h c r w = Some out \<Longrightarrow> \<not> ?stuck net h c w" and stuck: "?stuck net h c w"
      and body: "do { (ret, m, r, w) \<leftarrow> network_round net h c r w;
        if ret = DELIVERED \<and> m \<noteq> of_nat (cc_fragment_count c) + 1 then g net h c r w else Some (ret, r, w) } = Some out"
    let ?sc = "fst (scan_readers h c r w)"
    obtain w' where w': "network_round net h c r w = Some (DELIVERED, sc_min ?sc, sc_reactivate ?sc, w')"
      "matched_remote_readers w' = matched_remote_readers w" "separate_sending_enabled w' = separate_sending_enabled w"
      using round_without_locators stuck by blast
    have "sc_min ?sc < of_nat (cc_fragment_count c) + 1"
      using stuck scan_finds [of c _ "[0..<length (matched_remote_readers w)]" h] by (auto simp: scan_readers_def Let_def)
    then have "sc_min ?sc \<noteq> of_nat (cc_fragment_count c) + 1" by (rule less_imp_neq)
    then have "g net h c (sc_reactivate ?sc) w' = Some out" using body w'(1) by simp
    from ih [OF this] show False using stuck unfolding w'(2,3) by blast
  qed
  moreover have "?stuck net h c w" using assms(1-4,6,7) unfolding assms(5) by (intro conjI exI [of _ i]) simp_all
  ultimately have "network_loop net h c False w = None" by (cases "network_loop net h c False w") blast+
  moreover have "0 \<noteq> (of_nat (cc_fragment_count c) + 1 :: u32)" using assms(7) by auto
  ultimately show ?thesis by (simp add: deliver_sample_to_network_def)
qed

theorem delivery_without_locators_never_ends_witness:
  "deliver_sample_to_network \<lparr>net_result = (\<lambda>_. Accepted), net_locators = (\<lambda>_. 0), net_bytes = (\<lambda>_. 0), net_ack_pending = False,
       net_now = time_of 0 0\<rparr> (example_history [example_fragmented 2]) (example_fragmented 2)
     (example_sw [example_proxy VOLATILE 0 [ChangeForReader (example_fragmented 2)]]) = None"
proof -
  let ?rp = "example_proxy VOLATILE 0 [ChangeForReader (example_fragmented 2)]"
  have "change_is_unsent (cc_sequenceNumber (example_fragmented 2)) 0 0 (get_seq_num_min (example_history [example_fragmented 2])) False ?rp =
      (True, 1, SN_UNKNOWN, False)" by code_simp
  moreover have "(1 :: u32) < of_nat (cc_fragment_count (example_fragmented 2)) + 1" by code_simp
  moreover have "cc_fragment_count (example_fragmented 2) \<noteq> 0" by (simp add: example_fragmented_def)
  ultimately show ?thesis
    by (intro delivery_without_locators_never_ends [of _ _ _ 0 ?rp]) (simp_all add: example_sw_def)
qed

lemma frag_ready_found:
  assumes "frag_ready k c rp"
  defines "i \<equiv> find_change (cc_sequenceNumber c) (changes_for_reader rp)"
  shows "i < length (changes_for_reader rp)" "cfr_seq_num (changes_for_reader rp ! i) = cc_sequenceNumber c"
    "cfr_status (changes_for_reader rp ! i) = UNSENT" "unsent_from k (changes_for_reader rp ! i)"
    "cfr_change (changes_for_reader rp ! i) = c" "\<not> cc_sequenceNumber c \<le> changes_low_mark rp"
proof -
  obtain cfr where cfr: "cfr \<in> set (changes_for_reader rp)" "cfr_seq_num cfr = cc_sequenceNumber c" "cfr_status cfr = UNSENT"
    "cfr_change cfr = c" "unsent_from k cfr" using assms(1) by (auto simp: frag_ready_def)
  have inv: "rp_inv rp" using assms(1) by (simp add: frag_ready_def)
  then have srt: "cfr_sorted (changes_for_reader rp)" by (simp add: rp_inv_def)
  note f = find_change_present [OF srt cfr(1,2)]
  show "i < length (changes_for_reader rp)" "cfr_seq_num (changes_for_reader rp ! i) = cc_sequenceNumber c"
    "cfr_status (changes_for_reader rp ! i) = UNSENT" "unsent_from k (changes_for_reader rp ! i)"
    "cfr_change (changes_for_reader rp ! i) = c" using f cfr by (simp_all add: i_def)
  show "\<not> cc_sequenceNumber c \<le> changes_low_mark rp" using inv cfr(1,2) by (auto simp: rp_inv_def)
qed

lemma frag_ready_unsent:
  assumes "frag_ready k c rp"
  shows "fst (change_is_unsent (cc_sequenceNumber c) a b mn r rp)"
    "fst (snd (change_is_unsent (cc_sequenceNumber c) a b mn r rp)) = of_nat k"
proof -
  note f = frag_ready_found [OF assms]
  have ne: "changes_for_reader rp \<noteq> []" using f(1) by auto
  note n = next_unsent(2) [OF f(4)]
  show "fst (change_is_unsent (cc_sequenceNumber c) a b mn r rp)"
    "fst (snd (change_is_unsent (cc_sequenceNumber c) a b mn r rp)) = of_nat k"
    using f(1,3,6) ne n by (simp_all add: change_is_unsent_def Let_def)
qed

lemma frag_ready_sent:
  assumes "frag_ready k c rp" "k \<le> cc_fragment_count c"
  shows "\<exists>rp'. mark_fragment_as_sent_for_change (cc_sequenceNumber c) (of_nat k) rp = Some (True, k = cc_fragment_count c, rp') \<and>
    frag_ready (k + 1) c rp' \<and> rp' = rp\<lparr>changes_for_reader := changes_for_reader rp'\<rparr>"
proof -
  let ?cs = "changes_for_reader rp" and ?i = "find_change (cc_sequenceNumber c) (changes_for_reader rp)"
  note f = frag_ready_found [OF assms(1)]
  obtain d where d: "markFragmentsAsSent (of_nat k) (?cs ! ?i) = Some d" "unsent_from (k + 1) d" "cfr_change d = c"
    using markFragmentsAsSent_step [OF f(4)] assms(2) f(5) by auto
  have same: "cfr_seq_num d = cfr_seq_num (?cs ! ?i)" "cfr_status d = cfr_status (?cs ! ?i)"
    using d(1) by (auto simp: markFragmentsAsSent_def Let_def split: if_splits option.splits)
  define rp' where "rp' = rp\<lparr>changes_for_reader := ?cs[?i := d]\<rparr>"
  have "br_empty (cfr_unsent_fragments d) \<longleftrightarrow> k = cc_fragment_count c"
    using next_unsent(1) [OF d(2)] d(3) assms(2) by auto
  then have m: "mark_fragment_as_sent_for_change (cc_sequenceNumber c) (of_nat k) rp = Some (True, k = cc_fragment_count c, rp')"
    using f(1,6) d(1) by (simp add: mark_fragment_as_sent_for_change_def rp'_def Let_def)
  have "map cfr_seq_num (?cs[?i := d]) = map cfr_seq_num ?cs" using same(1) by (metis map_update list_update_id nth_map f(1))
  then have "rp_inv rp' = rp_inv rp" by (intro rp_inv_cong) (simp_all add: rp'_def)
  moreover have "d \<in> set (changes_for_reader rp')" using f(1) by (simp add: rp'_def set_update_memI)
  ultimately have "frag_ready (k + 1) c rp'" using assms(1) same f(2,3) d(2,3) by (auto simp: frag_ready_def)
  then show ?thesis using m by (auto simp: rp'_def)
qed

lemma frag_ready_last:
  assumes "frag_ready k c rp"
  shows "\<not> fst (change_is_unsent (cc_sequenceNumber c) a b mn r (acked_changes_set h g (cc_sequenceNumber c + 1) rp))"
    "\<not> fst (change_is_unsent (cc_sequenceNumber c) a b mn r (from_unsent_to_status h g (cc_sequenceNumber c) UNDERWAY True False rp))"
proof -
  let ?cs = "changes_for_reader rp" and ?i = "find_change (cc_sequenceNumber c) (changes_for_reader rp)"
  note f = frag_ready_found [OF assms]
  have inv: "rp_inv rp" using assms by (simp add: frag_ready_def)
  obtain m where "cc_sequenceNumber c + 1 \<le> m" "changes_low_mark (acked_changes_set h g (cc_sequenceNumber c + 1) rp) = m - 1"
    using acked_changes_set_ahead [OF inv, of "cc_sequenceNumber c + 1" h g] f(6) by auto
  then show "\<not> fst (change_is_unsent (cc_sequenceNumber c) a b mn r (acked_changes_set h g (cc_sequenceNumber c + 1) rp))"
    by (simp add: change_is_unsent_def)
  define d where "d = (?cs ! ?i)\<lparr>cfr_status := UNDERWAY\<rparr>"
  have cs: "changes_for_reader (from_unsent_to_status h g (cc_sequenceNumber c) UNDERWAY True False rp) = ?cs[?i := d]"
    by (simp add: from_unsent_to_status_def Let_def d_def)
  have seq: "map cfr_seq_num (?cs[?i := d]) = map cfr_seq_num ?cs" using f(1) by (simp add: d_def map_update list_update_same_conv)
  then have srt: "cfr_sorted (?cs[?i := d])" using inv by (simp add: rp_inv_def)
  have "d \<in> set (?cs[?i := d])" "cfr_seq_num d = cc_sequenceNumber c" using f(1,2) by (simp_all add: set_update_memI d_def)
  from find_change_present [OF srt this] have "?cs[?i := d] ! find_change (cc_sequenceNumber c) (?cs[?i := d]) = d" by simp
  then have "cfr_status (?cs[?i := d] ! find_change (cc_sequenceNumber c) (?cs[?i := d])) \<noteq> UNSENT" by (simp add: d_def)
  then show "\<not> fst (change_is_unsent (cc_sequenceNumber c) a b mn r (from_unsent_to_status h g (cc_sequenceNumber c) UNDERWAY True False rp))"
    by (simp add: change_is_unsent_def Let_def cs)
qed

lemma reader_after_sent_frag:
  assumes "frag_ready k c rp" "k \<le> cc_fragment_count c" "0 < cc_fragment_count c"
  shows "\<exists>rp'. reader_after_sent h g c (of_nat k) rp = Some rp' \<and>
    (if k < cc_fragment_count c then frag_ready (k + 1) c rp'
     else \<forall>a b mn r. \<not> fst (change_is_unsent (cc_sequenceNumber c) a b mn r rp'))"
proof -
  obtain rp1 where rp1: "mark_fragment_as_sent_for_change (cc_sequenceNumber c) (of_nat k) rp = Some (True, k = cc_fragment_count c, rp1)"
    "frag_ready (k + 1) c rp1" using frag_ready_sent [OF assms(1,2)] by blast
  show ?thesis
  proof (cases "k < cc_fragment_count c")
    case True
    then show ?thesis using assms(3) rp1 by (simp add: reader_after_sent_def)
  next
    case False
    then have "k = cc_fragment_count c" using assms(2) by simp
    then show ?thesis using assms(3) frag_ready_last [OF rp1(2)] rp1 by (simp add: reader_after_sent_def Let_def)
  qed
qed

lemma sw_emit_parts [simp]:
  "separate_sending_enabled (sw_emit ms w) = separate_sending_enabled w" "matched_remote_readers (sw_emit ms w) = matched_remote_readers w"
  "fragments_sent (sw_emit ms w) = fragments_sent w @ concat (map fragment_of ms)"
  by (simp_all add: sw_emit_def fragments_sent_def)

lemma sending_simps [simp]:
  "sending (sw_emit ms w) = (matched_remote_readers w, separate_sending_enabled w, fragments_sent w @ concat (map fragment_of ms))"
  "sending (w\<lparr>sw_last_sequence_number := n\<rparr>) = sending w" "sending (w\<lparr>ack_event := t\<rparr>) = sending w"
  "sending (w\<lparr>currentUsageSendBufferSize := z\<rparr>) = sending w" "sending (w\<lparr>periodic_hb_event := t\<rparr>) = sending w"
  "sending (w\<lparr>matched_remote_readers := rps\<rparr>) = (rps, separate_sending_enabled w, fragments_sent w)"
  "sending (increment_hb_count w) = sending w"
  by (simp_all add: sending_def fragments_sent_def sw_emit_def increment_hb_count_def)

lemma sending_heartbeat [simp]: "sending (send_heartbeat_nts h d n f l w) = sending w"
proof -
  have "sending (sw_emit [Heartbeat d a b m f l] (increment_hb_count w)) = sending w" for a b m
    by (simp add: sending_def [of w]) (simp add: increment_hb_count_def fragments_sent_def)
  then show ?thesis by (simp add: send_heartbeat_nts_def Let_def)
qed

lemma sending_piggyback [simp]: "sending (send_heartbeat_piggyback_nts net h w) = sending w"
  by (simp add: send_heartbeat_piggyback_nts_def Let_def)

lemma sending_restart_ack: "sending (restart_ack net c w) = sending w"
  by (simp add: restart_ack_def Let_def)

lemma frag_ready_less:
  assumes "frag_ready k c rp" "k \<le> cc_fragment_count c"
  shows "(of_nat k :: u32) < of_nat (cc_fragment_count c) + 1"
proof -
  have "cc_fragment_count c < 4294967040" using frag_ready_found(4,5) [OF assms(1)] by (simp add: unsent_from_def Let_def)
  then show ?thesis
    using assms(2) unat_add_1 [of "of_nat (cc_fragment_count c)"] by (simp add: word_less_nat_alt unat_of_nat_u32)
qed

lemma scan_single:
  assumes "matched_remote_readers w = [rp]" "frag_ready k c rp" "k \<le> cc_fragment_count c" "0 < cc_fragment_count c"
  shows "\<exists>sc w1. scan_readers h c r w = (sc, w1) \<and> sc_first sc = 0 \<and> sc_min sc = of_nat k \<and> sc_active sc = [0] \<and>
    sc_should_be_sent sc \<and> sending w1 = sending w"
proof -
  obtain u f g r' where u: "change_is_unsent (cc_sequenceNumber c) 0 0 (get_seq_num_min h) r rp = (u, f, g, r')" by (metis prod_cases4)
  have uf: "u" "f = of_nat k" using frag_ready_unsent [OF assms(2), of 0 0 "get_seq_num_min h" r] u by simp_all
  note lt = frag_ready_less [OF assms(2,3)]
  have "sending (sw_emit [Gap d a b] w) = sending w" for d a b by (simp add: sending_def [of w])
  then show ?thesis using assms(1,4) uf lt u by (simp add: scan_readers_def scan_reader_def Let_def less_imp_le)
qed

lemma round_single:
  assumes "matched_remote_readers w = [rp]" "frag_ready k c rp" "k \<le> cc_fragment_count c" "0 < cc_fragment_count c"
    "\<forall>m. net_result net m = Accepted" "\<forall>ds. 0 < net_locators net ds"
  shows "\<exists>rp' r' w'. network_round net h c r w = Some (DELIVERED, of_nat k, r', w') \<and> matched_remote_readers w' = [rp'] \<and>
    (if k < cc_fragment_count c then frag_ready (k + 1) c rp'
     else \<forall>a b mn r. \<not> fst (change_is_unsent (cc_sequenceNumber c) a b mn r rp')) \<and>
    fragments_sent w' = fragments_sent w @ [of_nat k]"
proof -
  obtain sc w1 where sc: "scan_readers h c r w = (sc, w1)" "sc_first sc = 0" "sc_min sc = of_nat k" "sc_active sc = [0]"
    "sc_should_be_sent sc" "sending w1 = sending w" using scan_single [OF assms(1-4)] by blast
  define w2 where "w2 = (if SN_UNKNOWN \<noteq> sc_gap_for_all sc
    then sw_emit [Gap (sc_enabled sc) (sc_gap_for_all sc) (br_init int_items (cc_sequenceNumber c))] w1 else w1)"
  have s2: "sending w2 = sending w" using sc(6) by (simp add: w2_def sending_def [of w1])
  then have w2: "matched_remote_readers w2 = [rp]" "fragments_sent w2 = fragments_sent w" using assms(1) by (simp_all add: sending_def)
  note ne = less_imp_neq [OF frag_ready_less [OF assms(2,3)]]
  obtain rp' where rp': "reader_after_sent h (sw_guid w2) c (of_nat k) rp = Some rp'"
    "if k < cc_fragment_count c then frag_ready (k + 1) c rp'
     else \<forall>a b mn r. \<not> fst (change_is_unsent (cc_sequenceNumber c) a b mn r rp')"
    using reader_after_sent_frag [OF assms(2-4)] by blast
  have after: "readers_after_sent h c (of_nat k) [0] (sw_emit [m] w2) = Some ((sw_emit [m] w2)\<lparr>matched_remote_readers := [rp']\<rparr>)" for m
    using rp'(1) w2(1) by (simp add: sw_emit_def)
  have msg: "\<exists>b. data_message c (of_nat k) q d = Some (Data_frag d (cc_sequenceNumber c) (of_nat k) b)" for q d
    using assms(4) ne by (simp add: data_message_def)
  define sent where "sent = (if \<not> separate_sending_enabled w2 then send_to_selected net h c sc w2
      else send_separately net h c sc (filter (\<lambda>i. i \<in> set (sc_active sc)) [sc_first sc..<length (matched_remote_readers w2)]) (DELIVERED, w2))"
  have "\<exists>w3. sent = Some (DELIVERED, w3) \<and> sending w3 = ([rp'], separate_sending_enabled w2, fragments_sent w2 @ [of_nat k])"
  proof (cases "separate_sending_enabled w2")
    case True
    obtain b where b: "data_message c (of_nat k) (sc_inline_qos sc) [rp_guid rp] = Some (Data_frag [rp_guid rp] (cc_sequenceNumber c) (of_nat k) b)"
      using msg by blast
    then show ?thesis using True after assms(4,5) sc(2-4) w2(1)
      by (simp add: sent_def del: readers_after_sent.simps)
  next
    case False
    obtain b where b: "data_message c (of_nat k) (sc_inline_qos sc) (sc_enabled sc) =
        Some (Data_frag (sc_enabled sc) (cc_sequenceNumber c) (of_nat k) b)" using msg by blast
    then show ?thesis using False after assms(5,6) sc(2-4) w2(1)
      by (simp add: sent_def send_to_selected_def del: readers_after_sent.simps)
  qed
  then obtain w3 where w3: "sent = Some (DELIVERED, w3)" "matched_remote_readers w3 = [rp']" "fragments_sent w3 = fragments_sent w @ [of_nat k]"
    using w2(2) by (auto simp: sending_def)
  have "network_round net h c r w = Some (DELIVERED, sc_min sc, sc_reactivate sc, restart_ack net c w3)"
    using sc(5) w3(1) unfolding network_round_def restart_ack_def sc(1)
    by (simp only: Let_def prod.case w2_def [symmetric] sent_def [symmetric] if_True bind.simps)
  moreover have "matched_remote_readers (restart_ack net c w3) = [rp']" "fragments_sent (restart_ack net c w3) = fragments_sent w @ [of_nat k]"
    using sending_restart_ack [of net c w3] w3(2,3) by (simp_all add: sending_def)
  ultimately show ?thesis using rp'(2) sc(3) by (intro exI conjI) simp_all
qed

lemma round_idle:
  assumes "matched_remote_readers w = [rp]" "\<forall>a b mn r. \<not> fst (change_is_unsent (cc_sequenceNumber c) a b mn r rp)"
  shows "\<exists>w' r'. network_round net h c r w = Some (DELIVERED, of_nat (cc_fragment_count c) + 1, r', w') \<and>
    fragments_sent w' = fragments_sent w"
proof -
  obtain f g r' where u: "change_is_unsent (cc_sequenceNumber c) 0 0 (get_seq_num_min h) r rp = (False, f, g, r')"
    using assms(2) by (metis fst_conv prod_cases4)
  have "scan_readers h c r w = (\<lparr>sc_first = 0, sc_min = of_nat (cc_fragment_count c) + 1, sc_active = [], sc_enabled = [],
         sc_inline_qos = False, sc_should_be_sent = False, sc_gap_for_all = SN_UNKNOWN, sc_reactivate = r'\<rparr>, w)"
    using assms(1) by (simp add: scan_readers_def scan_reader_def u)
  then have "network_round net h c r w = Some (DELIVERED, of_nat (cc_fragment_count c) + 1, r', restart_ack net c w)"
    unfolding network_round_def restart_ack_def by (simp add: Let_def)
  then show ?thesis using sending_restart_ack [of net c w] by (simp add: sending_def)
qed

lemma loop_single:
  assumes "matched_remote_readers w = [rp]" "frag_ready k c rp" "k \<le> cc_fragment_count c" "0 < cc_fragment_count c"
    "\<forall>m. net_result net m = Accepted" "\<forall>ds. 0 < net_locators net ds"
  shows "\<exists>w' r'. network_loop net h c r w = Some (DELIVERED, r', w') \<and>
    fragments_sent w' = fragments_sent w @ map of_nat [k..<cc_fragment_count c + 1]"
  using assms(1-3)
proof (induction "cc_fragment_count c - k" arbitrary: k w rp r)
  case 0
  then have k: "k = cc_fragment_count c" by simp
  obtain rp1 r1 w1 where r1: "network_round net h c r w = Some (DELIVERED, of_nat k, r1, w1)" "matched_remote_readers w1 = [rp1]"
    "\<forall>a b mn r. \<not> fst (change_is_unsent (cc_sequenceNumber c) a b mn r rp1)" "fragments_sent w1 = fragments_sent w @ [of_nat k]"
    using round_single [OF 0(2,3,4) assms(4-6), of h r] k by auto
  obtain w2 r2 where r2: "network_round net h c r1 w1 = Some (DELIVERED, of_nat (cc_fragment_count c) + 1, r2, w2)"
    "fragments_sent w2 = fragments_sent w1" using round_idle [OF r1(2,3)] by blast
  have "network_loop net h c r w = network_loop net h c r1 w1"
    by (subst network_loop.simps) (simp add: r1(1) less_imp_neq [OF frag_ready_less [OF 0(3,4)]])
  also have "\<dots> = Some (DELIVERED, r2, w2)" by (subst network_loop.simps) (simp add: r2(1))
  finally show ?case using r1(4) r2(2) k by simp
next
  case (Suc d)
  then have k: "k < cc_fragment_count c" by simp
  obtain rp1 r1 w1 where r1: "network_round net h c r w = Some (DELIVERED, of_nat k, r1, w1)" "matched_remote_readers w1 = [rp1]"
    "frag_ready (k + 1) c rp1" "fragments_sent w1 = fragments_sent w @ [of_nat k]"
    using round_single [OF Suc(3-5) assms(4-6), of h r] k by auto
  have "network_loop net h c r w = network_loop net h c r1 w1"
    by (subst network_loop.simps) (simp add: r1(1) less_imp_neq [OF frag_ready_less [OF Suc(4,5)]])
  moreover obtain w' r' where "network_loop net h c r1 w1 = Some (DELIVERED, r', w')"
    "fragments_sent w' = fragments_sent w1 @ map of_nat [k + 1..<cc_fragment_count c + 1]"
  proof -
    have "d = cc_fragment_count c - (k + 1)" "k + 1 \<le> cc_fragment_count c" using Suc(2) k by linarith+
    from Suc(1) [OF this(1) r1(2,3) this(2), of r1] show ?thesis using that by blast
  qed
  moreover have "[k..<cc_fragment_count c + 1] = k # [k + 1..<cc_fragment_count c + 1]" using k by (simp add: upt_rec)
  ultimately show ?case using r1(4) by simp
qed

text \<open>
  C7. A fragmented sample reaches the network. With one remote reader that needs the sample and a network
  that takes every message, the delivery ends with success after all fragments were sent, each
  exactly once and in order, whether the writer sends to selected locators or to each reader
  separately, for reliable and best-effort readers alike.
\<close>

theorem fragmented_sample_delivered:
  assumes "matched_remote_readers w = [rp]" "rp_inv rp" "ChangeForReader c \<in> set (changes_for_reader rp)"
    "cc_fragment_size c \<noteq> 0" "0 < cc_fragment_count c" "cc_fragment_count c < 4294967040"
    "\<forall>m. net_result net m = Accepted" "\<forall>ds. 0 < net_locators net ds"
  shows "\<exists>w'. deliver_sample_to_network net h c w = Some (DELIVERED, w') \<and>
    fragments_sent w' = fragments_sent w @ map of_nat [1..<cc_fragment_count c + 1]"
proof -
  define d where "d = \<lparr>cfr_status = UNSENT, cfr_seq_num = cc_sequenceNumber c, cfr_change = c,
    cfr_unsent_fragments = br_default u32_items, cfr_delivered = False\<rparr>"
  have d: "ChangeForReader c = markAllFragmentsAsUnsent d" by (simp add: ChangeForReader_def d_def)
  have "unsent_from 1 (ChangeForReader c)" unfolding d using assms(4,6) by (intro markAll_unsent) (simp_all add: d_def)
  moreover have "cfr_change (ChangeForReader c) = c" "cfr_status (ChangeForReader c) = UNSENT" by (simp_all add: d d_def)
  ultimately have ready: "frag_ready 1 c rp"
    using assms(2,3) unfolding frag_ready_def by (intro conjI bexI [of _ "ChangeForReader c"]) simp_all
  then have "0 \<noteq> (of_nat (cc_fragment_count c) + 1 :: u32)" using frag_ready_less [OF ready] assms(5) by auto
  moreover obtain w1 r1 where "network_loop net h c False w = Some (DELIVERED, r1, w1)"
    "fragments_sent w1 = fragments_sent w @ map of_nat [1..<cc_fragment_count c + 1]"
    using loop_single [OF assms(1) ready _ assms(5,7,8), of h False] assms(5) by auto
  ultimately show ?thesis by (auto simp: deliver_sample_to_network_def fragments_sent_def)
qed

theorem fragmented_sample_delivered_witness:
  "\<exists>w'. deliver_sample_to_network \<lparr>net_result = (\<lambda>_. Accepted), net_locators = (\<lambda>_. 1), net_bytes = (\<lambda>_. 0), net_ack_pending = False,
       net_now = time_of 0 0\<rparr> (example_history [example_fragmented 3]) (example_fragmented 3)
     (example_sw [example_proxy VOLATILE 0 [ChangeForReader (example_fragmented 3)]]) = Some (DELIVERED, w') \<and> fragments_sent w' = [1, 2, 3]"
proof -
  let ?c = "example_fragmented 3" and ?rp = "example_proxy VOLATILE 0 [ChangeForReader (example_fragmented 3)]"
  have "rp_inv ?rp" by (simp add: rp_inv_def example_fragmented_def)
  moreover have "cc_fragment_count ?c = 3" "cc_fragment_size ?c = 4" by (simp_all add: example_fragmented_def)
  moreover have "map of_nat [1..<3 + 1] = [1, 2, 3 :: u32]" by (simp add: upt_rec)
  moreover have "fragments_sent (example_sw [?rp]) = []" by (simp add: fragments_sent_def example_sw_def)
  ultimately show ?thesis
    using fragmented_sample_delivered [of "example_sw [?rp]" ?rp ?c "\<lparr>net_result = (\<lambda>_. Accepted), net_locators = (\<lambda>_. 1), net_bytes = (\<lambda>_. 0),
        net_ack_pending = False, net_now = time_of 0 0\<rparr>" "example_history [?c]"]
    by (simp add: example_sw_def)
qed

lemma add_change_for_reader_mark:
  "changes_low_mark (snd (add_change_for_reader env ch push rp)) = changes_low_mark rp \<or>
   changes_low_mark (snd (add_change_for_reader env ch push rp)) = cc_sequenceNumber ch"
proof -
  define cfr where "cfr = (if push \<or> \<not> rp_is_reliable rp \<or> is_local_reader rp then ChangeForReader ch
    else (ChangeForReader ch)\<lparr>cfr_status := UNACKNOWLEDGED\<rparr>)"
  have "snd (add_change_for_reader env ch push rp) = rp_add_change cfr (rtps_is_relevant env ch rp) False rp"
    by (simp add: add_change_for_reader_def cfr_def Let_def)
  moreover have "cfr_seq_num cfr = cc_sequenceNumber ch" by (simp add: cfr_def)
  ultimately show ?thesis using rp_add_change_mark [of cfr "rtps_is_relevant env ch rp" False rp] by simp
qed



text \<open>
  C24. Positive acknowledgements disabled. After the timer has acknowledged all samples it rests on the next
  number to be given out. If the timer is started again before a sample is written (a change of the
  keep duration does this), it acknowledges that number for the readers without positive
  acknowledgements: the next sample, when it is written, counts as acknowledged and is never sent to
  them.
\<close>

theorem idle_ack_timer_loses_next_sample:
  fixes w :: "'loc StatefulWriter" and env :: "'loc sw_env"
  assumes "sw_inv (h, w)" "sw_last_sequence_number w = next_sequence_number h" "i < length (matched_readers w)"
    "rp_disable_positive_acks (matched_readers w ! i)" "cc_sequenceNumber ch = next_sequence_number h"
  shows "\<exists>w'. ack_timer_expired (env\<lparr>env_listener := None\<rparr>) (now # later) (h, w) = Some (False, h, w') \<and>
    \<not> fst (change_is_unsent (cc_sequenceNumber ch) f g mn r (snd (add_change_for_reader env ch push (matched_readers w' ! i))))"
proof -
  let ?n = "next_sequence_number h" and ?env = "env\<lparr>env_listener := None\<rparr>" and ?rp = "matched_readers w ! i"
  let ?f = "\<lambda>reader :: 'loc ReaderProxy. if rp_disable_positive_acks reader
      then acked_changes_set h (sw_guid w) (?n + 1) reader else reader"
  have ex: "list_ex rp_disable_positive_acks (matched_readers w)" using assms(3,4) by (auto simp: list_ex_iff)
  obtain w1 where w1: "check_acked_status ?env (h, map_matched_readers ?f w) = Some (h, w1)" "readers_of w1 = readers_of (map_matched_readers ?f w)"
      "sw_last_sequence_number w1 = ?n"
    using quiet_check_acked [of env h "map_matched_readers ?f w"] assms(2) by (auto simp: map_matched_readers_def)
  have acks: "acks_without_reply ?env (h, w) = Some (h, w1)" using ex w1(1) by (simp add: acks_without_reply_def assms(2) cong: if_cong)
  have none: "get_change m (sw_guid w1) h = None" if "?n < m" for m
    using get_change_in [of m "sw_guid w1" h] history_goodD(6) [OF sw_invD(1) [OF assms(1)]] that
    by (cases "get_change m (sw_guid w1) h") (force simp: next_sequence_number_def)+
  have "next_to_ack h (sw_guid w1) ?n = ?n + 1" by (subst next_to_ack.simps) simp
  then have run: "ack_timer_expired ?env (now # later) (h, w) = Some (False, h, w1\<lparr>sw_last_sequence_number := ?n + 1\<rparr>)"
    using acks none [of "?n + 1"] w1(3) by (simp del: next_to_ack.simps)
  have rp: "matched_readers w1 ! i = acked_changes_set h (sw_guid w) (?n + 1) ?rp"
    using w1(2) assms(3,4) by (simp add: readers_of_def matched_readers_map)
  have good: "reader_good h ?rp" by (rule sw_inv_nth [OF assms(1,3)])
  then have "rp_inv ?rp" "changes_low_mark ?rp < ?n + 1" by (simp_all add: reader_good_def rp_ok_def next_sequence_number_def)
  from acked_changes_set_ahead [OF this, of h "sw_guid w"] have "?n \<le> changes_low_mark (matched_readers w1 ! i)" using rp by auto
  then have "?n \<le> changes_low_mark (snd (add_change_for_reader env ch push (matched_readers w1 ! i)))"
    using add_change_for_reader_mark [of env ch push "matched_readers w1 ! i"] assms(5) by auto
  then show ?thesis using run assms(5) by (simp add: change_is_unsent_def matched_readers_def)
qed

theorem idle_ack_timer_loses_next_sample_witness:
  "\<exists>w'. ack_timer_expired (example_env\<lparr>env_listener := None\<rparr>) [time_of 0 0] (example_history [],
      (example_sw [(example_proxy VOLATILE 7 [])\<lparr>rp_disable_positive_acks := True\<rparr>])\<lparr>sw_last_sequence_number := 8\<rparr>) = Some (False, example_history [], w') \<and>
    \<not> fst (change_is_unsent 8 0 0 8 False (snd (add_change_for_reader example_env (example_numbered 8) True (matched_readers w' ! 0))))"
proof -
  let ?w = "(example_sw [(example_proxy VOLATILE 7 [])\<lparr>rp_disable_positive_acks := True\<rparr>])\<lparr>sw_last_sequence_number := 8\<rparr>"
  have "sw_inv (example_history [], ?w)" using example_history_inv(2)
    by (simp add: sw_inv_def history_good_def wh_inv_def reader_good_def rp_ok_def rp_inv_def rp_in_history_def
        example_history_def example_sw_def matched_readers_def)
  from idle_ack_timer_loses_next_sample [OF this, of 0 "example_numbered 8" example_env "time_of 0 0" "[]" 0 0 8 False True] show ?thesis
    by (simp add: next_sequence_number_def example_history_def example_sw_def matched_readers_def)
qed

end
