(* ===== verification/Spec2Isabelle.thy ===== *)
theory Spec2Isabelle
  imports Prelude SequenceNumber BitmapRange BitmapLaws Guid WriterProxy CacheChange RtpsTime History
    BaseReader ReaderProxy StatefulWriter StatefulWriterInv StatefulWriterLaws
begin

text \<open>
  Fast DDS implements the DDS publish/subscribe middleware over the RTPS wire protocol. A writer stores
  samples (\<open>CacheChange_t\<close>) in its history under growing sequence numbers and sends them, in fragments when
  they are large; a reader keeps for each matched writer a proxy that knows which numbers have arrived,
  been lost or are missing, asks for the missing ones, and stores the samples in its own history.

  The theories, from the bottom up:

  \<^item> \<open>Prelude\<close>: machine types, 32-bit arithmetic read as integers, \<open>std::lower_bound\<close>.
  \<^item> \<open>SequenceNumber\<close> (\<open>rtps/common/SequenceNumber.hpp\<close>): the struct of a signed high and an unsigned low
    word; it refines the integers, so the theories above use \<open>int\<close> for sequence numbers.
  \<^item> \<open>BitmapRange\<close>, \<open>BitmapLaws\<close> (\<open>utils/fixed_size_bitmap.hpp\<close>): the sets of 256 numbers that messages
    carry, as words of 32 bits, generic in the item type; a locale states what an item type must
    provide and is interpreted for integers, for fragment numbers and for the sequence number struct.
  \<^item> \<open>Guid\<close> (\<open>rtps/common/Guid.hpp\<close> and the files it includes): identifiers, their order and conversions.
  \<^item> \<open>RtpsTime\<close> (\<open>rtps/common/Time_t.hpp\<close>, \<open>dds/core/Time_t.hpp\<close>): the two time types and conversions.
  \<^item> \<open>CacheChange\<close> (\<open>rtps/common/CacheChange.hpp\<close>, \<open>SerializedPayload.hpp\<close>): samples, payload buffers and
    the reassembly of fragments with its list of missing fragments inside the payload buffer.
  \<^item> \<open>History\<close> (\<open>rtps/history/History.cpp\<close>, \<open>WriterHistory.cpp\<close>, \<open>ReaderHistory.cpp\<close>): the vectors of
    changes of writers and readers; the calls into the endpoint are arguments.
  \<^item> \<open>WriterProxy\<close> (\<open>rtps/reader/WriterProxy.cpp\<close>): what a reader knows of a writer, as a state machine.
  \<^item> \<open>BaseReader\<close> (\<open>rtps/reader/BaseReader.cpp\<close>, \<open>ReaderHistoryState.hpp\<close>, \<open>reader_utils.cpp\<close>): what readers
    share, the record of notified numbers above all, and the record of functions that stands for the
    outside of a reader.
  \<^item> \<open>ReaderProxy\<close> (\<open>rtps/writer/ReaderProxy.cpp\<close>, \<open>ChangeForReader.hpp\<close>, \<open>ReaderLocator.cpp\<close>,
    \<open>rtps/messages/RTPSGapBuilder.cpp\<close>): what a writer knows of a reader, the status of each sample for
    it, and the collection of numbers into GAP messages.
  \<^item> \<open>StatefulWriter\<close> (\<open>rtps/writer/StatefulWriter.cpp\<close>): the reliable writer. Its state is its history and
    a record with the fields of the class; messages it sends are a list in that record. The operations have
    the names of the methods; the parts of \<open>deliver_sample_to_network\<close> that are loops or lambdas in
    the source are definitions of their own.
  \<^item> \<open>StatefulWriterInv\<close>, \<open>StatefulWriterLaws\<close>: the writer's invariant over all its operations, and what it
    guarantees.

  What the lemmas show. For the data types: refinement of an abstract type (numbers, sets of
  numbers, time spans) by the words of the implementation, round trips of conversions, and the order
  relations. For a sample: fragments in any order and with repetitions rebuild the payload. For the
  histories and the proxies: an invariant kept by every operation, and the exact effect of each
  operation on an abstract set (what is stored, received, acknowledged, requested). For the writer:
  the invariant in every reachable state, that acknowledgements are believed exactly as far as the
  reader sent them, that samples a volatile writer drops are those every reader has acknowledged,
  that GAPs name exactly the holes of the history. Where the code does not behave as intended the
  theorem says so for a concrete state or a family of states.

  Bounds and fuel. Loops that always end are structural recursions or have a termination proof. Loops
  that need not end (links of missing fragments read from a payload, the delivery loop over the
  network, \<open>set_nanosec\<close> of a time, \<open>remove_all_changes\<close>) are partial functions, \<open>None\<close> for no result;
  theorems say when they give one. The loop of the writer that tells its listener of acknowledged
  samples calls the listener, which may change the history; it runs on fuel one larger than the
  history, which is shown to be enough. The acknowledgement timer takes the readings of the clock as a
  list.

  Not modelled: locks, condition variables and the threads that fire timers (each operation runs
  under the mutex of its endpoint, so operations interleave as whole steps; the exceptions are the
  timer callbacks of a proxy, whose atomic exchanges are separate steps); the pools of changes and
  payloads, which only reuse memory; the octets of messages, the transports and the flow controller
  threads, which are the environment of the modelled endpoints; liveliness, data sharing segments,
  discovery, security, the DDS layer, types and configuration, which are built on top of or beside the
  modelled protocol. The manifest lists each with its files.
\<close>

end
